(* ===== verification/Falcon_Prelude.thy ===== *)
theory Falcon_Prelude
  imports Main "HOL-Library.Word"
begin

unbundle bit_operations_syntax

text \<open>
  Shared vocabulary of the development: the fixed-width integers of the C sources, the outcome
  of a call that may raise a PostgreSQL error, and the generic facts on sums over processes,
  lists and words that the component theories use.

  \<^item> \<open>u64\<close>, \<open>u32\<close>, \<open>u16\<close>, \<open>u8\<close> are the unsigned integers of the C code; \<open>+\<close>, \<open>-\<close> and \<open>*\<close>
    wrap around as in C.
  \<^item> The collection \<open>falcon_word\<close> gathers the rules that read a word operation at \<open>nat\<close>.
\<close>

type_synonym u64 = "64 word"
type_synonym u32 = "32 word"
type_synonym u16 = "16 word"
type_synonym u8 = "8 word"

named_theorems falcon_word \<open>word operations read as natural numbers\<close>

subsection \<open>Sums over the backends\<close>

text \<open>Changing the contribution of one backend changes the sum by exactly that contribution.\<close>

lemma sum_fun_upd_less:
  fixes f :: "nat \<Rightarrow> nat"
  assumes "p < n" and "\<And>q. q \<noteq> p \<Longrightarrow> g q = f q"
  shows "(\<Sum>q<n. g q) + f p = (\<Sum>q<n. f q) + g p"
proof -
  have g: "(\<Sum>q<n. g q) = g p + (\<Sum>q\<in>{..<n} - {p}. g q)"
    using assms(1) by (simp add: sum.remove)
  have f: "(\<Sum>q<n. f q) = f p + (\<Sum>q\<in>{..<n} - {p}. f q)"
    using assms(1) by (simp add: sum.remove)
  have "(\<Sum>q\<in>{..<n} - {p}. g q) = (\<Sum>q\<in>{..<n} - {p}. f q)"
    by (rule sum.cong) (auto simp: assms(2))
  with f g show ?thesis by simp
qed

lemma sum_le_mult_less:
  fixes f :: "nat \<Rightarrow> nat"
  assumes "\<And>q. q < n \<Longrightarrow> f q \<le> b"
  shows "(\<Sum>q<n. f q) \<le> n * b"
  using sum_bounded_above [of "{..<n}" f b] assms by simp

lemma member_le_sum_less:
  fixes f :: "nat \<Rightarrow> nat"
  assumes "p < n"
  shows "f p \<le> (\<Sum>q<n. f q)"
  using member_le_sum [of p "{..<n}" f] assms by simp

lemma two_members_le_sum_less:
  fixes f :: "nat \<Rightarrow> nat"
  assumes "p < n" and "q < n" and "p \<noteq> q"
  shows "f p + f q \<le> (\<Sum>k<n. f k)"
proof -
  have "f q \<le> (\<Sum>k\<in>{..<n} - {p}. f k)"
    using assms by (intro member_le_sum) auto
  moreover have "(\<Sum>k<n. f k) = f p + (\<Sum>k\<in>{..<n} - {p}. f k)"
    using assms by (simp add: sum.remove)
  ultimately show ?thesis by simp
qed

subsection \<open>Words at their value\<close>

lemma unat_take_bit_mod [falcon_word]:
  "unat (take_bit n (w :: 'a::len word)) = unat w mod 2 ^ n"
  by (subst unsigned_take_bit_eq) (rule take_bit_eq_mod)

lemma unat_and_mask [falcon_word]:
  "unat ((w :: 'a::len word) AND mask n) = unat w mod 2 ^ n"
  by (simp only: take_bit_eq_mask [symmetric] unat_take_bit_mod)

lemma unat_drop_bit_div [falcon_word]:
  "unat (drop_bit n (w :: 'a::len word)) = unat w div 2 ^ n"
  by (subst unat_drop_bit_eq) (rule drop_bit_eq_div)

lemma bit_word_iff_unat [falcon_word]:
  "bit (w :: 'a::len word) n \<longleftrightarrow> odd (unat w div 2 ^ n)"
  by (simp add: bit_unsigned_iff bit_iff_odd [symmetric])

lemma and_two_power_eq_0_iff:
  assumes "n < LENGTH('a)"
  shows "((w :: 'a::len word) AND 2 ^ n = 0) \<longleftrightarrow> \<not> bit w n"
proof -
  have eq: "w AND 2 ^ n = (if bit w n then 2 ^ n else 0)"
    by (rule bit_eqI) (auto simp: bit_simps)
  have "(2 :: 'a word) ^ n \<noteq> 0"
    using assms by simp
  with eq show ?thesis by simp
qed

lemma unat_two_power [falcon_word]:
  "n < LENGTH('a) \<Longrightarrow> unat ((2 :: 'a::len word) ^ n) = 2 ^ n"
  using unat_of_nat [of "2 ^ n", where 'a = 'a] by simp

lemma unat_add_no_overflow [falcon_word]:
  "unat (a :: 'a::len word) + unat b < 2 ^ LENGTH('a) \<Longrightarrow> unat (a + b) = unat a + unat b"
  by (simp add: unat_word_ariths)

lemma unat_sub_no_borrow [falcon_word]:
  "unat (b :: 'a::len word) \<le> unat a \<Longrightarrow> unat (a - b) = unat a - unat b"
  by (simp add: unat_sub word_le_nat_alt)

text \<open>Setting a clear bit adds its weight; clearing a set bit takes it away.\<close>

lemma unat_or_two_power:
  assumes "\<not> bit (w :: 'a::len word) n" and "n < LENGTH('a)"
  shows "unat (w OR 2 ^ n) = unat w + 2 ^ n"
proof -
  have "w AND 2 ^ n = 0" using assms by (simp add: and_two_power_eq_0_iff)
  then have "unat w AND 2 ^ n = 0"
    by (metis unat_two_power [OF assms(2)] unsigned_and_eq unsigned_0)
  then have "unat w OR 2 ^ n = unat w + 2 ^ n" by (simp add: disjunctive_add_eq_or)
  then show ?thesis by (simp add: unsigned_or_eq unat_two_power [OF assms(2)])
qed

lemma unat_and_not_two_power:
  assumes "n < LENGTH('a)"
  shows "unat ((w :: 'a::len word) AND NOT (2 ^ n)) =
    (if bit w n then unat w - 2 ^ n else unat w)"
proof (cases "bit w n")
  case True
  let ?v = "w AND NOT (2 ^ n)"
  have "\<not> bit ?v n" using assms by (simp add: bit_simps)
  moreover have "?v OR 2 ^ n = w"
    by (rule bit_eqI) (use True in \<open>auto simp: bit_simps\<close>)
  ultimately have "unat w = unat ?v + 2 ^ n" using unat_or_two_power [of ?v n] assms by simp
  with True show ?thesis by simp
next
  case False
  then have "w AND NOT (2 ^ n) = w" by (intro bit_eqI) (auto simp: bit_simps)
  with False show ?thesis by simp
qed

lemma or_two_power_idem: "bit (w :: 'a::len word) n \<Longrightarrow> w OR 2 ^ n = w"
  by (rule bit_eqI) (auto simp: bit_simps)

lemma and_or_two_powers_eq_0_iff:
  assumes "m < LENGTH('a)" and "n < LENGTH('a)"
  shows "((w :: 'a::len word) AND (2 ^ m OR 2 ^ n) = 0) \<longleftrightarrow> \<not> bit w m \<and> \<not> bit w n"
proof -
  have "w AND (2 ^ m OR 2 ^ n) = (w AND 2 ^ m) OR (w AND 2 ^ n)"
    by (rule bit_eqI) (auto simp: bit_simps)
  then show ?thesis using assms by (simp add: or_eq_0_iff and_two_power_eq_0_iff)
qed

lemma unat_push_bit_no_overflow:
  assumes "unat (w :: 'a::len word) * 2 ^ n < 2 ^ LENGTH('a)"
  shows "unat (push_bit n w) = unat w * 2 ^ n"
proof -
  have "unat (push_bit n w) = take_bit LENGTH('a) (push_bit n (unat w))"
    by (rule unsigned_push_bit_eq)
  also have "push_bit n (unat w) = unat w * 2 ^ n" by (rule push_bit_eq_mult)
  also have "take_bit LENGTH('a) (unat w * 2 ^ n) = unat w * 2 ^ n"
    using assms by (rule take_bit_nat_eq_self)
  finally show ?thesis .
qed

text \<open>Packing a field of \<open>n\<close> bits below a number.\<close>

lemma unat_push_bit_or:
  assumes "unat (b :: 'a::len word) < 2 ^ n" and "unat a * 2 ^ n + unat b < 2 ^ LENGTH('a)"
  shows "unat (push_bit n a OR b) = unat a * 2 ^ n + unat b"
proof -
  have "push_bit n a AND b = 0"
  proof (rule bit_eqI)
    fix i
    have "\<not> bit b i" if "n \<le> i"
    proof -
      have "(2 :: nat) ^ n \<le> 2 ^ i" using that by (rule power_increasing) simp
      with assms(1) have "unat b div 2 ^ i = 0" by (intro div_less) (rule less_le_trans)
      then show ?thesis by (simp add: bit_word_iff_unat)
    qed
    then show "bit (push_bit n a AND b) i = bit 0 i" by (auto simp: bit_simps)
  qed
  then have "push_bit n a OR b = push_bit n a + b" by (rule disjunctive_add_eq_or [symmetric])
  moreover have "unat (push_bit n a) = unat a * 2 ^ n"
    using assms(2) by (intro unat_push_bit_no_overflow) linarith
  ultimately show ?thesis using assms(2) by (simp add: unat_add_no_overflow)
qed

lemma unat_ucast_up: "unat (w :: 'a::len word) < 2 ^ LENGTH('b) \<Longrightarrow> unat (ucast w :: 'b::len word) = unat w"
  by (simp add: unsigned_ucast_eq take_bit_nat_eq_self)

lemma unat_of_nat_lt: "n < 2 ^ LENGTH('a) \<Longrightarrow> unat (of_nat n :: 'a::len word) = n"
  by (simp add: unsigned_of_nat take_bit_nat_eq_self)

end
