(* ===== verification/Error_Code.thy ===== *)
theory Error_Code
  imports Falcon_Prelude
begin

text \<open>
  The error codes of \<open>remote_connection_def/remote_connection_utils/error_code_def.h\<close> and the
  error channel of the metadata engine: \<open>FALCON_ELOG_ERROR\<close> (\<open>falcon/include/utils/error_log.h\<close>)
  puts a code into the text of a PostgreSQL error, \<open>FalconErrorMsgAnalyse\<close>
  (\<open>falcon/utils/error_code.c\<close>) reads it back on the other side of the connection.

  A call that can raise such an error has the type \<open>'a falcon\<close>: \<open>Inl\<close> is the raised code.
\<close>

datatype FalconErrorCode =
    SUCCESS | PATH_IS_INVALID | PATH_IS_ROOT | PATH_EXISTS | PATH_NOT_EXISTS
  | PATH_LOCK_CONFLICT | PATH_VERIFY_FAILED | REMOTE_TRANSFER_FAILED | WRONG_WORKER
  | OBSOLETE_SHARD | REMOTE_QUERY_FAILED | ARGUMENT_ERROR | INODE_ROW_TYPE_ERROR
  | FILE_EXISTS | FILE_NOT_EXISTS | OUT_OF_MEMORY | STREAM_ERROR | PROGRAM_ERROR
  | SMART_ROUTE_ERROR | UNDEFINED | MKDIR_DUPLICATE | XKEY_EXISTS | XKEY_NOT_EXISTS
  | VERSION_OUT_OF_DATE | INVALID_PARAMETER | UNKNOWN | SERVER_FAULT | ZK_NOT_CONNECT
  | ZK_FETCH_RESULT_FAILED | TRANSACTION_FAULT | POOLED_FAULT | NOT_FOUND_FD
  | GET_ALL_WORKER_CONN_FAILED | IO_ERROR | READDIR_RENEW_CONN | LAST_FALCON_ERROR_CODE

type_synonym 'a falcon = "FalconErrorCode + 'a"

text \<open>The enumerators in the order the X-macro lists them; the C value is the position.\<close>

definition FALCON_ERROR_CODE_LIST :: "FalconErrorCode list" where
  "FALCON_ERROR_CODE_LIST =
    [SUCCESS, PATH_IS_INVALID, PATH_IS_ROOT, PATH_EXISTS, PATH_NOT_EXISTS,
     PATH_LOCK_CONFLICT, PATH_VERIFY_FAILED, REMOTE_TRANSFER_FAILED, WRONG_WORKER,
     OBSOLETE_SHARD, REMOTE_QUERY_FAILED, ARGUMENT_ERROR, INODE_ROW_TYPE_ERROR,
     FILE_EXISTS, FILE_NOT_EXISTS, OUT_OF_MEMORY, STREAM_ERROR, PROGRAM_ERROR,
     SMART_ROUTE_ERROR, UNDEFINED, MKDIR_DUPLICATE, XKEY_EXISTS, XKEY_NOT_EXISTS,
     VERSION_OUT_OF_DATE, INVALID_PARAMETER, UNKNOWN, SERVER_FAULT, ZK_NOT_CONNECT,
     ZK_FETCH_RESULT_FAILED, TRANSACTION_FAULT, POOLED_FAULT, NOT_FOUND_FD,
     GET_ALL_WORKER_CONN_FAILED, IO_ERROR, READDIR_RENEW_CONN, LAST_FALCON_ERROR_CODE]"

fun index_of :: "'a list \<Rightarrow> 'a \<Rightarrow> nat" where
  "index_of [] x = 0"
| "index_of (y # ys) x = (if x = y then 0 else Suc (index_of ys x))"

definition code_value :: "FalconErrorCode \<Rightarrow> nat" where
  "code_value c = index_of FALCON_ERROR_CODE_LIST c"

text \<open>
  The text that \<open>elog(ERROR, "%c ...")\<close> hands to the client: PostgreSQL's severity tag, which
  takes the first eight characters (\<open>ERROR:\<close> and two blanks), then the code shifted by 64 as one
  character, then the message.
\<close>

definition FALCON_ELOG_ERROR :: "FalconErrorCode \<Rightarrow> string \<Rightarrow> string" where
  "FALCON_ELOG_ERROR c msg = ''ERROR:  '' @ [char_of (code_value c + 64)] @ '' '' @ msg"

text \<open>
  \<open>originalErrorMsg[8]\<close> is read without a length check; the model returns \<open>None\<close> for a text
  so short that the read would leave it.  A character at or above 128 is negative as a C
  \<open>char\<close> on the platforms the code targets, so it fails the test \<open>> 64\<close>; it also fails the
  test \<open>< 64 + LAST_FALCON_ERROR_CODE\<close>, so the two readings agree.
\<close>

definition FalconErrorMsgAnalyse :: "string option \<Rightarrow> (FalconErrorCode \<times> string option) option" where
  "FalconErrorMsgAnalyse m = (case m of
      None \<Rightarrow> Some (PROGRAM_ERROR, None)
    | Some s \<Rightarrow>
       (if length s < 8 then None
        else let c = (if length s = 8 then 0 else of_char (s ! 8) :: nat) in
          if c > 64 \<and> c < 64 + code_value LAST_FALCON_ERROR_CODE
          then Some (FALCON_ERROR_CODE_LIST ! (c - 64), Some (drop 9 s))
          else Some (UNKNOWN, Some s)))"

lemma code_value_simps [simp]:
  "code_value SUCCESS = 0" "code_value LAST_FALCON_ERROR_CODE = 35"
  by (simp_all add: code_value_def FALCON_ERROR_CODE_LIST_def)

lemma code_value_less: "c \<noteq> LAST_FALCON_ERROR_CODE \<Longrightarrow> code_value c < 35"
  by (cases c) (simp_all add: code_value_def FALCON_ERROR_CODE_LIST_def)

lemma code_value_pos: "c \<noteq> SUCCESS \<Longrightarrow> 0 < code_value c"
  by (cases c) (simp_all add: code_value_def FALCON_ERROR_CODE_LIST_def)

lemma nth_code_value: "FALCON_ERROR_CODE_LIST ! code_value c = c"
  by (cases c) (simp_all add: code_value_def FALCON_ERROR_CODE_LIST_def)

text \<open>
  C40. A code raised with \<open>FALCON_ELOG_ERROR\<close> on one node is the code the other node reads from
  the error text, with the message after it unchanged; the exception is \<open>SUCCESS\<close>, whose
  character is \<open>@\<close> and which is reported as \<open>UNKNOWN\<close>.
\<close>

theorem elog_analyse_roundtrip:
  assumes "c \<noteq> LAST_FALCON_ERROR_CODE"
  shows "FalconErrorMsgAnalyse (Some (FALCON_ELOG_ERROR c msg)) =
    (if c = SUCCESS then Some (UNKNOWN, Some (FALCON_ELOG_ERROR c msg))
     else Some (c, Some ('' '' @ msg)))"
proof (cases "c = SUCCESS")
  case True
  then show ?thesis
    by (simp add: FalconErrorMsgAnalyse_def FALCON_ELOG_ERROR_def)
next
  case False
  have v: "0 < code_value c" "code_value c < 35"
    using assms False code_value_less code_value_pos by auto
  then have "of_char (char_of (code_value c + 64) :: char) = code_value c + 64"
    by simp
  with v False show ?thesis
    by (simp add: FalconErrorMsgAnalyse_def FALCON_ELOG_ERROR_def nth_code_value)
qed

theorem elog_analyse_roundtrip_witness:
  "FalconErrorMsgAnalyse (Some (FALCON_ELOG_ERROR WRONG_WORKER ''wrong worker.'')) =
    Some (WRONG_WORKER, Some '' wrong worker.'')"
  using elog_analyse_roundtrip [of WRONG_WORKER "''wrong worker.''"] by simp

end
