(* ===== verification/RWLock.thy ===== *)
theory RWLock
  imports Error_Code
begin

text \<open>
  The shared-memory reader/writer lock of \<open>falcon/utils/rwlock.c\<close>.

  The lock is one 64-bit word: 24 bits of shared holders, one exclusive bit, a reference count
  from bit 25 on and the exclusive-waiter flag in bit 62.  A backend keeps the handles it holds
  in the array \<open>held_rwlocks\<close>.  The sequential operations are functions on \<open>rw_state\<close> (the
  words, the array, the interrupt holdoff count); a spin that never gets the lock is \<open>None\<close>.
  The concurrent behaviour is the step relation \<open>rw_step\<close>: one rule per atomic access of the
  shared word, with the compare-and-swap loop of \<open>RWLockAttemptLock\<close> broken into its read and
  its exchange, and the release broken into its two subtractions.
\<close>

subsection \<open>Constants and data\<close>

definition RW_FLAG_HAS_EXCLUSIVE_WAITER :: u64 where
  "RW_FLAG_HAS_EXCLUSIVE_WAITER = 2 ^ 62"

definition RW_VAL_EXCLUSIVE :: u64 where
  "RW_VAL_EXCLUSIVE = 2 ^ 24"

definition RW_VAL_SHARED :: u64 where
  "RW_VAL_SHARED = 1"

definition RW_VAL_REF_COUNT :: u64 where
  "RW_VAL_REF_COUNT = 2 ^ 25"

definition RW_LOCK_MASK :: u64 where
  "RW_LOCK_MASK = mask 25"

definition RW_REF_COUNT_MASK :: u64 where
  "RW_REF_COUNT_MASK = mask 50 AND NOT RW_LOCK_MASK"

definition MAX_SIMUL_RWLOCKS :: nat where
  "MAX_SIMUL_RWLOCKS = 8196"

datatype RWLockMode = RW_EXCLUSIVE | RW_SHARED | RW_DECLARE

text \<open>A lock is named by its address, of the type \<open>'l\<close>; a handle is the pair of the lock and the mode.\<close>

type_synonym 'l RWLockHandle = "'l \<times> RWLockMode"

record 'l rw_state =
  lock_mem :: "'l \<Rightarrow> u64"
  held_rwlocks :: "'l RWLockHandle list"
  InterruptHoldoffCount :: int

subsection \<open>Sequential operations\<close>

definition RWLockInitialize :: "'l \<Rightarrow> 'l rw_state \<Rightarrow> 'l rw_state" where
  "RWLockInitialize l s = s\<lparr>lock_mem := (lock_mem s)(l := 0)\<rparr>"

text \<open>The body of the compare-and-swap loop: the word to install and whether it takes the lock.\<close>

definition RWLockAttemptLock_desired :: "u64 \<Rightarrow> RWLockMode \<Rightarrow> u64 \<times> bool" where
  "RWLockAttemptLock_desired old_state mode =
    (if mode = RW_EXCLUSIVE then
       (let lock_free = (old_state AND RW_LOCK_MASK = 0) in
        (if lock_free
         then (old_state OR RW_VAL_EXCLUSIVE) AND NOT RW_FLAG_HAS_EXCLUSIVE_WAITER
         else old_state OR RW_FLAG_HAS_EXCLUSIVE_WAITER, lock_free))
     else
       (let lock_free = (old_state AND (RW_VAL_EXCLUSIVE OR RW_FLAG_HAS_EXCLUSIVE_WAITER) = 0) in
        (if lock_free then old_state + RW_VAL_SHARED else old_state, lock_free)))"

text \<open>The search \<open>for (i = num_held_rwlocks; --i >= 0;)\<close> runs from the newest handle down.\<close>

fun find_from :: "('a \<Rightarrow> bool) \<Rightarrow> 'a list \<Rightarrow> nat \<Rightarrow> nat option" where
  "find_from P xs 0 = None"
| "find_from P xs (Suc i) = (if P (xs ! i) then Some i else find_from P xs i)"

definition find_last :: "('a \<Rightarrow> bool) \<Rightarrow> 'a list \<Rightarrow> nat option" where
  "find_last P xs = find_from P xs (length xs)"

text \<open>Removing entry \<open>i\<close> moves the later ones down by one place.\<close>

definition remove_at :: "nat \<Rightarrow> 'a list \<Rightarrow> 'a list" where
  "remove_at i xs = take i xs @ drop (Suc i) xs"

definition RWLockDeclare :: "'l \<Rightarrow> 'l rw_state \<Rightarrow> 'l rw_state falcon" where
  "RWLockDeclare l s =
    (if length (held_rwlocks s) \<ge> MAX_SIMUL_RWLOCKS then Inl PROGRAM_ERROR
     else Inr (s\<lparr>InterruptHoldoffCount := InterruptHoldoffCount s + 1,
                 lock_mem := (lock_mem s)(l := lock_mem s l + RW_VAL_REF_COUNT),
                 held_rwlocks := held_rwlocks s @ [(l, RW_DECLARE)]\<rparr>))"

definition RWLockUndeclare :: "'l \<Rightarrow> 'l rw_state \<Rightarrow> 'l rw_state falcon" where
  "RWLockUndeclare l s =
    (case find_last (\<lambda>h. h = (l, RW_DECLARE)) (held_rwlocks s) of
       None \<Rightarrow> Inl PROGRAM_ERROR
     | Some i \<Rightarrow> Inr (s\<lparr>held_rwlocks := remove_at i (held_rwlocks s),
                        lock_mem := (lock_mem s)(l := lock_mem s l - RW_VAL_REF_COUNT),
                        InterruptHoldoffCount := InterruptHoldoffCount s - 1\<rparr>))"

definition RWLockCheckDestroyable :: "u64 \<Rightarrow> bool" where
  "RWLockCheckDestroyable state \<longleftrightarrow> state AND RW_REF_COUNT_MASK = 0"

text \<open>
  The spin of \<open>RWLockAcquire\<close> with no other backend running: every failed attempt installs its
  word and tries again.  \<open>None\<close> is a spin that never ends.
\<close>

partial_function (option) RWLockSpin :: "u64 \<Rightarrow> RWLockMode \<Rightarrow> u64 option" where
  "RWLockSpin w mode =
    (if snd (RWLockAttemptLock_desired w mode) then Some (fst (RWLockAttemptLock_desired w mode))
     else RWLockSpin (fst (RWLockAttemptLock_desired w mode)) mode)"

definition RWLockAcquire :: "'l \<Rightarrow> RWLockMode \<Rightarrow> 'l rw_state \<Rightarrow> 'l rw_state falcon option" where
  "RWLockAcquire l mode s =
    (if mode = RW_DECLARE then Some (Inl PROGRAM_ERROR)
     else if length (held_rwlocks s) \<ge> MAX_SIMUL_RWLOCKS then Some (Inl PROGRAM_ERROR)
     else (case RWLockSpin (lock_mem s l + RW_VAL_REF_COUNT) mode of
             None \<Rightarrow> None
           | Some w \<Rightarrow> Some (Inr (s\<lparr>InterruptHoldoffCount := InterruptHoldoffCount s + 1,
                                    lock_mem := (lock_mem s)(l := w),
                                    held_rwlocks := held_rwlocks s @ [(l, mode)]\<rparr>))))"

definition release_unit :: "RWLockMode \<Rightarrow> u64" where
  "release_unit mode = (if mode = RW_EXCLUSIVE then RW_VAL_EXCLUSIVE else RW_VAL_SHARED)"

definition RWLockRelease :: "'l \<Rightarrow> 'l rw_state \<Rightarrow> 'l rw_state falcon" where
  "RWLockRelease l s =
    (case find_last (\<lambda>h. fst h = l) (held_rwlocks s) of
       None \<Rightarrow> Inl PROGRAM_ERROR
     | Some i \<Rightarrow>
        (let mode = snd (held_rwlocks s ! i) in
         Inr (s\<lparr>held_rwlocks := remove_at i (held_rwlocks s),
                lock_mem := (lock_mem s)(l := lock_mem s l - release_unit mode - RW_VAL_REF_COUNT),
                InterruptHoldoffCount := InterruptHoldoffCount s - 1\<rparr>)))"

text \<open>
  One turn of the loop of \<open>RWLockReleaseAll\<close>, and the loop: it stops when the array is empty
  or when a call raises.
\<close>

definition RWLockReleaseLast :: "bool \<Rightarrow> 'l rw_state \<Rightarrow> 'l rw_state falcon" where
  "RWLockReleaseLast keep s =
    (let s1 = (if keep then s\<lparr>InterruptHoldoffCount := InterruptHoldoffCount s + 1\<rparr> else s);
         h = held_rwlocks s ! (length (held_rwlocks s) - 1) in
     if snd h = RW_DECLARE then RWLockUndeclare (fst h) s1 else RWLockRelease (fst h) s1)"

partial_function (option) RWLockReleaseAll :: "bool \<Rightarrow> 'l rw_state \<Rightarrow> 'l rw_state falcon option" where
  "RWLockReleaseAll keep s =
    (if held_rwlocks s = [] then Some (Inr s)
     else (case RWLockReleaseLast keep s of
             Inl e \<Rightarrow> Some (Inl e)
           | Inr s' \<Rightarrow> RWLockReleaseAll keep s'))"

subsection \<open>Concurrent steps\<close>

text \<open>
  Where a backend is inside a lock operation: outside any (\<open>Idle\<close>), about to read the word in
  \<open>RWLockAttemptLock\<close>, about to exchange it against the value it read, or between the removal of
  the handle and one of the two subtractions of \<open>RWLockRelease\<close>.
\<close>

datatype 'l rw_pc =
    Idle
  | AttemptRead 'l RWLockMode
  | AttemptCas 'l RWLockMode u64
  | ReleaseLockVal 'l RWLockMode
  | ReleaseRefCount 'l

record 'l rw_sys =
  sys_mem :: "'l \<Rightarrow> u64"
  sys_held :: "nat \<Rightarrow> 'l RWLockHandle list"
  sys_pc :: "nat \<Rightarrow> 'l rw_pc"

definition rw_init :: "'l rw_sys" where
  "rw_init = \<lparr>sys_mem = (\<lambda>_. 0), sys_held = (\<lambda>_. []), sys_pc = (\<lambda>_. Idle)\<rparr>"

text \<open>
  The guard \<open>m \<noteq> RW_DECLARE\<close> of \<open>release\<close> is the discipline of the callers
  (\<open>falcon/dir_path_shmem/dir_path_hash.c\<close>): a backend that calls \<open>RWLockRelease\<close> has
  undeclared the lock before.
\<close>

inductive rw_step :: "nat \<Rightarrow> 'l rw_sys \<Rightarrow> 'l rw_sys \<Rightarrow> bool" for n :: nat where
  declare_ref: "p < n \<Longrightarrow> sys_pc s p = Idle \<Longrightarrow> length (sys_held s p) < MAX_SIMUL_RWLOCKS \<Longrightarrow>
    rw_step n s (s\<lparr>sys_mem := (sys_mem s)(l := sys_mem s l + RW_VAL_REF_COUNT),
                   sys_held := (sys_held s)(p := sys_held s p @ [(l, RW_DECLARE)])\<rparr>)"
| undeclare_ref: "p < n \<Longrightarrow> sys_pc s p = Idle \<Longrightarrow>
    find_last (\<lambda>h. h = (l, RW_DECLARE)) (sys_held s p) = Some i \<Longrightarrow>
    rw_step n s (s\<lparr>sys_mem := (sys_mem s)(l := sys_mem s l - RW_VAL_REF_COUNT),
                   sys_held := (sys_held s)(p := remove_at i (sys_held s p))\<rparr>)"
| acquire: "p < n \<Longrightarrow> sys_pc s p = Idle \<Longrightarrow> m \<noteq> RW_DECLARE \<Longrightarrow>
    length (sys_held s p) < MAX_SIMUL_RWLOCKS \<Longrightarrow>
    rw_step n s (s\<lparr>sys_mem := (sys_mem s)(l := sys_mem s l + RW_VAL_REF_COUNT),
                   sys_pc := (sys_pc s)(p := AttemptRead l m)\<rparr>)"
| attempt_read: "p < n \<Longrightarrow> sys_pc s p = AttemptRead l m \<Longrightarrow>
    rw_step n s (s\<lparr>sys_pc := (sys_pc s)(p := AttemptCas l m (sys_mem s l))\<rparr>)"
| cas_fail: "p < n \<Longrightarrow> sys_pc s p = AttemptCas l m w \<Longrightarrow> sys_mem s l \<noteq> w \<Longrightarrow>
    rw_step n s (s\<lparr>sys_pc := (sys_pc s)(p := AttemptCas l m (sys_mem s l))\<rparr>)"
| cas_busy: "p < n \<Longrightarrow> sys_pc s p = AttemptCas l m w \<Longrightarrow> sys_mem s l = w \<Longrightarrow>
    RWLockAttemptLock_desired w m = (d, False) \<Longrightarrow>
    rw_step n s (s\<lparr>sys_mem := (sys_mem s)(l := d),
                   sys_pc := (sys_pc s)(p := AttemptRead l m)\<rparr>)"
| cas_taken: "p < n \<Longrightarrow> sys_pc s p = AttemptCas l m w \<Longrightarrow> sys_mem s l = w \<Longrightarrow>
    RWLockAttemptLock_desired w m = (d, True) \<Longrightarrow>
    rw_step n s (s\<lparr>sys_mem := (sys_mem s)(l := d),
                   sys_held := (sys_held s)(p := sys_held s p @ [(l, m)]),
                   sys_pc := (sys_pc s)(p := Idle)\<rparr>)"
| release: "p < n \<Longrightarrow> sys_pc s p = Idle \<Longrightarrow>
    find_last (\<lambda>h. fst h = l) (sys_held s p) = Some i \<Longrightarrow>
    snd (sys_held s p ! i) = m \<Longrightarrow> m \<noteq> RW_DECLARE \<Longrightarrow>
    rw_step n s (s\<lparr>sys_held := (sys_held s)(p := remove_at i (sys_held s p)),
                   sys_pc := (sys_pc s)(p := ReleaseLockVal l m)\<rparr>)"
| release_val: "p < n \<Longrightarrow> sys_pc s p = ReleaseLockVal l m \<Longrightarrow>
    rw_step n s (s\<lparr>sys_mem := (sys_mem s)(l := sys_mem s l - release_unit m),
                   sys_pc := (sys_pc s)(p := ReleaseRefCount l)\<rparr>)"
| release_ref: "p < n \<Longrightarrow> sys_pc s p = ReleaseRefCount l \<Longrightarrow>
    rw_step n s (s\<lparr>sys_mem := (sys_mem s)(l := sys_mem s l - RW_VAL_REF_COUNT),
                   sys_pc := (sys_pc s)(p := Idle)\<rparr>)"

inductive rw_reachable :: "nat \<Rightarrow> 'l rw_sys \<Rightarrow> bool" for n :: nat where
  start: "rw_reachable n rw_init"
| step: "rw_reachable n s \<Longrightarrow> rw_step n s t \<Longrightarrow> rw_reachable n t"

subsection \<open>The lock word as counters\<close>

text \<open>
  \<open>lock_word w S E R\<close>: the word \<open>w\<close> holds \<open>S\<close> shared units, \<open>E\<close> exclusive units and \<open>R\<close>
  references; the waiter flag is free.
\<close>

definition lock_word :: "u64 \<Rightarrow> nat \<Rightarrow> nat \<Rightarrow> nat \<Rightarrow> bool" where
  "lock_word w S E R \<longleftrightarrow>
    S < 2 ^ 24 \<and> E \<le> 1 \<and> (E = 1 \<longrightarrow> S = 0) \<and> R < 2 ^ 25 \<and>
    (\<exists>W \<le> 1. unat w = S + 2 ^ 24 * E + 2 ^ 25 * R + 2 ^ 62 * W)"

lemmas rw_consts = RW_FLAG_HAS_EXCLUSIVE_WAITER_def RW_VAL_EXCLUSIVE_def RW_VAL_SHARED_def
  RW_VAL_REF_COUNT_def RW_LOCK_MASK_def RW_REF_COUNT_MASK_def

lemma unat_rw_vals:
  "unat RW_VAL_EXCLUSIVE = 16777216" "unat RW_VAL_SHARED = 1" "unat RW_VAL_REF_COUNT = 33554432"
  by (simp_all add: rw_consts)

lemma lock_word_0: "lock_word 0 0 0 0"
  by (simp add: lock_word_def)

lemma lock_word_bound: "lock_word w S E R \<Longrightarrow> unat w + 33554432 < 2 ^ 64"
  by (auto simp: lock_word_def)

lemma lock_word_add_ref:
  assumes "lock_word w S E R" and "R + 1 < 2 ^ 25"
  shows "lock_word (w + RW_VAL_REF_COUNT) S E (R + 1)"
proof -
  have "unat (w + RW_VAL_REF_COUNT) = unat w + 33554432"
    using lock_word_bound [OF assms(1)] by (subst unat_add_no_overflow) (simp_all add: unat_rw_vals)
  with assms show ?thesis by (auto simp: lock_word_def)
qed

lemma lock_word_sub_ref:
  assumes "lock_word w S E (R + 1)"
  shows "lock_word (w - RW_VAL_REF_COUNT) S E R"
proof -
  have "33554432 \<le> unat w" using assms by (auto simp: lock_word_def)
  then have "unat (w - RW_VAL_REF_COUNT) = unat w - 33554432"
    by (subst unat_sub_no_borrow) (simp_all add: unat_rw_vals)
  with assms show ?thesis by (auto simp: lock_word_def)
qed

lemma lock_word_sub_shared:
  assumes "lock_word w (S + 1) E R"
  shows "lock_word (w - RW_VAL_SHARED) S E R"
proof -
  have "1 \<le> unat w" using assms by (auto simp: lock_word_def)
  then have "unat (w - RW_VAL_SHARED) = unat w - 1"
    by (subst unat_sub_no_borrow) (simp_all add: unat_rw_vals)
  with assms show ?thesis by (auto simp: lock_word_def)
qed

lemma lock_word_sub_exclusive:
  assumes "lock_word w S (E + 1) R"
  shows "lock_word (w - RW_VAL_EXCLUSIVE) S E R"
proof -
  have "16777216 \<le> unat w" using assms by (auto simp: lock_word_def)
  then have "unat (w - RW_VAL_EXCLUSIVE) = unat w - 16777216"
    by (subst unat_sub_no_borrow) (simp_all add: unat_rw_vals)
  with assms show ?thesis by (auto simp: lock_word_def)
qed

lemma lock_word_free_iff:
  assumes "lock_word w S E R"
  shows "w AND RW_LOCK_MASK = 0 \<longleftrightarrow> S = 0 \<and> E = 0"
proof -
  have "w AND RW_LOCK_MASK = 0 \<longleftrightarrow> unat (w AND mask 25) = 0"
    by (simp add: RW_LOCK_MASK_def unsigned_eq_0_iff)
  also have "\<dots> \<longleftrightarrow> unat w mod 2 ^ 25 = 0" by (simp only: unat_and_mask)
  also have "unat w mod 2 ^ 25 = S + 2 ^ 24 * E"
  proof -
    from assms obtain W where "unat w = (S + 2 ^ 24 * E) + 2 ^ 25 * (R + 2 ^ 37 * W)"
      and b: "S + 2 ^ 24 * E < 2 ^ 25" by (auto simp: lock_word_def)
    then have "unat w mod 2 ^ 25 = (S + 2 ^ 24 * E) mod 2 ^ 25" by (simp only: mod_mult_self2)
    with b show ?thesis by simp
  qed
  finally show ?thesis by simp
qed

lemma lock_word_bits:
  assumes "lock_word w S E R"
  shows "bit w 24 \<longleftrightarrow> E = 1" and "bit w 62 \<longleftrightarrow> 2 ^ 62 \<le> unat w"
proof -
  from assms obtain W where W: "W \<le> 1" "unat w = S + 2 ^ 24 * E + 2 ^ 25 * R + 2 ^ 62 * W"
    and b: "S < 2 ^ 24" "E \<le> 1" "R < 2 ^ 25" by (auto simp: lock_word_def)
  have "unat w div 2 ^ 24 = E + 2 * (R + 2 ^ 37 * W)" using W b by simp
  then have "bit w 24 \<longleftrightarrow> odd E" by (simp add: bit_word_iff_unat)
  with b show "bit w 24 \<longleftrightarrow> E = 1" by (cases "E = 0") auto
  have "unat w div 2 ^ 62 = W" using W b by simp
  then have "bit w 62 \<longleftrightarrow> odd W" by (simp add: bit_word_iff_unat)
  with W b show "bit w 62 \<longleftrightarrow> 2 ^ 62 \<le> unat w" by (cases "W = 0") auto
qed

lemma lock_word_set_waiter:
  assumes "lock_word w S E R"
  shows "lock_word (w OR RW_FLAG_HAS_EXCLUSIVE_WAITER) S E R"
proof (cases "bit w 62")
  case True
  then have "w OR 2 ^ 62 = w" by (rule or_two_power_idem)
  with assms show ?thesis by (simp add: rw_consts)
next
  case False
  then have eq: "unat (w OR 2 ^ 62) = unat w + 2 ^ 62"
    by (intro unat_or_two_power) simp_all
  from assms obtain W where W: "W \<le> 1" "unat w = S + 2 ^ 24 * E + 2 ^ 25 * R + 2 ^ 62 * W"
    by (auto simp: lock_word_def)
  with False lock_word_bits(2) [OF assms] have "W = 0" by simp
  with W eq assms show ?thesis by (auto simp: lock_word_def rw_consts intro: exI [of _ 1])
qed

lemma lock_word_clear_waiter:
  assumes "lock_word w S E R"
  shows "lock_word (w AND NOT RW_FLAG_HAS_EXCLUSIVE_WAITER) S E R"
proof -
  have eq: "unat (w AND NOT (2 ^ 62)) = (if bit w 62 then unat w - 2 ^ 62 else unat w)"
    by (rule unat_and_not_two_power) simp
  from assms obtain W where W: "W \<le> 1" "unat w = S + 2 ^ 24 * E + 2 ^ 25 * R + 2 ^ 62 * W"
    and b: "S < 2 ^ 24" "E \<le> 1" "R < 2 ^ 25" by (auto simp: lock_word_def)
  have "unat (w AND NOT (2 ^ 62)) = S + 2 ^ 24 * E + 2 ^ 25 * R"
    using eq lock_word_bits(2) [OF assms] W b by (cases "W = 0") auto
  with assms show ?thesis by (auto simp: lock_word_def rw_consts)
qed

text \<open>The two tries of the loop body, on a word that counts correctly.\<close>

lemma attempt_exclusive_taken:
  assumes "lock_word w S E R" and "RWLockAttemptLock_desired w RW_EXCLUSIVE = (d, True)"
  shows "S = 0 \<and> E = 0 \<and> lock_word d 0 1 R"
proof -
  from assms(2) have free: "w AND RW_LOCK_MASK = 0"
    and d: "d = (w OR RW_VAL_EXCLUSIVE) AND NOT RW_FLAG_HAS_EXCLUSIVE_WAITER"
    by (auto simp: RWLockAttemptLock_desired_def Let_def split: if_splits)
  from free lock_word_free_iff [OF assms(1)] have z: "S = 0" "E = 0" by auto
  have "unat (w OR 2 ^ 24) = unat w + 2 ^ 24"
    using lock_word_bits(1) [OF assms(1)] z by (intro unat_or_two_power) simp_all
  with assms(1) z have "lock_word (w OR RW_VAL_EXCLUSIVE) 0 1 R"
    by (auto simp: lock_word_def rw_consts)
  with z d show ?thesis by (simp add: lock_word_clear_waiter)
qed

lemma attempt_exclusive_busy:
  assumes "lock_word w S E R" and "RWLockAttemptLock_desired w RW_EXCLUSIVE = (d, False)"
  shows "(0 < S \<or> E = 1) \<and> lock_word d S E R"
proof -
  from assms(2) have "w AND RW_LOCK_MASK \<noteq> 0" and "d = w OR RW_FLAG_HAS_EXCLUSIVE_WAITER"
    by (auto simp: RWLockAttemptLock_desired_def Let_def split: if_splits)
  moreover have "E \<le> 1" using assms(1) by (simp add: lock_word_def)
  ultimately show ?thesis
    using lock_word_free_iff [OF assms(1)] lock_word_set_waiter [OF assms(1)] by auto
qed

lemma shared_free_iff:
  "w AND (RW_VAL_EXCLUSIVE OR RW_FLAG_HAS_EXCLUSIVE_WAITER) = 0 \<longleftrightarrow> \<not> bit w 24 \<and> \<not> bit w 62"
  unfolding rw_consts by (rule and_or_two_powers_eq_0_iff) simp_all

lemma attempt_shared_taken:
  assumes "lock_word w S E R" and "RWLockAttemptLock_desired w RW_SHARED = (d, True)"
    and "S + 1 < 2 ^ 24"
  shows "E = 0 \<and> lock_word d (S + 1) 0 R"
proof -
  from assms(2) have free: "\<not> bit w 24" and d: "d = w + RW_VAL_SHARED"
    by (auto simp: RWLockAttemptLock_desired_def Let_def shared_free_iff split: if_splits)
  have E: "E = 0" using free lock_word_bits(1) [OF assms(1)] assms(1) by (auto simp: lock_word_def)
  have "unat d = unat w + 1"
    using lock_word_bound [OF assms(1)] d
    by (simp add: unat_add_no_overflow unat_rw_vals)
  with E assms(1,3) show ?thesis by (auto simp: lock_word_def)
qed

lemma attempt_shared_busy:
  "RWLockAttemptLock_desired w RW_SHARED = (d, False) \<Longrightarrow> d = w"
  by (auto simp: RWLockAttemptLock_desired_def Let_def split: if_splits)

subsection \<open>Searching and removing handles\<close>

lemma find_from_SomeD: "find_from P xs n = Some i \<Longrightarrow> i < n \<and> P (xs ! i)"
  by (induction n) (auto split: if_splits simp: less_Suc_eq)

lemma find_from_NoneD: "find_from P xs n = None \<Longrightarrow> i < n \<Longrightarrow> \<not> P (xs ! i)"
  by (induction n) (auto split: if_splits simp: less_Suc_eq)

lemma find_last_SomeD: "find_last P xs = Some i \<Longrightarrow> i < length xs \<and> P (xs ! i)"
  unfolding find_last_def by (rule find_from_SomeD)

lemma find_last_None_iff: "find_last P xs = None \<longleftrightarrow> (\<forall>x \<in> set xs. \<not> P x)"
proof
  assume "find_last P xs = None"
  then show "\<forall>x \<in> set xs. \<not> P x"
    unfolding find_last_def by (auto simp: in_set_conv_nth dest: find_from_NoneD)
next
  assume "\<forall>x \<in> set xs. \<not> P x"
  then show "find_last P xs = None"
    by (cases "find_last P xs") (auto dest!: find_last_SomeD)
qed

lemma find_last_snoc: "P x \<Longrightarrow> find_last P (xs @ [x]) = Some (length xs)"
  by (simp add: find_last_def)

lemma remove_at_last: "remove_at (length xs) (xs @ [x]) = xs"
  by (simp add: remove_at_def)

lemma length_remove_at: "i < length xs \<Longrightarrow> length (remove_at i xs) = length xs - 1"
  by (simp add: remove_at_def)

lemma count_list_remove_at:
  assumes "i < length xs"
  shows "count_list xs y = count_list (remove_at i xs) y + (if xs ! i = y then 1 else 0)"
proof -
  have "xs = take i xs @ xs ! i # drop (Suc i) xs" using assms by (rule id_take_nth_drop)
  then have "count_list xs y = count_list (take i xs @ xs ! i # drop (Suc i) xs) y" by simp
  then show ?thesis by (simp add: remove_at_def)
qed

lemma filter_remove_at:
  assumes "i < length xs"
  shows "length (filter P xs) = length (filter P (remove_at i xs)) + (if P (xs ! i) then 1 else 0)"
proof -
  have "xs = take i xs @ xs ! i # drop (Suc i) xs" using assms by (rule id_take_nth_drop)
  then have "length (filter P xs) = length (filter P (take i xs @ xs ! i # drop (Suc i) xs))"
    by simp
  then show ?thesis by (simp add: remove_at_def)
qed

subsection \<open>What each backend contributes to a lock word\<close>

fun pc_lock :: "'l rw_pc \<Rightarrow> 'l option" where
  "pc_lock Idle = None"
| "pc_lock (AttemptRead l m) = Some l"
| "pc_lock (AttemptCas l m w) = Some l"
| "pc_lock (ReleaseLockVal l m) = Some l"
| "pc_lock (ReleaseRefCount l) = Some l"

fun pc_unit :: "'l rw_pc \<Rightarrow> 'l RWLockHandle option" where
  "pc_unit (ReleaseLockVal l m) = Some (l, m)"
| "pc_unit c = None"

fun pc_mode_ok :: "'l rw_pc \<Rightarrow> bool" where
  "pc_mode_ok (AttemptRead l m) = (m \<noteq> RW_DECLARE)"
| "pc_mode_ok (AttemptCas l m w) = (m \<noteq> RW_DECLARE)"
| "pc_mode_ok (ReleaseLockVal l m) = (m \<noteq> RW_DECLARE)"
| "pc_mode_ok c = True"

text \<open>Units of a mode that backend \<open>p\<close> has in lock \<open>l\<close>, and its references.\<close>

definition units :: "'l rw_sys \<Rightarrow> RWLockMode \<Rightarrow> 'l \<Rightarrow> nat \<Rightarrow> nat" where
  "units s m l p = count_list (sys_held s p) (l, m) +
     (if pc_unit (sys_pc s p) = Some (l, m) then 1 else 0)"

definition refs :: "'l rw_sys \<Rightarrow> 'l \<Rightarrow> nat \<Rightarrow> nat" where
  "refs s l p = length (filter (\<lambda>h. fst h = l) (sys_held s p)) +
     (if pc_lock (sys_pc s p) = Some l then 1 else 0)"

definition total_units :: "nat \<Rightarrow> 'l rw_sys \<Rightarrow> RWLockMode \<Rightarrow> 'l \<Rightarrow> nat" where
  "total_units n s m l = (\<Sum>p<n. units s m l p)"

definition total_refs :: "nat \<Rightarrow> 'l rw_sys \<Rightarrow> 'l \<Rightarrow> nat" where
  "total_refs n s l = (\<Sum>p<n. refs s l p)"

text \<open>
  The invariant: no backend holds more handles than its array has room for, and every word
  counts what the backends hold.
\<close>

definition rw_local_inv :: "nat \<Rightarrow> 'l rw_sys \<Rightarrow> bool" where
  "rw_local_inv n s \<longleftrightarrow> (\<forall>p < n. pc_mode_ok (sys_pc s p) \<and>
     length (sys_held s p) + (if sys_pc s p = Idle then 0 else 1) \<le> MAX_SIMUL_RWLOCKS)"

definition rw_inv :: "nat \<Rightarrow> 'l rw_sys \<Rightarrow> bool" where
  "rw_inv n s \<longleftrightarrow> rw_local_inv n s \<and>
     (\<forall>l. lock_word (sys_mem s l) (total_units n s RW_SHARED l)
            (total_units n s RW_EXCLUSIVE l) (total_refs n s l))"

lemma units_le_refs:
  fixes s :: "'l rw_sys"
  shows "units s m l p \<le> refs s l p"
proof -
  have "count_list xs (l, m) \<le> length (filter (\<lambda>h. fst h = l) xs)" for xs :: "'l RWLockHandle list"
    by (induction xs) auto
  moreover have "pc_unit c = Some (l, m) \<Longrightarrow> pc_lock c = Some l" for c
    by (cases c) auto
  ultimately show ?thesis by (auto simp: units_def refs_def le_SucI)
qed

lemma total_units_le_total_refs: "total_units n s m l \<le> total_refs n s l"
  unfolding total_units_def total_refs_def by (rule sum_mono) (rule units_le_refs)

lemma total_refs_le:
  assumes "rw_local_inv n s"
  shows "total_refs n s l \<le> n * MAX_SIMUL_RWLOCKS"
  unfolding total_refs_def
proof (rule sum_le_mult_less)
  fix p assume "p < n"
  define k where "k = length (filter (\<lambda>h. fst h = l) (sys_held s p))"
  have "k \<le> length (sys_held s p)" by (simp add: k_def)
  moreover have "pc_lock (sys_pc s p) = Some l \<Longrightarrow> sys_pc s p \<noteq> Idle" by auto
  moreover have "length (sys_held s p) + (if sys_pc s p = Idle then 0 else 1) \<le> MAX_SIMUL_RWLOCKS"
    using assms \<open>p < n\<close> by (simp add: rw_local_inv_def)
  ultimately show "refs s l p \<le> MAX_SIMUL_RWLOCKS"
    unfolding refs_def k_def [symmetric] by (auto split: if_splits)
qed

lemma rw_local_inv_init: "rw_local_inv n rw_init"
  by (simp add: rw_local_inv_def rw_init_def)

lemma rw_inv_init: "rw_inv n rw_init"
  unfolding rw_inv_def using rw_local_inv_init [of n]
  by (simp add: total_units_def total_refs_def units_def refs_def rw_init_def lock_word_0)

lemma rw_step_local_inv:
  "rw_step n s t \<Longrightarrow> rw_local_inv n s \<Longrightarrow> rw_local_inv n t"
  by (induction rule: rw_step.induct)
    (auto simp: rw_local_inv_def length_remove_at dest!: find_last_SomeD split: if_splits)

text \<open>A step changes the contribution of one backend to one lock, and that lock's word.\<close>

lemma total_units_step:
  assumes "p < n" and "\<And>q. q \<noteq> p \<Longrightarrow> sys_held t q = sys_held s q \<and> sys_pc t q = sys_pc s q"
  shows "total_units n t m l + units s m l p = total_units n s m l + units t m l p"
  unfolding total_units_def
  by (rule sum_fun_upd_less) (use assms in \<open>auto simp: units_def\<close>)

lemma total_refs_step:
  assumes "p < n" and "\<And>q. q \<noteq> p \<Longrightarrow> sys_held t q = sys_held s q \<and> sys_pc t q = sys_pc s q"
  shows "total_refs n t l + refs s l p = total_refs n s l + refs t l p"
  unfolding total_refs_def
  by (rule sum_fun_upd_less) (use assms in \<open>auto simp: refs_def\<close>)

lemma total_split:
  assumes "p < n"
  obtains S E R where "total_units n s RW_SHARED l = S + units s RW_SHARED l p"
    and "total_units n s RW_EXCLUSIVE l = E + units s RW_EXCLUSIVE l p"
    and "total_refs n s l = R + refs s l p"
proof -
  have le: "units s m l p \<le> total_units n s m l" "refs s l p \<le> total_refs n s l" for m
    unfolding total_units_def total_refs_def using assms by (auto intro: member_le_sum_less)
  show ?thesis
    by (rule that [of "total_units n s RW_SHARED l - units s RW_SHARED l p"
        "total_units n s RW_EXCLUSIVE l - units s RW_EXCLUSIVE l p"
        "total_refs n s l - refs s l p"]) (use le in simp_all)
qed

text \<open>
  A step keeps the invariant when it keeps the count of the one lock it works on, whatever
  \<open>S\<close>, \<open>E\<close> and \<open>R\<close> the other backends contribute to it.
\<close>

lemma rw_inv_stepI:
  assumes inv: "rw_inv n s" and loc: "rw_local_inv n t" and "p < n"
    and small: "n * MAX_SIMUL_RWLOCKS < 2 ^ 24"
    and frame: "\<And>q. q \<noteq> p \<Longrightarrow> sys_held t q = sys_held s q \<and> sys_pc t q = sys_pc s q"
    and other: "\<And>k m. k \<noteq> l \<Longrightarrow> sys_mem t k = sys_mem s k \<and>
      units t m k p = units s m k p \<and> refs t k p = refs s k p"
    and here: "\<And>S E R. lock_word (sys_mem s l) (S + units s RW_SHARED l p)
        (E + units s RW_EXCLUSIVE l p) (R + refs s l p) \<Longrightarrow>
      S + units t RW_SHARED l p < 2 ^ 24 \<Longrightarrow> R + refs t l p < 2 ^ 24 \<Longrightarrow>
      lock_word (sys_mem t l) (S + units t RW_SHARED l p)
        (E + units t RW_EXCLUSIVE l p) (R + refs t l p)"
  shows "rw_inv n t"
  unfolding rw_inv_def
proof (intro conjI allI loc)
  fix k
  have s: "lock_word (sys_mem s k) (total_units n s RW_SHARED k)
      (total_units n s RW_EXCLUSIVE k) (total_refs n s k)"
    using inv by (simp add: rw_inv_def)
  have tu: "total_units n t m k + units s m k p = total_units n s m k + units t m k p" for m k
    by (rule total_units_step [OF \<open>p < n\<close>]) (rule frame)
  have tr: "total_refs n t k + refs s k p = total_refs n s k + refs t k p" for k
    by (rule total_refs_step [OF \<open>p < n\<close>]) (rule frame)
  show "lock_word (sys_mem t k) (total_units n t RW_SHARED k)
      (total_units n t RW_EXCLUSIVE k) (total_refs n t k)"
  proof (cases "k = l")
    case True
    obtain S E R where t: "total_units n s RW_SHARED k = S + units s RW_SHARED k p"
        "total_units n s RW_EXCLUSIVE k = E + units s RW_EXCLUSIVE k p"
        "total_refs n s k = R + refs s k p"
      by (rule total_split [OF \<open>p < n\<close>, where s = s and l = k])
    then have u: "total_units n t RW_SHARED k = S + units t RW_SHARED k p"
        "total_units n t RW_EXCLUSIVE k = E + units t RW_EXCLUSIVE k p"
        "total_refs n t k = R + refs t k p"
      using tu [of RW_SHARED k] tu [of RW_EXCLUSIVE k] tr [of k] by simp_all
    have "total_refs n t k < 2 ^ 24"
      using total_refs_le [OF loc, of k] small by (rule le_less_trans)
    moreover from this total_units_le_total_refs have "total_units n t RW_SHARED k < 2 ^ 24"
      by (rule le_less_trans [rotated])
    ultimately show ?thesis using here [of S E R] s t u True by simp
  next
    case False
    have "total_units n t m k = total_units n s m k" for m
      using tu [of m k] other [OF False] by simp
    moreover have "total_refs n t k = total_refs n s k"
      using tr [of k] other [OF False] by simp
    ultimately show ?thesis using s other [OF False] by simp
  qed
qed

lemma find_last_removed:
  assumes "find_last P xs = Some i"
  shows "count_list xs y = count_list (remove_at i xs) y + (if xs ! i = y then 1 else 0)"
    and "length (filter Q xs) = length (filter Q (remove_at i xs)) + (if Q (xs ! i) then 1 else 0)"
    and "P (xs ! i)"
  using find_last_SomeD [OF assms] count_list_remove_at [of i xs y] filter_remove_at [of i xs Q]
  by blast+

lemma attempt_taken:
  assumes "lock_word w S E R" and "RWLockAttemptLock_desired w m = (d, True)"
    and "m \<noteq> RW_DECLARE" and "m = RW_SHARED \<Longrightarrow> S + 1 < 2 ^ 24"
  shows "lock_word d (S + (if m = RW_SHARED then 1 else 0)) (E + (if m = RW_EXCLUSIVE then 1 else 0)) R"
  using assms attempt_exclusive_taken [of w S E R d] attempt_shared_taken [of w S E R d]
  by (cases m) auto

lemma attempt_busy:
  assumes "lock_word w S E R" and "RWLockAttemptLock_desired w m = (d, False)" and "m \<noteq> RW_DECLARE"
  shows "lock_word d S E R"
  using assms attempt_exclusive_busy [of w S E R d] attempt_shared_busy [of w d]
  by (cases m) auto

lemma rw_inv_step:
  assumes "rw_step n s t" and inv: "rw_inv n s" and small: "n * MAX_SIMUL_RWLOCKS < 2 ^ 24"
  shows "rw_inv n t"
proof -
  have locs: "rw_local_inv n s" using inv by (simp add: rw_inv_def)
  with assms(1) have loc: "rw_local_inv n t" by (rule rw_step_local_inv)
  note I = rw_inv_stepI [OF inv loc _ small]
  from assms(1) show ?thesis
  proof cases
    case (declare_ref p l)
    show ?thesis
      by (rule I [where p = p and l = l])
        (use declare_ref lock_word_add_ref in \<open>auto simp: units_def refs_def\<close>)
  next
    case (undeclare_ref p l i)
    note rm = find_last_removed [OF undeclare_ref(4)]
    show ?thesis
      by (rule I [where p = p and l = l])
        (use undeclare_ref rm lock_word_sub_ref in \<open>auto simp: units_def refs_def\<close>)
  next
    case (acquire p m l)
    show ?thesis
      by (rule I [where p = p and l = l])
        (use acquire lock_word_add_ref in \<open>auto simp: units_def refs_def\<close>)
  next
    case (attempt_read p l m)
    show ?thesis
      by (rule I [where p = p and l = l]) (use attempt_read in \<open>auto simp: units_def refs_def\<close>)
  next
    case (cas_fail p l m w)
    show ?thesis
      by (rule I [where p = p and l = l]) (use cas_fail in \<open>auto simp: units_def refs_def\<close>)
  next
    case (cas_busy p l m w d)
    then have "m \<noteq> RW_DECLARE" using locs by (auto simp: rw_local_inv_def)
    with cas_busy show ?thesis
      by (intro I [where p = p and l = l]) (auto simp: units_def refs_def intro: attempt_busy)
  next
    case (cas_taken p l m w d)
    then have "m \<noteq> RW_DECLARE" using locs by (auto simp: rw_local_inv_def)
    with cas_taken show ?thesis
      by (intro I [where p = p and l = l]; cases m)
        (auto simp: units_def refs_def dest: attempt_taken)
  next
    case (release p l i m)
    note rm = find_last_removed [OF release(4)]
    have e: "sys_held s p ! i = (l, m)" using rm(3) release(5) by (simp add: prod_eq_iff)
    show ?thesis
      by (rule I [where p = p and l = l])
        (use release rm(1,2) e in \<open>cases m; auto simp: units_def refs_def\<close>)+
  next
    case (release_val p l m)
    then have "m \<noteq> RW_DECLARE" using locs by (auto simp: rw_local_inv_def)
    with release_val show ?thesis
      by (intro I [where p = p and l = l])
       (cases m; auto simp: units_def refs_def release_unit_def intro: lock_word_sub_shared lock_word_sub_exclusive)+
  next
    case (release_ref p l)
    show ?thesis
      by (rule I [where p = p and l = l])
        (use release_ref lock_word_sub_ref in \<open>auto simp: units_def refs_def\<close>)
  qed
qed

lemma rw_reachable_inv:
  assumes "rw_reachable n s" and "n * MAX_SIMUL_RWLOCKS < 2 ^ 24"
  shows "rw_inv n s"
  using assms(1)
  by induction (simp_all add: rw_inv_init rw_inv_step [OF _ _ assms(2)])

lemma rw_reachable_word:
  assumes "rw_reachable n s" and "n * MAX_SIMUL_RWLOCKS < 2 ^ 24"
  shows "lock_word (sys_mem s l) (total_units n s RW_SHARED l)
    (total_units n s RW_EXCLUSIVE l) (total_refs n s l)"
  using rw_reachable_inv [OF assms] by (simp add: rw_inv_def)

subsection \<open>Mutual exclusion\<close>

lemma held_units: "(l, m) \<in> set (sys_held s p) \<Longrightarrow> 1 \<le> units s m l p"
  using count_list_0_iff [of "sys_held s p" "(l, m)"] by (simp add: units_def Suc_le_eq)

text \<open>
  C1. In every reachable state of the lock protocol a backend that holds a lock exclusively
  excludes every other backend: a handle another backend has on that lock is at most a
  declaration, never a shared or an exclusive hold.
\<close>

theorem rw_mutual_exclusion:
  assumes "rw_reachable n s" and "n * MAX_SIMUL_RWLOCKS < 2 ^ 24"
    and "p < n" and "q < n" and "p \<noteq> q"
    and "(l, RW_EXCLUSIVE) \<in> set (sys_held s p)" and "(l, m) \<in> set (sys_held s q)"
  shows "m = RW_DECLARE"
proof (rule ccontr)
  assume "m \<noteq> RW_DECLARE"
  note w = rw_reachable_word [OF assms(1,2), of l]
  have E: "1 \<le> total_units n s RW_EXCLUSIVE l"
    using held_units [OF assms(6)] member_le_sum_less [OF assms(3)]
    unfolding total_units_def by (rule order_trans)
  with w have "total_units n s RW_EXCLUSIVE l = 1" "total_units n s RW_SHARED l = 0"
    by (auto simp: lock_word_def)
  moreover have "m = RW_EXCLUSIVE \<or> m = RW_SHARED" using \<open>m \<noteq> RW_DECLARE\<close> by (cases m) auto
  moreover have "units s m l q \<le> total_units n s m l"
    unfolding total_units_def by (rule member_le_sum_less [OF assms(4)])
  moreover have "units s RW_EXCLUSIVE l p + units s RW_EXCLUSIVE l q \<le> total_units n s RW_EXCLUSIVE l"
    unfolding total_units_def by (rule two_members_le_sum_less [OF assms(3-5)])
  ultimately show False
    using held_units [OF assms(6)] held_units [OF assms(7)] by auto
qed

text \<open>
  A concrete run of two backends: backend 1 declares lock 0, backend 0 acquires it exclusively.
\<close>

definition rw_sample :: "nat rw_sys" where
  "rw_sample = \<lparr>sys_mem = (\<lambda>_. 0)(0 := 83886080),
    sys_held = (\<lambda>_. [])(0 := [(0, RW_EXCLUSIVE)], 1 := [(0, RW_DECLARE)]), sys_pc = (\<lambda>_. Idle)\<rparr>"

lemma rw_sample_reachable: "rw_reachable 2 rw_sample"
proof -
  have desired: "RWLockAttemptLock_desired 67108864 RW_EXCLUSIVE = (83886080, True)"
    by code_simp
  let ?s1 = "\<lparr>sys_mem = (\<lambda>_. 0)(0 := 33554432), sys_held = (\<lambda>_. [])(1 := [(0 :: nat, RW_DECLARE)]),
    sys_pc = (\<lambda>_. Idle)\<rparr>"
  let ?s2 = "?s1\<lparr>sys_mem := (\<lambda>_. 0)(0 := 67108864), sys_pc := (\<lambda>_. Idle)(0 := AttemptRead 0 RW_EXCLUSIVE)\<rparr>"
  let ?s3 = "?s2\<lparr>sys_pc := (\<lambda>_. Idle)(0 := AttemptCas 0 RW_EXCLUSIVE 67108864)\<rparr>"
  have "rw_step 2 rw_init ?s1"
    using rw_step.declare_ref [of 1 2 rw_init 0]
    by (simp add: rw_init_def MAX_SIMUL_RWLOCKS_def rw_consts)
  moreover have "rw_step 2 ?s1 ?s2"
    using rw_step.acquire [of 0 2 ?s1 RW_EXCLUSIVE 0]
    by (simp add: MAX_SIMUL_RWLOCKS_def rw_consts)
  moreover have "rw_step 2 ?s2 ?s3"
    using rw_step.attempt_read [of 0 2 ?s2 0 RW_EXCLUSIVE] by simp
  moreover have "rw_step 2 ?s3 rw_sample"
    using rw_step.cas_taken [of 0 2 ?s3 0 RW_EXCLUSIVE 67108864 83886080]
    by (simp add: desired rw_sample_def fun_upd_twist fun_upd_idem)
  ultimately show ?thesis by (meson rw_reachable.intros)
qed

theorem rw_mutual_exclusion_witness:
  "rw_reachable 2 rw_sample \<and> (0, RW_EXCLUSIVE) \<in> set (sys_held rw_sample 0) \<and>
   snd (hd (sys_held rw_sample 1)) = RW_DECLARE"
  using rw_sample_reachable
    rw_mutual_exclusion [of 2 rw_sample 0 1 0 "snd (hd (sys_held rw_sample 1))"]
  by (simp add: rw_sample_def MAX_SIMUL_RWLOCKS_def)

subsection \<open>Destroyability\<close>

lemma lock_word_destroyable_iff:
  assumes "lock_word w S E R"
  shows "RWLockCheckDestroyable w \<longleftrightarrow> R = 0"
proof -
  from assms obtain W where W: "unat w = (S + 2 ^ 24 * E) + 2 ^ 25 * (R + 2 ^ 37 * W)"
    and b: "S + 2 ^ 24 * E < 2 ^ 25" "R < 2 ^ 25" by (auto simp: lock_word_def)
  have "unat (take_bit 25 (drop_bit 25 w)) = (R + 2 ^ 37 * W) mod 2 ^ 25"
    using W b(1) by (simp add: unat_take_bit_mod unat_drop_bit_div del: power_numeral)
  also have "\<dots> = R mod 2 ^ 25" by (simp add: mod_add_eq [symmetric])
  finally have "R = 0 \<longleftrightarrow> take_bit 25 (drop_bit 25 w) = 0"
    using b(2) unat_eq_zero [of "take_bit 25 (drop_bit 25 w)"] by auto
  also have "\<dots> \<longleftrightarrow> (\<forall>n<25. \<not> bit w (25 + n))"
    by (auto simp: bit_eq_iff bit_simps)
  also have "\<dots> \<longleftrightarrow> (\<forall>n. 25 \<le> n \<and> n < 50 \<longrightarrow> \<not> bit w n)"
  proof (intro iffI allI impI)
    fix n :: nat assume "\<forall>n<25. \<not> bit w (25 + n)" and "25 \<le> n \<and> n < 50"
    then show "\<not> bit w n" by (metis add.commute le_add_diff_inverse less_diff_conv2 numeral_Bit0)
  qed auto
  also have "\<dots> \<longleftrightarrow> RWLockCheckDestroyable w"
    unfolding RWLockCheckDestroyable_def RW_REF_COUNT_MASK_def RW_LOCK_MASK_def bit_eq_iff
    by (auto simp: bit_simps simp flip: not_less intro: le_less_trans)
  finally show ?thesis by simp
qed

text \<open>
  C21. In every reachable state \<open>RWLockCheckDestroyable\<close> answers yes for a lock exactly when no
  backend has a handle on it and none is inside an operation on it: memory that holds the lock
  is reused only when nobody can reach the lock any more.
\<close>

theorem rw_destroyable_iff_unreferenced:
  assumes "rw_reachable n s" and "n * MAX_SIMUL_RWLOCKS < 2 ^ 24"
  shows "RWLockCheckDestroyable (sys_mem s l) \<longleftrightarrow>
    (\<forall>p < n. l \<notin> fst ` set (sys_held s p) \<and> pc_lock (sys_pc s p) \<noteq> Some l)"
proof -
  have "RWLockCheckDestroyable (sys_mem s l) \<longleftrightarrow> total_refs n s l = 0"
    by (rule lock_word_destroyable_iff [OF rw_reachable_word [OF assms]])
  also have "\<dots> \<longleftrightarrow> (\<forall>p < n. refs s l p = 0)" by (auto simp: total_refs_def)
  also have "\<dots> \<longleftrightarrow> (\<forall>p < n. l \<notin> fst ` set (sys_held s p) \<and> pc_lock (sys_pc s p) \<noteq> Some l)"
    by (auto simp: refs_def filter_empty_conv image_iff)
  finally show ?thesis .
qed

theorem rw_destroyable_iff_unreferenced_witness:
  "rw_reachable 2 rw_sample \<and> \<not> RWLockCheckDestroyable (sys_mem rw_sample 0) \<and>
   RWLockCheckDestroyable (sys_mem rw_sample 7)"
  using rw_sample_reachable rw_destroyable_iff_unreferenced [of 2 rw_sample 0]
    rw_destroyable_iff_unreferenced [of 2 rw_sample 7]
  by (auto simp: rw_sample_def MAX_SIMUL_RWLOCKS_def less_2_cases_iff)

subsection \<open>The waiter flag\<close>

lemma waiter_kept:
  assumes "lock_word w S E R" and "lock_word (w + c) S' E' R'" and "unat c \<le> 2 ^ 26"
  shows "bit (w + c) 62 \<longleftrightarrow> bit w 62"
proof -
  have eq: "unat (w + c) = unat w + unat c"
  proof (rule unat_add_no_overflow)
    show "unat w + unat c < 2 ^ LENGTH(64)"
      using assms(1,3) by (auto simp: lock_word_def)
  qed
  from assms(1) obtain W where W: "W \<le> 1" "unat w = S + 2 ^ 24 * E + 2 ^ 25 * R + 2 ^ 62 * W"
    and b: "S < 2 ^ 24" "E \<le> 1" "R < 2 ^ 25" by (auto simp: lock_word_def)
  from assms(2) obtain W' where W': "W' \<le> 1"
      "unat (w + c) = S' + 2 ^ 24 * E' + 2 ^ 25 * R' + 2 ^ 62 * W'"
    and b': "S' < 2 ^ 24" "E' \<le> 1" "R' < 2 ^ 25" by (auto simp: lock_word_def)
  have "W' = W"
  proof (rule ccontr)
    assume "W' \<noteq> W"
    with W(1) W'(1) consider "W = 0" "W' = 1" | "W = 1" "W' = 0" by linarith
    then show False by cases (use eq W(2) W'(2) b b' assms(3) in simp_all)
  qed
  show ?thesis
    unfolding lock_word_bits(2) [OF assms(1)] lock_word_bits(2) [OF assms(2)]
    using \<open>W' = W\<close> W W' b b' by (cases "W = 0") auto
qed

lemma waiter_kept_sub:
  assumes "lock_word w S E R" and "lock_word (w - c) S' E' R'" and "unat c \<le> 2 ^ 26"
  shows "bit (w - c) 62 \<longleftrightarrow> bit w 62"
  using waiter_kept [of "w - c" S' E' R' c S E R] assms by simp

text \<open>
  C24. Writer preference: once a waiting writer has set its flag in a lock word, no step of any
  backend clears the flag except one by which a backend takes the lock exclusively; and while
  the flag is set no reader gets in, its attempt leaves the word as it is.
\<close>

theorem rw_waiter_flag_until_exclusive:
  assumes "rw_reachable n s" and "n * MAX_SIMUL_RWLOCKS < 2 ^ 24" and "rw_step n s t"
    and "sys_mem s l AND RW_FLAG_HAS_EXCLUSIVE_WAITER \<noteq> 0"
  shows "RWLockAttemptLock_desired (sys_mem s l) RW_SHARED = (sys_mem s l, False) \<and>
    (sys_mem t l AND RW_FLAG_HAS_EXCLUSIVE_WAITER \<noteq> 0 \<or>
     (\<exists>p < n. (l, RW_EXCLUSIVE) \<in> set (sys_held t p) \<and>
        length (sys_held t p) = Suc (length (sys_held s p))))"
proof -
  note ws = rw_reachable_word [OF assms(1,2)]
  have "rw_reachable n t" using assms(1,3) by (rule rw_reachable.step)
  note wt = rw_reachable_word [OF this assms(2)]
  have flag: "w AND RW_FLAG_HAS_EXCLUSIVE_WAITER \<noteq> 0 \<longleftrightarrow> bit w 62" for w
    unfolding rw_consts using and_two_power_eq_0_iff [of 62 w] by simp
  have b: "bit (sys_mem s l) 62" using assms(4) flag by simp
  then have shared: "RWLockAttemptLock_desired (sys_mem s l) RW_SHARED = (sys_mem s l, False)"
    by (simp add: RWLockAttemptLock_desired_def shared_free_iff)
  have unit: "unat (release_unit m) \<le> 2 ^ 26" "unat RW_VAL_REF_COUNT \<le> 2 ^ 26" for m
    by (simp_all add: release_unit_def unat_rw_vals)
  note keep = waiter_kept [OF ws _ unit(2)] waiter_kept_sub [OF ws _ unit(2)] waiter_kept_sub [OF ws _ unit(1)]
  have "bit (sys_mem t l) 62 \<or>
      (\<exists>p < n. (l, RW_EXCLUSIVE) \<in> set (sys_held t p) \<and> length (sys_held t p) = Suc (length (sys_held s p)))"
    using assms(3)
  proof cases
    case (declare_ref p k)
    then show ?thesis using b keep(1) [of k] wt [of k] by (cases "k = l") auto
  next
    case (undeclare_ref p k i)
    then show ?thesis using b keep(2) [of k] wt [of k] by (cases "k = l") auto
  next
    case (acquire p m k)
    then show ?thesis using b keep(1) [of k] wt [of k] by (cases "k = l") auto
  next
    case (cas_busy p k m w d)
    then show ?thesis using b
      by (cases "k = l"; cases m)
        (auto simp: RWLockAttemptLock_desired_def Let_def rw_consts bit_simps split: if_splits)
  next
    case (cas_taken p k m w d)
    then show ?thesis using b
      by (cases "k = l"; cases m)
        (auto simp: RWLockAttemptLock_desired_def Let_def shared_free_iff split: if_splits)
  next
    case (release_val p k m)
    then show ?thesis using b keep(3) [of k] wt [of k] by (cases "k = l") auto
  next
    case (release_ref p k)
    then show ?thesis using b keep(2) [of k] wt [of k] by (cases "k = l") auto
  qed (use b in auto)
  with shared show ?thesis by (simp only: flag simp_thms)
qed

definition rw_sample_waiting :: "nat rw_sys" where
  "rw_sample_waiting = rw_sample\<lparr>sys_mem := (\<lambda>_. 0)(0 := 4611686018544828416),
     sys_pc := (\<lambda>_. Idle)(1 := AttemptRead 0 RW_EXCLUSIVE)\<rparr>"

lemma rw_sample_waiting_reachable: "rw_reachable 2 rw_sample_waiting"
proof -
  have desired: "RWLockAttemptLock_desired 117440512 RW_EXCLUSIVE = (4611686018544828416, False)"
    by code_simp
  let ?s1 = "rw_sample\<lparr>sys_mem := (\<lambda>_. 0)(0 := 117440512),
    sys_pc := (\<lambda>_. Idle)(1 := AttemptRead 0 RW_EXCLUSIVE)\<rparr>"
  let ?s2 = "?s1\<lparr>sys_pc := (\<lambda>_. Idle)(1 := AttemptCas 0 RW_EXCLUSIVE 117440512)\<rparr>"
  have "rw_step 2 rw_sample ?s1"
    using rw_step.acquire [of 1 2 rw_sample RW_EXCLUSIVE 0]
    by (simp add: rw_sample_def MAX_SIMUL_RWLOCKS_def rw_consts)
  moreover have "rw_step 2 ?s1 ?s2"
    using rw_step.attempt_read [of 1 2 ?s1 0 RW_EXCLUSIVE] by (simp add: rw_sample_def)
  moreover have "rw_step 2 ?s2 rw_sample_waiting"
    using rw_step.cas_busy [of 1 2 ?s2 0 RW_EXCLUSIVE 117440512 4611686018544828416]
    by (simp add: desired rw_sample_def rw_sample_waiting_def)
  ultimately show ?thesis using rw_sample_reachable by (meson rw_reachable.step)
qed

theorem rw_waiter_flag_until_exclusive_witness:
  "RWLockAttemptLock_desired 4611686018544828416 RW_SHARED = (4611686018544828416, False)"
proof -
  let ?t = "rw_sample_waiting\<lparr>sys_pc := (\<lambda>_. Idle)(1 := AttemptCas 0 RW_EXCLUSIVE 4611686018544828416)\<rparr>"
  have "rw_step 2 rw_sample_waiting ?t"
    using rw_step.attempt_read [of 1 2 rw_sample_waiting 0 RW_EXCLUSIVE]
    by (simp add: rw_sample_def rw_sample_waiting_def)
  moreover have "sys_mem rw_sample_waiting 0 AND RW_FLAG_HAS_EXCLUSIVE_WAITER \<noteq> 0"
    by (simp add: rw_sample_waiting_def rw_consts)
  ultimately show ?thesis
    using rw_waiter_flag_until_exclusive [OF rw_sample_waiting_reachable, of ?t 0]
    by (simp add: MAX_SIMUL_RWLOCKS_def rw_sample_waiting_def)
qed

subsection \<open>The spin and the sequential operations\<close>

lemma desired_busy_again:
  assumes "\<not> snd (RWLockAttemptLock_desired w mode)"
  shows "\<not> snd (RWLockAttemptLock_desired (fst (RWLockAttemptLock_desired w mode)) mode)"
proof -
  have "(w OR RW_FLAG_HAS_EXCLUSIVE_WAITER) AND RW_LOCK_MASK = w AND RW_LOCK_MASK" for w
    unfolding RW_FLAG_HAS_EXCLUSIVE_WAITER_def RW_LOCK_MASK_def
    by (rule bit_eqI) (auto simp: bit_simps simp del: power_numeral)
  with assms show ?thesis
    by (auto simp: RWLockAttemptLock_desired_def Let_def split: if_splits)
qed

lemma RWLockSpin_SomeD:
  "RWLockSpin w mode = Some y \<Longrightarrow>
    snd (RWLockAttemptLock_desired w mode) \<and> y = fst (RWLockAttemptLock_desired w mode)"
  by (rule RWLockSpin.raw_induct [of "\<lambda>w mode y. snd (RWLockAttemptLock_desired w mode) \<and>
      y = fst (RWLockAttemptLock_desired w mode)"])
    (use desired_busy_again in \<open>fastforce split: if_splits\<close>)+

lemma RWLockSpin_eq:
  "RWLockSpin w mode = (if snd (RWLockAttemptLock_desired w mode)
     then Some (fst (RWLockAttemptLock_desired w mode)) else None)"
proof (cases "snd (RWLockAttemptLock_desired w mode)")
  case True
  then show ?thesis by (simp add: RWLockSpin.simps [of w mode])
next
  case False
  then show ?thesis using RWLockSpin_SomeD [of w mode] by (cases "RWLockSpin w mode") auto
qed



text \<open>What one handle adds to its lock word.\<close>

definition handle_word :: "RWLockMode \<Rightarrow> u64" where
  "handle_word m = RW_VAL_REF_COUNT + (if m = RW_DECLARE then 0 else release_unit m)"

lemma RWLockReleaseLast_snoc:
  assumes "held_rwlocks s = xs @ [(l, m)]"
  shows "RWLockReleaseLast keep s = Inr (s\<lparr>held_rwlocks := xs,
    lock_mem := (lock_mem s)(l := lock_mem s l - handle_word m),
    InterruptHoldoffCount := InterruptHoldoffCount s - (if keep then 0 else 1)\<rparr>)"
  using assms
  by (simp add: RWLockReleaseLast_def RWLockUndeclare_def RWLockRelease_def find_last_snoc
      remove_at_last handle_word_def Let_def nth_append algebra_simps)

text \<open>
  C27. \<open>RWLockReleaseAll\<close> always returns, raises nothing and leaves no handle; it takes from
  every lock word exactly what the released handles had put there, and it leaves the interrupt
  holdoff count alone when it is asked to, and otherwise lowers it once per handle.
\<close>

theorem rw_release_all_releases:
  "\<exists>s'. RWLockReleaseAll keep s = Some (Inr s') \<and> held_rwlocks s' = [] \<and>
    InterruptHoldoffCount s' =
      InterruptHoldoffCount s - (if keep then 0 else int (length (held_rwlocks s))) \<and>
    (\<forall>l. lock_mem s' l =
      lock_mem s l - (\<Sum>h\<leftarrow>filter (\<lambda>h. fst h = l) (held_rwlocks s). handle_word (snd h)))"
proof (induction "held_rwlocks s" arbitrary: s rule: rev_induct)
  case Nil
  then show ?case by (subst RWLockReleaseAll.simps) simp
next
  case (snoc h xs)
  obtain l m where h: "h = (l, m)" by (cases h)
  with snoc.hyps(2) have held: "held_rwlocks s = xs @ [(l, m)]" by simp
  let ?t = "s\<lparr>held_rwlocks := xs, lock_mem := (lock_mem s)(l := lock_mem s l - handle_word m),
    InterruptHoldoffCount := InterruptHoldoffCount s - (if keep then 0 else 1)\<rparr>"
  have "RWLockReleaseAll keep s = RWLockReleaseAll keep ?t"
    by (subst RWLockReleaseAll.simps) (simp add: held RWLockReleaseLast_snoc [OF held])
  with snoc.hyps(1) [of ?t] held show ?case by (auto simp: algebra_simps)
qed

lemma exclusive_word_roundtrip:
  assumes "lock_word w 0 0 R" and "R + 1 < 2 ^ 25"
  shows "((w + RW_VAL_REF_COUNT) OR RW_VAL_EXCLUSIVE) AND NOT RW_FLAG_HAS_EXCLUSIVE_WAITER
    = (w AND NOT RW_FLAG_HAS_EXCLUSIVE_WAITER) + RW_VAL_EXCLUSIVE + RW_VAL_REF_COUNT"
proof -
  let ?v = "w + RW_VAL_REF_COUNT"
  note v = lock_word_add_ref [OF assms]
  have same: "bit ?v 62 \<longleftrightarrow> bit w 62"
    by (rule waiter_kept [OF assms(1) v]) (simp add: unat_rw_vals)
  have or: "unat (?v OR 2 ^ 24) = unat ?v + 2 ^ 24"
    using lock_word_bits(1) [OF v] by (intro unat_or_two_power) simp_all
  have clear: "unat (x AND NOT (2 ^ 62)) = (if bit x 62 then unat x - 2 ^ 62 else unat x)" for x :: u64
    by (rule unat_and_not_two_power) simp
  have bor: "bit (?v OR 2 ^ 24) 62 \<longleftrightarrow> bit w 62"
    using same by (simp add: bit_or_iff bit_exp_iff del: power_numeral)
  have uv: "unat ?v = unat w + 2 ^ 25"
    using lock_word_bound [OF assms(1)] by (subst unat_add_no_overflow) (simp_all add: unat_rw_vals)
  have le: "bit w 62 \<Longrightarrow> 2 ^ 62 \<le> unat w" using lock_word_bits(2) [OF assms(1)] by simp
  have "unat ((?v OR 2 ^ 24) AND NOT (2 ^ 62)) = unat (w AND NOT (2 ^ 62)) + (2 ^ 24 + 2 ^ 25)"
    using or uv bor le clear [of "?v OR 2 ^ 24"] clear [of w] by auto
  then have "(of_nat (unat ((?v OR 2 ^ 24) AND NOT (2 ^ 62))) :: u64) =
      of_nat (unat (w AND NOT (2 ^ 62)) + (2 ^ 24 + 2 ^ 25))" by (rule arg_cong)
  then show ?thesis unfolding rw_consts by (simp add: algebra_simps)
qed

text \<open>
  C28. Acquire then release: when \<open>RWLockAcquire\<close> returns, \<open>RWLockRelease\<close> succeeds and gives
  back the handles, the holdoff count and the words of before, except that an exclusive
  acquisition has consumed the waiter flag of its lock.
\<close>

theorem rw_acquire_release_roundtrip:
  assumes "lock_word (lock_mem s l) S E R" and "R + 1 < 2 ^ 25"
    and "RWLockAcquire l mode s = Some (Inr s')"
  shows "RWLockRelease l s' = Inr (s\<lparr>lock_mem := (lock_mem s)(l :=
    (if mode = RW_EXCLUSIVE then lock_mem s l AND NOT RW_FLAG_HAS_EXCLUSIVE_WAITER
     else lock_mem s l))\<rparr>)"
proof -
  let ?w = "lock_mem s l + RW_VAL_REF_COUNT"
  let ?d = "RWLockAttemptLock_desired ?w mode"
  from assms(3) have mode: "mode \<noteq> RW_DECLARE" and free: "snd ?d"
    and s': "s' = s\<lparr>InterruptHoldoffCount := InterruptHoldoffCount s + 1,
      lock_mem := (lock_mem s)(l := fst ?d), held_rwlocks := held_rwlocks s @ [(l, mode)]\<rparr>"
    by (auto simp: RWLockAcquire_def RWLockSpin_eq split: if_splits)
  have "fst ?d - release_unit mode - RW_VAL_REF_COUNT =
    (if mode = RW_EXCLUSIVE then lock_mem s l AND NOT RW_FLAG_HAS_EXCLUSIVE_WAITER else lock_mem s l)"
  proof (cases "mode = RW_EXCLUSIVE")
    case True
    with free have "?w AND RW_LOCK_MASK = 0"
      by (auto simp: RWLockAttemptLock_desired_def Let_def)
    with lock_word_free_iff [OF lock_word_add_ref [OF assms(1,2)]] assms(1)
    have "lock_word (lock_mem s l) 0 0 R" by simp
    with True free show ?thesis
      by (simp add: RWLockAttemptLock_desired_def Let_def release_unit_def
          exclusive_word_roundtrip [OF _ assms(2)])
  next
    case False
    with free show ?thesis
      by (simp add: RWLockAttemptLock_desired_def Let_def release_unit_def split: if_splits)
  qed
  then show ?thesis
    by (simp add: s' RWLockRelease_def find_last_snoc remove_at_last nth_append)
qed

theorem rw_acquire_release_roundtrip_witness:
  "\<exists>s'. RWLockAcquire 0 RW_EXCLUSIVE \<lparr>lock_mem = (\<lambda>_ :: nat. 0), held_rwlocks = [], InterruptHoldoffCount = 0\<rparr> =
      Some (Inr s') \<and>
    RWLockRelease 0 s' = Inr \<lparr>lock_mem = (\<lambda>_ :: nat. 0), held_rwlocks = [], InterruptHoldoffCount = 0\<rparr>"
proof -
  let ?s = "\<lparr>lock_mem = (\<lambda>_ :: nat. 0), held_rwlocks = [], InterruptHoldoffCount = 0\<rparr>"
  have "RWLockAcquire 0 RW_EXCLUSIVE ?s = Some (Inr \<lparr>lock_mem = (\<lambda>_ :: nat. 0)(0 := 50331648),
      held_rwlocks = [(0, RW_EXCLUSIVE)], InterruptHoldoffCount = 1\<rparr>)"
    by (simp add: RWLockAcquire_def RWLockSpin_eq RWLockAttemptLock_desired_def MAX_SIMUL_RWLOCKS_def
        rw_consts mask_eq_exp_minus_1)
  with rw_acquire_release_roundtrip [of ?s 0 0 0 0 RW_EXCLUSIVE] show ?thesis
    by (simp add: lock_word_0 fun_upd_idem)
qed

text \<open>
  C39. \<open>RWLockRelease\<close> takes the newest handle of the lock whatever its mode.  Called by a
  backend whose newest handle is a declaration, it does not undo the declaration: it takes a
  shared unit that nobody holds off the word.
\<close>

theorem rw_release_of_declared_takes_shared_unit:
  assumes "RWLockDeclare l s = Inr s'"
  shows "RWLockRelease l s' = Inr (s\<lparr>lock_mem := (lock_mem s)(l := lock_mem s l - RW_VAL_SHARED)\<rparr>)"
proof -
  from assms have "s' = s\<lparr>InterruptHoldoffCount := InterruptHoldoffCount s + 1,
      lock_mem := (lock_mem s)(l := lock_mem s l + RW_VAL_REF_COUNT),
      held_rwlocks := held_rwlocks s @ [(l, RW_DECLARE)]\<rparr>"
    by (simp add: RWLockDeclare_def split: if_splits)
  then show ?thesis
    by (simp add: RWLockRelease_def find_last_snoc remove_at_last release_unit_def nth_append)
qed

theorem rw_release_of_declared_takes_shared_unit_witness:
  "\<exists>s' t. RWLockDeclare 0 \<lparr>lock_mem = (\<lambda>_ :: nat. 0), held_rwlocks = [], InterruptHoldoffCount = 0\<rparr> = Inr s' \<and>
    RWLockRelease 0 s' = Inr t \<and> lock_mem t 0 = - 1"
proof -
  let ?s = "\<lparr>lock_mem = (\<lambda>_ :: nat. 0), held_rwlocks = [], InterruptHoldoffCount = 0\<rparr>"
  obtain s' where "RWLockDeclare 0 ?s = Inr s'"
    by (simp add: RWLockDeclare_def MAX_SIMUL_RWLOCKS_def)
  with rw_release_of_declared_takes_shared_unit [of 0 ?s s'] show ?thesis
    by (simp add: rw_consts)
qed

end
