(* ===== verification/Shmem_Allocator.thy ===== *)
theory Shmem_Allocator
  imports Falcon_Prelude
begin

text \<open>
  The shared-memory block allocator of \<open>falcon/utils/falcon_shmem_allocator.c\<close>, which the
  connection pool and the metadata engine use to pass requests and replies.

  A page of 1 MB is described by a 64-bit word, one bit per 16 KB block; a request of level \<open>l\<close>
  takes an aligned run of \<open>2 ^ (6 - l)\<close> blocks.  \<open>FalconShmemAllocatorMalloc\<close> and
  \<open>FalconShmemAllocatorFree\<close> are functions on the allocator state; the compare-and-swap of the
  page word is exact in them, because no other process runs in between.  The interleaving of
  several processes is the step relation \<open>shm_step\<close>: each successful compare-and-swap, and each
  atomic \<open>and\<close> of a free, is one step.  Loop indices are natural numbers; the arithmetic on sizes
  and shifts is kept at the width the C expressions have.
\<close>

subsection \<open>Constants and data\<close>

definition FALCON_SHMEM_ALLOCATOR_FREE_LIST_COUNT :: nat where
  "FALCON_SHMEM_ALLOCATOR_FREE_LIST_COUNT = 7"

definition FALCON_SHMEM_ALLOCATOR_PAGE_SIZE :: u64 where
  "FALCON_SHMEM_ALLOCATOR_PAGE_SIZE = 1048576"

definition FALCON_SHMEM_ALLOCATOR_MIN_BLOCK_SIZE :: u64 where
  "FALCON_SHMEM_ALLOCATOR_MIN_BLOCK_SIZE = 16384"

definition sizeof_PaddedAtomic64 :: u64 where
  "sizeof_PaddedAtomic64 = 128"

definition sizeof_MemoryHdr :: u64 where
  "sizeof_MemoryHdr = 24"

record MemoryHdr =
  hdr_signature :: u64
  hdr_size :: u64
  hdr_capacity :: u64

text \<open>The header of the block that starts at a shift is found at that shift in \<open>hdrs\<close>.\<close>

record FalconShmemAllocator =
  shmem_size :: u64
  pageCount :: u32
  signatureCounter :: u64
  freeListHint :: "u64 list"
  pageCntlArray :: "u64 list"
  hdrs :: "u64 \<Rightarrow> MemoryHdr"

definition LevelBlockMask :: "u64 list" where
  "LevelBlockMask = [0x0000000000000001, 0x0000000100000001, 0x0001000100010001,
    0x0101010101010101, 0x1111111111111111, 0x5555555555555555, 0xFFFFFFFFFFFFFFFF]"

definition LevelBlockOccupyBitMap :: "u64 list" where
  "LevelBlockOccupyBitMap = [0xFFFFFFFFFFFFFFFF, 0x00000000FFFFFFFF, 0x000000000000FFFF,
    0x00000000000000FF, 0x000000000000000F, 0x0000000000000003, 0x0000000000000001]"

text \<open>The compiler intrinsics \<open>__builtin_ctzll\<close> and \<open>__builtin_clzll\<close> (64 on zero).\<close>

definition ctzll :: "u64 \<Rightarrow> nat" where
  "ctzll w = length (takeWhile (\<lambda>i. \<not> bit w i) [0..<64])"

definition clzll :: "u64 \<Rightarrow> nat" where
  "clzll w = length (takeWhile (\<lambda>i. \<not> bit w i) (rev [0..<64]))"

subsection \<open>Initialisation and signatures\<close>

text \<open>
  \<open>FalconShmemAllocatorInit\<close> and the clearing of the control words by
  \<open>FalconConnectionPoolShmemInit\<close>; \<open>None\<close> is the return value -1.
\<close>

definition FalconShmemAllocatorInit :: "u64 \<Rightarrow> FalconShmemAllocator option" where
  "FalconShmemAllocatorInit sz =
    (let count = (ucast ((sz - sizeof_PaddedAtomic64 * (1 + of_nat FALCON_SHMEM_ALLOCATOR_FREE_LIST_COUNT))
           div (sizeof_PaddedAtomic64 + FALCON_SHMEM_ALLOCATOR_PAGE_SIZE)) :: u32) in
     if count = 0 then None
     else Some \<lparr>shmem_size = sz, pageCount = count, signatureCounter = 0,
       freeListHint = replicate FALCON_SHMEM_ALLOCATOR_FREE_LIST_COUNT 0,
       pageCntlArray = replicate (unat count) 0,
       hdrs = (\<lambda>_. \<lparr>hdr_signature = 0, hdr_size = 0, hdr_capacity = 0\<rparr>)\<rparr>)"

definition FalconShmemAllocatorGetUniqueSignature ::
  "FalconShmemAllocator \<Rightarrow> u64 \<times> FalconShmemAllocator" where
  "FalconShmemAllocatorGetUniqueSignature a =
    (signatureCounter a + 1, a\<lparr>signatureCounter := signatureCounter a + 1\<rparr>)"

subsection \<open>Allocation\<close>

definition GetNextPowerOfTwo :: "u64 \<Rightarrow> u64" where
  "GetNextPowerOfTwo num =
    (if num = 0 \<or> num AND push_bit 63 1 \<noteq> 0 then 0
     else if num = 1 then 1
     else push_bit (64 - clzll (num - 1)) 1)"

text \<open>
  The loop that folds the page word to one bit per block of the level:
  \<open>for (j = FREE_LIST_COUNT - 1; j > level; --j)\<close>.
\<close>

fun level_bitmap :: "nat \<Rightarrow> nat \<Rightarrow> nat \<Rightarrow> u64 \<Rightarrow> u64" where
  "level_bitmap level 0 shift bitmap = bitmap"
| "level_bitmap level (Suc j) shift bitmap =
    (if Suc j > level
     then level_bitmap level j (2 * shift) ((drop_bit shift bitmap OR bitmap) AND LevelBlockMask ! j)
     else bitmap)"

text \<open>
  One turn of the compare-and-swap loop on a page: \<open>None\<close> when the level has no free block in
  it, otherwise the first free block and the word to install.
\<close>

definition page_attempt :: "nat \<Rightarrow> u64 \<Rightarrow> (nat \<times> u64) option" where
  "page_attempt level bitmap =
    (if level = 0 then (if bitmap \<noteq> 0 then None else Some (0, NOT 0))
     else
       (let b = level_bitmap level (FALCON_SHMEM_ALLOCATOR_FREE_LIST_COUNT - 1) 1 bitmap in
        if b = LevelBlockMask ! level then None
        else
          (let firstEmptyBlockInLevel = ctzll (NOT b AND LevelBlockMask ! level) in
           Some (firstEmptyBlockInLevel,
             bitmap OR push_bit firstEmptyBlockInLevel (LevelBlockOccupyBitMap ! level)))))"

text \<open>
  \<open>PAGE_SIZE * pageNo + MIN_BLOCK_SIZE * firstEmptyBlockInLevel\<close>: the constants are \<open>int\<close> and
  \<open>pageNo\<close> is \<open>uint32_t\<close>, so the sum is computed in 32 bits and then widened.
\<close>

definition allocatedShift :: "nat \<Rightarrow> nat \<Rightarrow> u64" where
  "allocatedShift pageNo block =
    ucast (1048576 * (of_nat pageNo :: u32) + 16384 * (of_nat block :: u32))"

function scan_pages :: "nat \<Rightarrow> FalconShmemAllocator \<Rightarrow> nat \<Rightarrow> (nat \<times> nat \<times> u64) option" where
  "scan_pages level a pageNo =
    (if pageNo < unat (pageCount a)
     then (case page_attempt level (pageCntlArray a ! pageNo) of
             Some (block, desired) \<Rightarrow> Some (pageNo, block, desired)
           | None \<Rightarrow> scan_pages level a (Suc pageNo))
     else None)"
  by auto
termination by (relation "measure (\<lambda>(l, a, p). unat (pageCount a) - p)") auto

declare scan_pages.simps [simp del]

definition requiredSize :: "u64 \<Rightarrow> u64" where
  "requiredSize sz =
    (if sz + sizeof_MemoryHdr < FALCON_SHMEM_ALLOCATOR_MIN_BLOCK_SIZE
     then FALCON_SHMEM_ALLOCATOR_MIN_BLOCK_SIZE
     else GetNextPowerOfTwo (sz + sizeof_MemoryHdr))"

definition size_level :: "u64 \<Rightarrow> nat" where
  "size_level required = ctzll FALCON_SHMEM_ALLOCATOR_PAGE_SIZE - ctzll required"

text \<open>
  What a successful exchange on a page is followed by: the update of the hint of the level, which
  differs between the first and the second scan, and the header of the block.
\<close>

definition renew_hint :: "bool \<Rightarrow> u64 \<Rightarrow> nat \<Rightarrow> bool \<Rightarrow> u64 \<Rightarrow> u64" where
  "renew_hint first_scan start pageNo pageIsFull hint =
    (if first_scan then
       (if (pageIsFull \<or> of_nat pageNo \<noteq> start) \<and> hint = start
        then ucast (if pageIsFull then of_nat pageNo + 1 else of_nat pageNo :: u32) else hint)
     else (if \<not> pageIsFull \<and> \<not> hint \<le> of_nat pageNo then of_nat pageNo else hint))"

definition finish_alloc :: "bool \<Rightarrow> u64 \<Rightarrow> nat \<Rightarrow> u64 \<Rightarrow> nat \<times> nat \<times> u64 \<Rightarrow>
    FalconShmemAllocator \<Rightarrow> u64 \<times> FalconShmemAllocator" where
  "finish_alloc first_scan start level sz found a =
    (case found of (pageNo, block, desired) \<Rightarrow>
      let required = requiredSize sz;
          shift = allocatedShift pageNo block;
          pageIsFull = (level \<noteq> 0 \<and> shift + required = FALCON_SHMEM_ALLOCATOR_PAGE_SIZE);
          a1 = a\<lparr>pageCntlArray := (pageCntlArray a)[pageNo := desired],
                 freeListHint := (freeListHint a)[level :=
                   renew_hint first_scan start pageNo pageIsFull (freeListHint a ! level)]\<rparr>
      in if shift = - 1 then (0, a1)
         else (shift + sizeof_MemoryHdr,
               a1\<lparr>hdrs := (hdrs a)(shift :=
                 \<lparr>hdr_signature = 0, hdr_size = sz, hdr_capacity = required\<rparr>)\<rparr>))"

definition FalconShmemAllocatorMalloc ::
  "FalconShmemAllocator \<Rightarrow> u64 \<Rightarrow> u64 \<times> FalconShmemAllocator" where
  "FalconShmemAllocatorMalloc a sz =
    (if sz > FALCON_SHMEM_ALLOCATOR_PAGE_SIZE - sizeof_MemoryHdr then (0, a)
     else
       (let level = size_level (requiredSize sz);
            start = freeListHint a ! level
        in case scan_pages level a (unat (ucast start :: u32)) of
             Some found \<Rightarrow> finish_alloc True start level sz found a
           | None \<Rightarrow>
              (case scan_pages level a 0 of
                 Some found \<Rightarrow> finish_alloc False 0 level sz found a
               | None \<Rightarrow> (0, a))))"

subsection \<open>Release\<close>

definition FalconShmemAllocatorFree :: "FalconShmemAllocator \<Rightarrow> u64 \<Rightarrow> FalconShmemAllocator" where
  "FalconShmemAllocatorFree a shift0 =
    (let shift = shift0 - sizeof_MemoryHdr;
         capacity = hdr_capacity (hdrs a shift) in
     if capacity < FALCON_SHMEM_ALLOCATOR_MIN_BLOCK_SIZE \<or> capacity > FALCON_SHMEM_ALLOCATOR_PAGE_SIZE
     then a
     else
       (let level = size_level capacity in
        if capacity \<noteq> drop_bit level FALCON_SHMEM_ALLOCATOR_PAGE_SIZE then a
        else
          (let pageNo = shift div FALCON_SHMEM_ALLOCATOR_PAGE_SIZE;
               blockNo = (ucast (shift div FALCON_SHMEM_ALLOCATOR_MIN_BLOCK_SIZE - pageNo * 64) :: u32);
               occupyBitmap = push_bit (unat blockNo) (LevelBlockOccupyBitMap ! level);
               p = unat pageNo;
               hint = freeListHint a ! level
           in a\<lparr>pageCntlArray := (pageCntlArray a)[p := pageCntlArray a ! p AND NOT occupyBitmap],
                freeListHint := (freeListHint a)[level := if hint \<le> pageNo then hint else pageNo]\<rparr>)))"

subsection \<open>Interleaved allocation and release\<close>

text \<open>
  The page words and, as a ghost, the blocks handed out and not yet given back: page, first
  block and level.
\<close>

record shm_sys =
  pages :: "nat \<Rightarrow> u64"
  live :: "(nat \<times> nat \<times> nat) set"

definition shm_init :: shm_sys where
  "shm_init = \<lparr>pages = (\<lambda>_. 0), live = {}\<rparr>"

inductive shm_step :: "nat \<Rightarrow> shm_sys \<Rightarrow> shm_sys \<Rightarrow> bool" for n :: nat where
  alloc: "p < n \<Longrightarrow> level < FALCON_SHMEM_ALLOCATOR_FREE_LIST_COUNT \<Longrightarrow>
    page_attempt level (pages s p) = Some (b, d) \<Longrightarrow>
    shm_step n s (s\<lparr>pages := (pages s)(p := d), live := insert (p, b, level) (live s)\<rparr>)"
| free: "(p, b, level) \<in> live s \<Longrightarrow>
    shm_step n s (s\<lparr>pages := (pages s)(p := pages s p AND NOT (push_bit b (LevelBlockOccupyBitMap ! level))),
                    live := live s - {(p, b, level)}\<rparr>)"

inductive shm_reachable :: "nat \<Rightarrow> shm_sys \<Rightarrow> bool" for n :: nat where
  start: "shm_reachable n shm_init"
| step: "shm_reachable n s \<Longrightarrow> shm_step n s t \<Longrightarrow> shm_reachable n t"

subsection \<open>Counting zeros\<close>

lemma word64_nonzero_bit: "w \<noteq> (0 :: u64) \<Longrightarrow> \<exists>n < 64. bit w n"
  by (rule ccontr) (auto simp: bit_eq_iff)

lemma ctzll_bit:
  assumes "w \<noteq> 0"
  shows "bit w (ctzll w)" and "ctzll w < 64" and "i < ctzll w \<Longrightarrow> \<not> bit w i"
proof -
  let ?P = "\<lambda>i. \<not> bit w i"
  from word64_nonzero_bit [OF assms] obtain n where n: "n < 64" "bit w n" by blast
  have le: "ctzll w \<le> 64" unfolding ctzll_def by (metis length_takeWhile_le length_upt minus_nat.diff_0)
  have ne: "ctzll w \<noteq> 64"
  proof
    assume "ctzll w = 64"
    then have "takeWhile ?P [0..<64] = [0..<64]"
      unfolding ctzll_def by (metis length_upt minus_nat.diff_0 takeWhile_eq_take take_all order_refl)
    then show False using n by (simp only: takeWhile_eq_all_conv) auto
  qed
  with le show lt: "ctzll w < 64" by simp
  then show "bit w (ctzll w)"
    unfolding ctzll_def using nth_length_takeWhile [of ?P "[0..<64]"] by simp
  show "\<not> bit w i" if "i < ctzll w"
    using that lt nth_mem [of i "takeWhile ?P [0..<64]"] takeWhile_nth [of i ?P "[0..<64]"]
    by (auto simp: ctzll_def dest!: set_takeWhileD)
qed

subsection \<open>Blocks of a level\<close>

abbreviation blocks :: "nat \<Rightarrow> nat" where
  "blocks level \<equiv> 2 ^ (6 - level)"

lemma LevelBlockMask_bit_all:
  "list_all (\<lambda>l. list_all (\<lambda>i. bit (LevelBlockMask ! l) i = (i mod blocks l = 0)) [0..<64]) [0..<7]"
  by code_simp

lemma LevelBlockMask_bit:
  "level < 7 \<Longrightarrow> i < 64 \<Longrightarrow> bit (LevelBlockMask ! level) i \<longleftrightarrow> i mod blocks level = 0"
  using LevelBlockMask_bit_all by (simp only: list_all_iff) auto

lemma LevelBlockOccupyBitMap_bit_all:
  "list_all (\<lambda>l. list_all (\<lambda>i. bit (LevelBlockOccupyBitMap ! l) i = (i < blocks l)) [0..<64]) [0..<7]"
  by code_simp

lemma LevelBlockOccupyBitMap_bit:
  "level < 7 \<Longrightarrow> i < 64 \<Longrightarrow> bit (LevelBlockOccupyBitMap ! level) i \<longleftrightarrow> i < blocks level"
  using LevelBlockOccupyBitMap_bit_all by (simp only: list_all_iff) auto

text \<open>
  The folded word: bit \<open>i\<close> is set exactly when \<open>i\<close> starts a block of the level and some bit
  of the page word in that block is set.
\<close>

definition block_used :: "nat \<Rightarrow> u64 \<Rightarrow> nat \<Rightarrow> bool" where
  "block_used level w i \<longleftrightarrow> (\<exists>k. i \<le> k \<and> k < i + blocks level \<and> bit w k)"

lemma block_used_split:
  assumes "Suc j \<le> 6"
  shows "block_used j w i \<longleftrightarrow> block_used (Suc j) w i \<or> block_used (Suc j) w (i + blocks (Suc j))"
proof -
  have "blocks j = blocks (Suc j) + blocks (Suc j)"
    using assms by (simp add: Suc_diff_Suc flip: power_Suc mult_2)
  then have range: "i \<le> k \<and> k < i + blocks j \<longleftrightarrow> i \<le> k \<and> k < i + blocks (Suc j) \<or>
      i + blocks (Suc j) \<le> k \<and> k < i + blocks (Suc j) + blocks (Suc j)" for k
    by linarith
  have "block_used j w i \<longleftrightarrow> (\<exists>k. (i \<le> k \<and> k < i + blocks j) \<and> bit w k)"
    by (simp add: block_used_def)
  then show ?thesis unfolding range block_used_def by blast
qed

lemma mod_twice:
  fixes i s :: nat
  assumes "i mod (2 * s) = 0"
  shows "i mod s = 0" and "(i + s) mod s = 0"
  using assms by (auto simp: mod_eq_0_iff_dvd)

lemma level_bitmap_bit:
  assumes "j \<le> 6" and "level \<le> j" and "i < 64"
    and "\<And>i. i < 64 \<Longrightarrow> bit b i \<longleftrightarrow> i mod blocks j = 0 \<and> block_used j w i"
  shows "bit (level_bitmap level j (blocks j) b) i \<longleftrightarrow> i mod blocks level = 0 \<and> block_used level w i"
  using assms
proof (induction j arbitrary: b i)
  case 0
  then show ?case by simp
next
  case (Suc j)
  show ?case
  proof (cases "level = Suc j")
    case True
    with Suc.prems show ?thesis by simp
  next
    case False
    let ?s = "blocks (Suc j)"
    let ?b = "(drop_bit ?s b OR b) AND LevelBlockMask ! j"
    have two: "blocks j = 2 * ?s" using Suc.prems(1) by (simp add: Suc_diff_Suc flip: power_Suc)
    have "bit ?b i \<longleftrightarrow> i mod blocks j = 0 \<and> block_used j w i" if "i < 64" for i
    proof (cases "i mod blocks j = 0")
      case True
      then have m: "i mod ?s = 0" "(i + ?s) mod ?s = 0" unfolding two by (simp_all add: mod_twice)
      have "(64 :: nat) = blocks j * 2 ^ j"
        using Suc.prems(1) by (simp flip: power_add)
      with True \<open>i < 64\<close> have "i + blocks j \<le> 64"
        by (metis Suc_leI add.commute dvd_def mod_0_imp_dvd mult_Suc_right mult_le_mono2 mult_less_cancel1)
      moreover have "0 < ?s" by simp
      ultimately have "i + ?s < 64" using two by linarith
      then show ?thesis
        using True that m Suc.prems(1,4) LevelBlockMask_bit [of j i]
          block_used_split [OF Suc.prems(1), of w i]
        by (auto simp: bit_simps add.commute)
    next
      case False
      then show ?thesis using that Suc.prems(1) LevelBlockMask_bit [of j i] by (simp add: bit_simps)
    qed
    moreover have "level_bitmap level (Suc j) ?s b = level_bitmap level j (blocks j) ?b"
      using False Suc.prems(2) by (simp add: two)
    ultimately show ?thesis using Suc.IH [of i ?b] Suc.prems False by simp
  qed
qed

lemma folded_bit:
  assumes "level < 7" and "i < 64"
  shows "bit (level_bitmap level 6 1 w) i \<longleftrightarrow> i mod blocks level = 0 \<and> block_used level w i"
proof -
  have "block_used 6 w k \<longleftrightarrow> bit w k" for k
    using le_antisym [of k] by (auto simp: block_used_def less_Suc_eq_le)
  then show ?thesis using level_bitmap_bit [of 6 level i w w] assms by simp
qed

lemma aligned_fits:
  assumes "level < 7" and "i mod blocks level = 0" and "i < 64"
  shows "i + blocks level \<le> 64"
proof -
  have "(64 :: nat) = blocks level * 2 ^ level" using assms(1) by (simp flip: power_add)
  with assms show ?thesis
    by (metis Suc_leI add.commute dvd_def mod_0_imp_dvd mult_Suc_right mult_le_mono2 mult_less_cancel1)
qed

lemma occupy_bit:
  assumes "level < 7" and "b + blocks level \<le> 64"
  shows "bit (push_bit b (LevelBlockOccupyBitMap ! level)) i \<longleftrightarrow> b \<le> i \<and> i < b + blocks level"
  using assms LevelBlockOccupyBitMap_bit [of level "i - b"]
  by (cases "i < 64") (auto simp: bit_push_bit_iff dest: bit_imp_le_length)

lemma page_attempt_Some:
  assumes "level < 7" and "page_attempt level w = Some (b, d)"
  shows "b mod blocks level = 0" and "b + blocks level \<le> 64" and "\<not> block_used level w b"
    and "bit d i \<longleftrightarrow> bit w i \<or> b \<le> i \<and> i < b + blocks level"
proof -
  have "b mod blocks level = 0 \<and> b < 64 \<and> \<not> block_used level w b \<and>
    d = w OR push_bit b (LevelBlockOccupyBitMap ! level)"
  proof (cases "level = 0")
    case True
    with assms(2) show ?thesis
      by (auto simp: page_attempt_def block_used_def LevelBlockOccupyBitMap_def split: if_splits)
  next
    case False
    let ?b = "level_bitmap level 6 1 w"
    let ?free = "NOT ?b AND LevelBlockMask ! level"
    from assms(2) False have ne: "?b \<noteq> LevelBlockMask ! level" and b: "b = ctzll ?free"
      and d: "d = w OR push_bit b (LevelBlockOccupyBitMap ! level)"
      by (auto simp: page_attempt_def FALCON_SHMEM_ALLOCATOR_FREE_LIST_COUNT_def Let_def split: if_splits)
    have "?free \<noteq> 0"
    proof
      assume z: "?free = 0"
      have "?b = LevelBlockMask ! level"
      proof (rule bit_eqI)
        fix n assume "possible_bit TYPE(64 word) n"
        then have "n < 64" by simp
        with z folded_bit [OF assms(1), of n w] LevelBlockMask_bit [OF assms(1), of n]
        show "bit ?b n = bit (LevelBlockMask ! level) n"
          by (auto simp: bit_eq_iff bit_simps)
      qed
      with ne show False ..
    qed
    from ctzll_bit(1,2) [OF this] have "b < 64" "bit ?free b" by (simp_all add: b)
    then show ?thesis
      using d folded_bit [OF assms(1), of b w] LevelBlockMask_bit [OF assms(1), of b]
      by (auto simp: bit_simps)
  qed
  then have *: "b mod blocks level = 0" "b < 64" "\<not> block_used level w b"
    "d = w OR push_bit b (LevelBlockOccupyBitMap ! level)" by blast+
  show "b mod blocks level = 0" "\<not> block_used level w b" using * by simp_all
  show fits: "b + blocks level \<le> 64" using aligned_fits [OF assms(1)] * by simp
  show "bit d i \<longleftrightarrow> bit w i \<or> b \<le> i \<and> i < b + blocks level"
    using *(4) occupy_bit [OF assms(1) fits] by (simp add: bit_or_iff)
qed

lemma page_attempt_None_iff:
  assumes "level < 7"
  shows "page_attempt level w = None \<longleftrightarrow> (\<forall>b < 64. b mod blocks level = 0 \<longrightarrow> block_used level w b)"
proof
  assume none: "page_attempt level w = None"
  show "\<forall>b < 64. b mod blocks level = 0 \<longrightarrow> block_used level w b"
  proof (cases "level = 0")
    case True
    with none have "w \<noteq> 0" by (auto simp: page_attempt_def)
    then obtain k where "k < 64" "bit w k" using word64_nonzero_bit [of w] by auto
    then have "block_used 0 w 0" unfolding block_used_def by (intro exI [of _ k]) simp
    then show ?thesis by (simp add: True)
  next
    case False
    with none have eq: "level_bitmap level 6 1 w = LevelBlockMask ! level"
      by (auto simp: page_attempt_def FALCON_SHMEM_ALLOCATOR_FREE_LIST_COUNT_def Let_def split: if_splits)
    show ?thesis
    proof (intro allI impI)
      fix b :: nat assume "b < 64" "b mod blocks level = 0"
      then show "block_used level w b"
        using folded_bit [OF assms, of b w] LevelBlockMask_bit [OF assms, of b] eq by simp
    qed
  qed
next
  assume used: "\<forall>b < 64. b mod blocks level = 0 \<longrightarrow> block_used level w b"
  show "page_attempt level w = None"
  proof (rule ccontr)
    assume "page_attempt level w \<noteq> None"
    then obtain b d where Some: "page_attempt level w = Some (b, d)" by auto
    have "b < b + blocks level" by simp
    with page_attempt_Some(2) [OF assms Some] have "b < 64" by linarith
    with used page_attempt_Some(1) [OF assms Some] have "block_used level w b" by simp
    with page_attempt_Some(3) [OF assms Some] show False ..
  qed
qed

subsection \<open>No two live blocks overlap\<close>

definition in_block :: "nat \<Rightarrow> nat \<times> nat \<Rightarrow> bool" where
  "in_block i x \<longleftrightarrow> fst x \<le> i \<and> i < fst x + blocks (snd x)"

definition shm_inv :: "nat \<Rightarrow> shm_sys \<Rightarrow> bool" where
  "shm_inv n s \<longleftrightarrow>
    (\<forall>p b l. (p, b, l) \<in> live s \<longrightarrow> p < n \<and> l < 7 \<and> b mod blocks l = 0 \<and> b + blocks l \<le> 64) \<and>
    (\<forall>p i. bit (pages s p) i \<longleftrightarrow> (\<exists>x. (p, x) \<in> live s \<and> in_block i x)) \<and>
    (\<forall>p x y i. (p, x) \<in> live s \<longrightarrow> (p, y) \<in> live s \<longrightarrow> in_block i x \<longrightarrow> in_block i y \<longrightarrow> x = y)"

lemma shm_inv_init: "shm_inv n shm_init"
  by (simp add: shm_inv_def shm_init_def)

lemma shm_inv_step:
  assumes "shm_step n s t" and inv: "shm_inv n s"
  shows "shm_inv n t"
  using assms(1)
proof cases
  case (alloc p level b d)
  then have l: "level < 7" by (simp add: FALCON_SHMEM_ALLOCATOR_FREE_LIST_COUNT_def)
  note pa = page_attempt_Some [OF l alloc(4)]
  have fresh: "\<not> in_block i (b, level) \<or> \<not> in_block i x" if "(p, x) \<in> live s" for i x
    using pa(3) that inv by (auto simp: shm_inv_def block_used_def in_block_def)
  show ?thesis
    unfolding shm_inv_def
  proof (intro conjI)
    show "\<forall>p b l. (p, b, l) \<in> live t \<longrightarrow> p < n \<and> l < 7 \<and> b mod blocks l = 0 \<and> b + blocks l \<le> 64"
      using alloc l pa(1,2) inv by (auto simp: shm_inv_def)
    show "\<forall>p i. bit (pages t p) i \<longleftrightarrow> (\<exists>x. (p, x) \<in> live t \<and> in_block i x)"
      using alloc pa(4) inv by (auto simp: shm_inv_def in_block_def)
    show "\<forall>q x y i. (q, x) \<in> live t \<longrightarrow> (q, y) \<in> live t \<longrightarrow> in_block i x \<longrightarrow> in_block i y \<longrightarrow> x = y"
      using alloc(1) fresh inv unfolding shm_inv_def by auto
  qed
next
  case (free p b level)
  from inv free(2) have l: "level < 7" and fits: "b + blocks level \<le> 64"
    by (auto simp: shm_inv_def)
  note occ = occupy_bit [OF l fits]
  have bits: "bit (pages s q) i \<longleftrightarrow> (\<exists>x. (q, x) \<in> live s \<and> in_block i x)" for q i
    using inv by (simp add: shm_inv_def)
  have uniq: "x = y" if "(q, x) \<in> live s" "(q, y) \<in> live s" "in_block i x" "in_block i y" for q x y i
    using that inv unfolding shm_inv_def by blast
  have "bit (pages t q) i \<longleftrightarrow> (\<exists>x. (q, x) \<in> live t \<and> in_block i x)" for q i
  proof (cases "q = p")
    case True
    have "bit (pages t p) i \<longleftrightarrow> bit (pages s p) i \<and> \<not> in_block i (b, level)"
      using bit_imp_le_length [of "pages s p" i]
      by (auto simp: free(1) bit_and_iff bit_not_iff occ in_block_def)
    also have "\<dots> \<longleftrightarrow> (\<exists>x. (p, x) \<in> live t \<and> in_block i x)"
      using uniq [OF _ free(2)] by (auto simp: bits free(1))
    finally show ?thesis using True by simp
  next
    case False
    then show ?thesis by (auto simp: free(1) bits)
  qed
  moreover have "live t \<subseteq> live s" by (auto simp: free(1))
  ultimately show ?thesis
    using inv uniq unfolding shm_inv_def by (intro conjI) (meson subsetD)+
qed

lemma shm_reachable_inv: "shm_reachable n s \<Longrightarrow> shm_inv n s"
  by (induction rule: shm_reachable.induct) (auto intro: shm_inv_init shm_inv_step)

lemma allocatedShift_exact:
  assumes "p < 4096" and "b < 64"
  shows "unat (allocatedShift p b) = 1048576 * p + 16384 * b"
proof -
  define N where "N = 1048576 * p + 16384 * b"
  have "1048576 * (of_nat p :: u32) + 16384 * of_nat b = of_nat N" by (simp add: N_def)
  then have "allocatedShift p b = ucast (of_nat N :: u32)" by (simp only: allocatedShift_def)
  moreover have "N < 2 ^ 32" using assms by (simp add: N_def)
  ultimately show ?thesis unfolding N_def [symmetric]
    by (simp add: unsigned_ucast_eq unsigned_of_nat take_bit_nat_eq_self)
qed

text \<open>The bytes of the segment that a live block takes, header included.\<close>

definition block_bytes :: "nat \<times> nat \<times> nat \<Rightarrow> nat set" where
  "block_bytes x = (case x of (p, b, l) \<Rightarrow>
     {unat (allocatedShift p b) ..< unat (allocatedShift p b) + 16384 * blocks l})"

text \<open>
  C2. However the allocations and releases of any number of processes interleave, the byte
  ranges of two different live blocks are disjoint, and every live block lies inside its page,
  provided the segment has at most 4096 pages.
\<close>

theorem shm_live_blocks_disjoint:
  assumes "shm_reachable n s" and "n \<le> 4096" and "x \<in> live s" and "y \<in> live s" and "x \<noteq> y"
  shows "block_bytes x \<inter> block_bytes y = {} \<and>
    block_bytes x \<subseteq> {1048576 * fst x ..< 1048576 * (fst x + 1)}"
proof -
  note inv = shm_reachable_inv [OF assms(1)]
  obtain p b l q c m where x: "x = (p, b, l)" and y: "y = (q, c, m)" by (metis prod_cases3)
  have ok: "p < n" "b + blocks l \<le> 64" "q < n" "c + blocks m \<le> 64"
    using inv assms(3,4) unfolding shm_inv_def x y by blast+
  have lt: "b < 64" "c < 64"
    using ok(2,4) zero_less_power [of "2 :: nat" "6 - l"] zero_less_power [of "2 :: nat" "6 - m"]
    by linarith+
  have bx: "block_bytes x = {1048576 * p + 16384 * b ..< 1048576 * p + 16384 * (b + blocks l)}"
    and by': "block_bytes y = {1048576 * q + 16384 * c ..< 1048576 * q + 16384 * (c + blocks m)}"
    using assms(2) ok lt allocatedShift_exact [of p b] allocatedShift_exact [of q c]
    by (simp_all add: x y block_bytes_def algebra_simps)
  have "block_bytes x \<inter> block_bytes y = {}"
  proof (cases "p = q")
    case True
    have uniq: "\<not> (in_block i (b, l) \<and> in_block i (c, m))" for i
      using inv assms(3-5) x y True unfolding shm_inv_def by blast
    have "b + blocks l \<le> c \<or> c + blocks m \<le> b"
      using uniq [of "max b c"] by (auto simp: in_block_def max_def split: if_splits)
    then show ?thesis unfolding bx by' True by auto
  next
    case False
    then have "p + 1 \<le> q \<or> q + 1 \<le> p" by linarith
    then show ?thesis unfolding bx by' using ok(2,4) by auto
  qed
  moreover have "block_bytes x \<subseteq> {1048576 * fst x ..< 1048576 * (fst x + 1)}"
    unfolding bx using ok(2) by (auto simp: x)
  ultimately show ?thesis ..
qed

lemma shm_sample_reachable:
  "shm_reachable 2 \<lparr>pages = (\<lambda>_. 0)(0 := 7), live = {(0, 2, 6), (0, 0, 5)}\<rparr>"
proof -
  let ?s1 = "\<lparr>pages = (\<lambda>_. 0)(0 := 3), live = {(0, 0, 5)}\<rparr>"
  have a: "page_attempt 5 0 = Some (0, 3)" and b: "page_attempt 6 3 = Some (2, 7)" by code_simp+
  have "shm_step 2 shm_init ?s1"
    using shm_step.alloc [of 0 2 5 shm_init 0 3] a
    by (simp add: shm_init_def FALCON_SHMEM_ALLOCATOR_FREE_LIST_COUNT_def)
  moreover have "shm_step 2 ?s1 \<lparr>pages = (\<lambda>_. 0)(0 := 7), live = {(0, 2, 6), (0, 0, 5)}\<rparr>"
    using shm_step.alloc [of 0 2 6 ?s1 2 7] b by (simp add: FALCON_SHMEM_ALLOCATOR_FREE_LIST_COUNT_def)
  ultimately show ?thesis by (meson shm_reachable.intros)
qed

theorem shm_live_blocks_disjoint_witness:
  "block_bytes (0, 2, 6) \<inter> block_bytes (0, 0, 5) = {}"
  using shm_live_blocks_disjoint [OF shm_sample_reachable, of "(0, 2, 6)" "(0, 0, 5)"] by simp

text \<open>
  C38. The shift of a block is computed in 32 bits, so in a segment of more than 4096 pages, which
  the setting \<open>falcon_connection_pool.shmem_size\<close> allows, the block handed out on page
  \<open>p + 4096\<close> has the address of the block on page \<open>p\<close>.
\<close>

theorem allocatedShift_wraps:
  "allocatedShift (p + 4096) b = allocatedShift p b"
proof -
  have "1048576 * (of_nat (p + 4096) :: u32) = 1048576 * of_nat p"
    by (simp add: distrib_left)
  then show ?thesis by (simp only: allocatedShift_def)
qed

subsection \<open>Sizes\<close>

lemma clzll_bounds:
  assumes "w \<noteq> 0"
  shows "clzll w < 64" and "2 ^ (63 - clzll w) \<le> unat w" and "unat w < 2 ^ (64 - clzll w)"
proof -
  let ?P = "\<lambda>i. \<not> bit w i" and ?xs = "rev [0..<64]"
  have nth: "?xs ! i = 63 - i" if "i < 64" for i using that by (simp add: rev_nth)
  from word64_nonzero_bit [OF assms] obtain n where n: "n < 64" "bit w n" by blast
  have "takeWhile ?P ?xs \<noteq> ?xs"
    using n unfolding takeWhile_eq_all_conv by auto
  then have "length (takeWhile ?P ?xs) \<noteq> length ?xs"
    by (metis takeWhile_eq_take take_all order_refl)
  moreover have "length (takeWhile ?P ?xs) \<le> length ?xs" by (rule length_takeWhile_le)
  ultimately show lt: "clzll w < 64" by (simp add: clzll_def)
  then have "bit w (63 - clzll w)"
    using nth_length_takeWhile [of ?P ?xs] nth [of "clzll w"] by (simp add: clzll_def)
  then have "unat w div 2 ^ (63 - clzll w) \<noteq> 0"
    unfolding bit_word_iff_unat by (rule contrapos_pn) simp
  then show "2 ^ (63 - clzll w) \<le> unat w" by (simp add: div_eq_0_iff not_less)
  have high: "\<not> bit w i" if "64 - clzll w \<le> i" for i
  proof (cases "i < 64")
    case True
    then have "63 - i < length (takeWhile ?P ?xs)" using that lt by (simp add: clzll_def)
    then have "?P (?xs ! (63 - i))"
      by (metis nth_mem set_takeWhileD takeWhile_nth)
    with True show ?thesis by (simp add: nth)
  qed (auto dest: bit_imp_le_length)
  then have "take_bit (64 - clzll w) w = w"
    by (simp add: bit_eq_iff bit_take_bit_iff) (meson not_le)
  then have "unat w mod 2 ^ (64 - clzll w) = unat w" by (metis unat_take_bit_mod)
  then show "unat w < 2 ^ (64 - clzll w)"
    by (metis mod_less_divisor zero_less_numeral zero_less_power)
qed

lemma ctzll_two_power: "k < 64 \<Longrightarrow> ctzll (2 ^ k) = k"
  using ctzll_bit(1) [of "2 ^ k"] by (auto simp: bit_exp_iff)

lemma GetNextPowerOfTwo_spec:
  assumes "0 < unat num" and "unat num < 2 ^ 63"
  shows "\<exists>k \<le> 63. GetNextPowerOfTwo num = 2 ^ k \<and> unat num \<le> 2 ^ k \<and> (\<forall>j < k. 2 ^ j < unat num)"
proof (cases "num = 1")
  case True
  then show ?thesis by (intro exI [of _ 0]) (simp add: GetNextPowerOfTwo_def)
next
  case False
  have "num \<noteq> 0" using assms(1) by auto
  have "\<not> bit num 63" using assms(2) by (simp add: bit_word_iff_unat)
  then have top: "num AND push_bit 63 1 = 0"
    using and_two_power_eq_0_iff [of 63 num] by simp
  have pred: "unat (num - 1) = unat num - 1"
    using assms(1) by (subst unat_sub_no_borrow) simp_all
  have "unat num \<noteq> 1" using False by (metis unat_1 word_unat_eq_iff)
  then have "num - 1 \<noteq> 0" using False by simp
  note b = clzll_bounds [OF this, unfolded pred]
  let ?k = "64 - clzll (num - 1)"
  have "?k \<le> 63"
  proof (rule ccontr)
    assume "\<not> ?k \<le> 63"
    then have "clzll (num - 1) = 0" by simp
    with b(2) assms(2) show False by simp
  qed
  moreover have "GetNextPowerOfTwo num = 2 ^ ?k"
    using top False \<open>num \<noteq> 0\<close> by (simp add: GetNextPowerOfTwo_def push_bit_eq_mult)
  moreover have "unat num \<le> 2 ^ ?k" using b(3) by simp
  moreover have "2 ^ j < unat num" if "j < ?k" for j
  proof -
    have "(2 :: nat) ^ j \<le> 2 ^ (63 - clzll (num - 1))" using that by (intro power_increasing) auto
    with b(2) \<open>unat num \<noteq> 1\<close> assms(1) show ?thesis by linarith
  qed
  ultimately show ?thesis by blast
qed

text \<open>
  C36. \<open>GetNextPowerOfTwo\<close> returns, for every number of which the top bit is clear, the least
  power of two that is not below it.
\<close>

theorem GetNextPowerOfTwo_least:
  assumes "0 < unat num" and "unat num < 2 ^ 63"
  shows "\<exists>k \<le> 63. GetNextPowerOfTwo num = 2 ^ k \<and> unat num \<le> 2 ^ k \<and> (\<forall>j < k. 2 ^ j < unat num)"
  using assms by (rule GetNextPowerOfTwo_spec)

theorem GetNextPowerOfTwo_least_witness:
  "\<exists>k \<le> 63. GetNextPowerOfTwo 40000 = 2 ^ k \<and> (40000 :: nat) \<le> 2 ^ k \<and> (\<forall>j < k. 2 ^ j < (40000 :: nat))"
  using GetNextPowerOfTwo_least [of 40000] by simp

lemma requiredSize_level:
  assumes "sz \<le> FALCON_SHMEM_ALLOCATOR_PAGE_SIZE - sizeof_MemoryHdr"
  obtains level where "level < 7" and "size_level (requiredSize sz) = level"
    and "requiredSize sz = 2 ^ (20 - level)" and "unat sz + 24 \<le> 2 ^ (20 - level)"
proof -
  have sz: "unat sz + 24 \<le> 2 ^ 20"
    using assms by (simp add: word_le_nat_alt FALCON_SHMEM_ALLOCATOR_PAGE_SIZE_def sizeof_MemoryHdr_def)
  have u: "unat (sz + 24) = unat sz + 24"
    using sz by (subst unat_add_no_overflow) simp_all
  have lev: "size_level (2 ^ (20 - l)) = l" if "l < 7" for l
  proof -
    have "ctzll FALCON_SHMEM_ALLOCATOR_PAGE_SIZE = 20"
      using ctzll_two_power [of 20] by (simp add: FALCON_SHMEM_ALLOCATOR_PAGE_SIZE_def)
    with that show ?thesis by (simp add: size_level_def ctzll_two_power)
  qed
  show ?thesis
  proof (cases "unat sz + 24 < 16384")
    case True
    then have "requiredSize sz = 2 ^ (20 - 6)"
      using u by (simp add: requiredSize_def sizeof_MemoryHdr_def word_less_nat_alt
          FALCON_SHMEM_ALLOCATOR_MIN_BLOCK_SIZE_def)
    with True lev [of 6] show ?thesis by (intro that [of 6]) simp_all
  next
    case False
    obtain k where k: "k \<le> 63" "GetNextPowerOfTwo (sz + 24) = 2 ^ k" "unat sz + 24 \<le> 2 ^ k"
        "\<forall>j < k. 2 ^ j < unat sz + 24"
      using GetNextPowerOfTwo_spec [of "sz + 24"] u sz by auto
    have "requiredSize sz = 2 ^ k"
      using False u k(2) by (simp add: requiredSize_def sizeof_MemoryHdr_def word_less_nat_alt
          FALCON_SHMEM_ALLOCATOR_MIN_BLOCK_SIZE_def)
    moreover have "k \<le> 20" using k(4) sz by (metis not_le order.strict_trans2 less_irrefl)
    moreover have "14 \<le> k"
    proof (rule ccontr)
      assume "\<not> 14 \<le> k"
      then have "(2 :: nat) ^ k \<le> 2 ^ 13" by (intro power_increasing) auto
      with k(3) False show False by simp
    qed
    ultimately show ?thesis
      using k(3) lev [of "20 - k"] by (intro that [of "20 - k"]) simp_all
  qed
qed

subsection \<open>Allocation and release\<close>

definition shm_wf :: "FalconShmemAllocator \<Rightarrow> bool" where
  "shm_wf a \<longleftrightarrow> length (pageCntlArray a) = unat (pageCount a) \<and>
     length (freeListHint a) = FALCON_SHMEM_ALLOCATOR_FREE_LIST_COUNT"

lemma scan_pages_Some:
  "scan_pages level a q = Some (p, b, d) \<Longrightarrow>
    q \<le> p \<and> p < unat (pageCount a) \<and> page_attempt level (pageCntlArray a ! p) = Some (b, d)"
  by (induction level a q rule: scan_pages.induct)
    (subst (asm) (2) scan_pages.simps, auto split: if_splits option.splits)

lemma scan_pages_None:
  "scan_pages level a q = None \<Longrightarrow> q \<le> p \<Longrightarrow> p < unat (pageCount a) \<Longrightarrow>
    page_attempt level (pageCntlArray a ! p) = None"
proof (induction level a q rule: scan_pages.induct)
  case (1 level a q)
  from 1(2-4) have "page_attempt level (pageCntlArray a ! q) = None"
    and "scan_pages level a (Suc q) = None"
    by (subst (asm) scan_pages.simps; auto split: if_splits option.splits)+
  with 1 show ?case by (cases "p = q") (auto simp: le_Suc_eq)
qed

lemma allocatedShift_lt: "unat (allocatedShift p b) < 2 ^ 32"
proof -
  have "unat (ucast (w :: u32) :: u64) < 2 ^ 32" for w
    using unsigned_less [of w, where 'a = nat] by (simp add: unsigned_ucast_eq take_bit_nat_eq_self)
  then show ?thesis by (simp add: allocatedShift_def)
qed

lemma unat_allocatedShift_hdr: "unat (allocatedShift p b + sizeof_MemoryHdr) = unat (allocatedShift p b) + 24"
  using allocatedShift_lt [of p b]
  by (subst unat_add_no_overflow) (simp_all add: sizeof_MemoryHdr_def)

lemma finish_alloc_fst:
  "fst (finish_alloc fs start level sz (p, b, d) a) = allocatedShift p b + sizeof_MemoryHdr"
proof -
  have "allocatedShift p b \<noteq> - 1" using allocatedShift_lt [of p b]
    by (auto simp: unsigned_minus_1_eq_mask mask_eq_exp_minus_1)
  then show ?thesis by (simp add: finish_alloc_def Let_def)
qed

lemma finish_alloc_snd:
  "pageCntlArray (snd (finish_alloc fs start level sz (p, b, d) a)) = (pageCntlArray a)[p := d]"
  "hdr_capacity (hdrs (snd (finish_alloc fs start level sz (p, b, d) a)) (allocatedShift p b)) = requiredSize sz"
  "pageCount (snd (finish_alloc fs start level sz (p, b, d) a)) = pageCount a"
  "length (freeListHint (snd (finish_alloc fs start level sz (p, b, d) a))) = length (freeListHint a)"
proof -
  have "allocatedShift p b \<noteq> - 1" using allocatedShift_lt [of p b]
    by (auto simp: unsigned_minus_1_eq_mask mask_eq_exp_minus_1)
  then show
    "pageCntlArray (snd (finish_alloc fs start level sz (p, b, d) a)) = (pageCntlArray a)[p := d]"
    "hdr_capacity (hdrs (snd (finish_alloc fs start level sz (p, b, d) a)) (allocatedShift p b)) = requiredSize sz"
    "pageCount (snd (finish_alloc fs start level sz (p, b, d) a)) = pageCount a"
    "length (freeListHint (snd (finish_alloc fs start level sz (p, b, d) a))) = length (freeListHint a)"
    by (simp_all add: finish_alloc_def Let_def)
qed

lemma Malloc_cases:
  assumes "sz \<le> FALCON_SHMEM_ALLOCATOR_PAGE_SIZE - sizeof_MemoryHdr"
  obtains (found) fs start p b d where "p < unat (pageCount a)"
      and "page_attempt (size_level (requiredSize sz)) (pageCntlArray a ! p) = Some (b, d)"
      and "FalconShmemAllocatorMalloc a sz =
        finish_alloc fs start (size_level (requiredSize sz)) sz (p, b, d) a"
  | (full) "\<And>p. p < unat (pageCount a) \<Longrightarrow>
        page_attempt (size_level (requiredSize sz)) (pageCntlArray a ! p) = None"
      and "FalconShmemAllocatorMalloc a sz = (0, a)"
proof -
  let ?l = "size_level (requiredSize sz)"
  let ?q = "unat (ucast (freeListHint a ! ?l) :: u32)"
  have le: "\<not> sz > FALCON_SHMEM_ALLOCATOR_PAGE_SIZE - sizeof_MemoryHdr" using assms by simp
  show ?thesis
  proof (cases "scan_pages ?l a ?q")
    case (Some r)
    obtain p b d where r: "r = (p, b, d)" by (metis prod_cases3)
    with Some le show ?thesis
      using scan_pages_Some [of ?l a ?q p b d]
      by (intro found) (auto simp: FalconShmemAllocatorMalloc_def Let_def)
  next
    case None
    show ?thesis
    proof (cases "scan_pages ?l a 0")
      case (Some r)
      obtain p b d where r: "r = (p, b, d)" by (metis prod_cases3)
      with Some None le show ?thesis
        using scan_pages_Some [of ?l a 0 p b d]
        by (intro found) (auto simp: FalconShmemAllocatorMalloc_def Let_def)
    next
      case None
      note no_block = None
      show ?thesis
        by (rule full)
          (use scan_pages_None [OF no_block] \<open>scan_pages ?l a ?q = None\<close> no_block le in
            \<open>simp_all add: FalconShmemAllocatorMalloc_def Let_def\<close>)
    qed
  qed
qed

text \<open>
  C19. \<open>FalconShmemAllocatorMalloc\<close> returns 0, and changes nothing, exactly when the size is above
  the limit or no page has a free aligned block of the level of the size.  Otherwise there are
  a page and an aligned block in it, free before, such that the shift returned is the one of
  that block past its header, the page word gains exactly the bits of the block, every other
  page word is kept, and the block, whose size goes into the header, holds header and data.
\<close>

theorem FalconShmemAllocatorMalloc_correct:
  assumes "shm_wf a" and "FalconShmemAllocatorMalloc a sz = (sh, a')"
  defines "level \<equiv> size_level (requiredSize sz)"
  shows "(sh = 0 \<longleftrightarrow> sz > FALCON_SHMEM_ALLOCATOR_PAGE_SIZE - sizeof_MemoryHdr \<or>
      (\<forall>p < unat (pageCount a). \<forall>b < 64. b mod blocks level = 0 \<longrightarrow>
         block_used level (pageCntlArray a ! p) b)) \<and>
    (sh = 0 \<longrightarrow> a' = a) \<and>
    (sh \<noteq> 0 \<longrightarrow> (\<exists>p b d. p < unat (pageCount a) \<and> b mod blocks level = 0 \<and> b + blocks level \<le> 64 \<and>
      \<not> block_used level (pageCntlArray a ! p) b \<and>
      sh = allocatedShift p b + sizeof_MemoryHdr \<and>
      pageCntlArray a' = (pageCntlArray a)[p := d] \<and>
      (\<forall>i. bit d i \<longleftrightarrow> bit (pageCntlArray a ! p) i \<or> b \<le> i \<and> i < b + blocks level) \<and>
      unat (hdr_capacity (hdrs a' (allocatedShift p b))) = 16384 * blocks level \<and>
      unat sz + 24 \<le> 16384 * blocks level))"
proof (cases "sz > FALCON_SHMEM_ALLOCATOR_PAGE_SIZE - sizeof_MemoryHdr")
  case True
  then show ?thesis using assms(2) by (simp add: FalconShmemAllocatorMalloc_def)
next
  case False
  then have le: "sz \<le> FALCON_SHMEM_ALLOCATOR_PAGE_SIZE - sizeof_MemoryHdr" by simp
  from requiredSize_level [OF le] have lev: "level < 7" "requiredSize sz = 2 ^ (20 - level)"
    "unat sz + 24 \<le> 2 ^ (20 - level)" unfolding level_def by metis+
  have cap: "unat (requiredSize sz) = 16384 * blocks level" and pow: "(2 :: nat) ^ (20 - level) = 16384 * blocks level"
  proof -
    have "(16384 :: nat) * blocks level = 2 ^ (14 + (6 - level))" by (simp add: power_add)
    also have "14 + (6 - level) = 20 - level" using lev(1) by simp
    finally show pow: "(2 :: nat) ^ (20 - level) = 16384 * blocks level" by simp
    show "unat (requiredSize sz) = 16384 * blocks level"
      using lev(2) unat_two_power [of "20 - level", where 'a = 64] pow by simp
  qed
  from le show ?thesis
  proof (cases rule: Malloc_cases [of sz a])
    case (found fs start p b d)
    note pa = page_attempt_Some [OF lev(1) found(2) [folded level_def]]
    have sh: "sh = allocatedShift p b + sizeof_MemoryHdr"
      and a': "a' = snd (finish_alloc fs start level sz (p, b, d) a)"
      using assms(2) found(3) finish_alloc_fst [of fs start level sz p b d a]
      by (simp_all add: level_def) 
    have ne: "sh \<noteq> 0" using unat_allocatedShift_hdr [of p b] sh by auto
    have "b < 64" using pa(2) zero_less_power [of "2 :: nat" "6 - level"] by linarith
    have free: "\<not> (\<forall>p < unat (pageCount a). \<forall>b < 64. b mod blocks level = 0 \<longrightarrow>
         block_used level (pageCntlArray a ! p) b)"
    proof
      assume "\<forall>p < unat (pageCount a). \<forall>b < 64. b mod blocks level = 0 \<longrightarrow>
         block_used level (pageCntlArray a ! p) b"
      with found(1) \<open>b < 64\<close> pa(1) have "block_used level (pageCntlArray a ! p) b" by simp
      with pa(3) show False ..
    qed
    have fits:  "unat sz + 24 \<le> 16384 * blocks level"
      using lev(3) unfolding pow .
    have "\<exists>p b d. p < unat (pageCount a) \<and> b mod blocks level = 0 \<and> b + blocks level \<le> 64 \<and>
      \<not> block_used level (pageCntlArray a ! p) b \<and>
      sh = allocatedShift p b + sizeof_MemoryHdr \<and>
      pageCntlArray a' = (pageCntlArray a)[p := d] \<and>
      (\<forall>i. bit d i \<longleftrightarrow> bit (pageCntlArray a ! p) i \<or> b \<le> i \<and> i < b + blocks level) \<and>
      unat (hdr_capacity (hdrs a' (allocatedShift p b))) = 16384 * blocks level \<and>
      unat sz + 24 \<le> 16384 * blocks level"
      by (intro exI conjI allI) (rule found(1) pa sh fits | simp add: a' finish_alloc_snd cap)+
    with False ne free show ?thesis by blast
  next
    case full
    then show ?thesis
      using assms(2) page_attempt_None_iff [OF lev(1)] unfolding level_def by simp
  qed
qed

definition shm_sample_alloc :: FalconShmemAllocator where
  "shm_sample_alloc = \<lparr>shmem_size = 1049728, pageCount = 1, signatureCounter = 0,
     freeListHint = replicate 7 0, pageCntlArray = [3],
     hdrs = (\<lambda>_. \<lparr>hdr_signature = 0, hdr_size = 0, hdr_capacity = 0\<rparr>)\<rparr>"

theorem FalconShmemAllocatorMalloc_correct_witness:
  "shm_wf shm_sample_alloc \<and> fst (FalconShmemAllocatorMalloc shm_sample_alloc 100) \<noteq> 0"
proof -
  obtain sh a' where m: "FalconShmemAllocatorMalloc shm_sample_alloc 100 = (sh, a')" by fastforce
  have wf: "shm_wf shm_sample_alloc"
    by (simp add: shm_wf_def shm_sample_alloc_def FALCON_SHMEM_ALLOCATOR_FREE_LIST_COUNT_def)
  have lev: "size_level (requiredSize 100) = 6" by code_simp
  have "\<not> block_used 6 3 2"
    by (auto simp: block_used_def bit_numeral_rec le_Suc_eq less_Suc_eq numeral_2_eq_2 split: nat.splits)
  with FalconShmemAllocatorMalloc_correct [OF wf m] wf m show ?thesis
    by (auto simp: lev shm_sample_alloc_def FALCON_SHMEM_ALLOCATOR_PAGE_SIZE_def sizeof_MemoryHdr_def)
qed

lemma free_page_block:
  assumes "p < 4096" and "b < 64"
  shows "allocatedShift p b div FALCON_SHMEM_ALLOCATOR_PAGE_SIZE = of_nat p"
    and "allocatedShift p b div FALCON_SHMEM_ALLOCATOR_MIN_BLOCK_SIZE - of_nat p * 64 = of_nat b"
proof -
  note u = allocatedShift_exact [OF assms]
  have "allocatedShift p b div FALCON_SHMEM_ALLOCATOR_PAGE_SIZE = of_nat ((1048576 * p + 16384 * b) div 1048576)"
    by (subst word_arith_nat_div) (simp add: u FALCON_SHMEM_ALLOCATOR_PAGE_SIZE_def)
  also have "(1048576 * p + 16384 * b) div 1048576 = p" using assms(2) by simp
  finally show "allocatedShift p b div FALCON_SHMEM_ALLOCATOR_PAGE_SIZE = of_nat p" .
  have "allocatedShift p b div FALCON_SHMEM_ALLOCATOR_MIN_BLOCK_SIZE = of_nat ((1048576 * p + 16384 * b) div 16384)"
    by (subst word_arith_nat_div) (simp add: u FALCON_SHMEM_ALLOCATOR_MIN_BLOCK_SIZE_def)
  also have "(1048576 * p + 16384 * b) div 16384 = 64 * p + b" by simp
  finally show "allocatedShift p b div FALCON_SHMEM_ALLOCATOR_MIN_BLOCK_SIZE - of_nat p * 64 = of_nat b"
    by simp
qed

lemma clear_block:
  assumes "level < 7" and "page_attempt level w = Some (b, d)"
  shows "d AND NOT (push_bit b (LevelBlockOccupyBitMap ! level)) = w"
proof (rule bit_eqI)
  fix i assume "possible_bit TYPE(64 word) i"
  note pa = page_attempt_Some [OF assms]
  from \<open>possible_bit TYPE(64 word) i\<close> pa(3)
  show "bit (d AND NOT (push_bit b (LevelBlockOccupyBitMap ! level))) i = bit w i"
    by (auto simp: bit_and_iff bit_not_iff occupy_bit [OF assms(1) pa(2)] pa(4) block_used_def)
qed

lemma level_capacity:
  assumes "level < 7"
  shows "\<not> (2 ^ (20 - level) < FALCON_SHMEM_ALLOCATOR_MIN_BLOCK_SIZE)"
    and "\<not> (2 ^ (20 - level) > FALCON_SHMEM_ALLOCATOR_PAGE_SIZE)"
    and "drop_bit level FALCON_SHMEM_ALLOCATOR_PAGE_SIZE = 2 ^ (20 - level)"
proof -
  have "level = 0 \<or> level = 1 \<or> level = 2 \<or> level = 3 \<or> level = 4 \<or> level = 5 \<or> level = 6"
    using assms by linarith
  then show "\<not> (2 ^ (20 - level) < FALCON_SHMEM_ALLOCATOR_MIN_BLOCK_SIZE)"
    "\<not> (2 ^ (20 - level) > FALCON_SHMEM_ALLOCATOR_PAGE_SIZE)"
    "drop_bit level FALCON_SHMEM_ALLOCATOR_PAGE_SIZE = 2 ^ (20 - level)"
    by (elim disjE; simp add: FALCON_SHMEM_ALLOCATOR_MIN_BLOCK_SIZE_def FALCON_SHMEM_ALLOCATOR_PAGE_SIZE_def)+
qed

text \<open>
  C26. Releasing a block that was just allocated gives back the page words of before, in a
  segment of at most 4096 pages.
\<close>

theorem FalconShmemAllocator_malloc_free:
  assumes "shm_wf a" and "unat (pageCount a) \<le> 4096"
    and "FalconShmemAllocatorMalloc a sz = (sh, a')" and "sh \<noteq> 0"
  shows "pageCntlArray (FalconShmemAllocatorFree a' sh) = pageCntlArray a"
proof -
  have le: "sz \<le> FALCON_SHMEM_ALLOCATOR_PAGE_SIZE - sizeof_MemoryHdr"
    using assms(3,4) by (auto simp: FalconShmemAllocatorMalloc_def not_less split: if_splits)
  from requiredSize_level [OF le] obtain level where lev: "level < 7"
    "size_level (requiredSize sz) = level" "requiredSize sz = 2 ^ (20 - level)" by metis
  from le show ?thesis
  proof (cases rule: Malloc_cases [of sz a])
    case (found fs start p b d)
    note pa = page_attempt_Some [OF lev(1) found(2) [unfolded lev(2)]]
    have "p < 4096" "b < 64"
      using found(1) assms(2) pa(2) zero_less_power [of "2 :: nat" "6 - level"] by linarith+
    note fp = free_page_block [OF this]
    have sh: "sh - sizeof_MemoryHdr = allocatedShift p b"
      and a': "a' = snd (finish_alloc fs start level sz (p, b, d) a)"
      using assms(3) found(3) finish_alloc_fst [of fs start level sz p b d a]
      by (simp_all add: lev(2))
    have cap: "hdr_capacity (hdrs a' (allocatedShift p b)) = 2 ^ (20 - level)"
      by (simp add: a' finish_alloc_snd lev(3))
    have "unat (of_nat b :: u32) = b" "unat (of_nat p :: u64) = p"
      using \<open>p < 4096\<close> \<open>b < 64\<close> by (simp_all add: unsigned_of_nat take_bit_nat_eq_self)
    moreover have "ucast (of_nat b :: u64) = (of_nat b :: u32)"
      using \<open>b < 64\<close> by (simp add: unsigned_of_nat take_bit_nat_eq_self)
    ultimately show ?thesis
      using clear_block [OF lev(1) found(2) [unfolded lev(2)]] found(1) assms(1) level_capacity [OF lev(1)]
      by (simp add: FalconShmemAllocatorFree_def sh cap fp lev(3) lev(2) [unfolded lev(3)] Let_def
          a' finish_alloc_snd shm_wf_def)
  next
    case full
    then show ?thesis using assms(3,4) by simp
  qed
qed

theorem FalconShmemAllocator_malloc_free_witness:
  "\<exists>sh a'. FalconShmemAllocatorMalloc shm_sample_alloc 100 = (sh, a') \<and> sh = 32792 \<and>
     pageCntlArray a' = [7] \<and> pageCntlArray (FalconShmemAllocatorFree a' sh) = [3]"
proof -
  let ?m = "FalconShmemAllocatorMalloc shm_sample_alloc 100"
  have wf: "shm_wf shm_sample_alloc" "unat (pageCount shm_sample_alloc) \<le> 4096"
    by (simp_all add: shm_wf_def shm_sample_alloc_def FALCON_SHMEM_ALLOCATOR_FREE_LIST_COUNT_def)
  have lev: "size_level (requiredSize 100) = 6" and pa: "page_attempt 6 3 = Some (2, 7)" by code_simp+
  have m: "fst ?m = 32792" "pageCntlArray (snd ?m) = [7]"
    by (simp_all add: FalconShmemAllocatorMalloc_def lev pa shm_sample_alloc_def scan_pages.simps
        finish_alloc_def allocatedShift_def Let_def sizeof_MemoryHdr_def FALCON_SHMEM_ALLOCATOR_PAGE_SIZE_def)
  then obtain a' where a': "?m = (32792, a')" "pageCntlArray a' = [7]" by (metis prod.collapse)
  then show ?thesis
    using FalconShmemAllocator_malloc_free [OF wf a'(1)] by (simp add: shm_sample_alloc_def)
qed

end
