(* ===== verification/Meta_Ids.thy ===== *)
theory Meta_Ids
  imports Error_Code
begin

text \<open>
  Identifiers and names of the metadata engine: the partition of a file name and the inode-table
  key (\<open>falcon/metadb/meta_handle_helper.c\<close>), the shard hash and the inode numbers
  (\<open>falcon/utils/utils.c\<close>), the sequence cache and the path check (\<open>falcon/utils/path_parse.c\<close>)
  and the order on paths (\<open>falcon/utils/utils_standalone.c\<close>).

  PostgreSQL's \<open>hash_bytes_uint32\<close> and \<open>nextval\<close> are parameters.  A C string is a \<open>string\<close>
  without the terminating zero.
\<close>

subsection \<open>Partition of a name, inode-table key, shard hash\<close>

definition FILENAMELENGTH :: nat where
  "FILENAMELENGTH = 256"

definition PART_ID_BIT_COUNT :: nat where
  "PART_ID_BIT_COUNT = 13"

definition PART_ID_MASK :: "'a::len word" where
  "PART_ID_MASK = mask 13"

text \<open>A \<open>char\<close> is signed: it is extended with its sign before the addition.\<close>

definition HashPartId :: "string \<Rightarrow> u16" where
  "HashPartId fileName =
    foldl (\<lambda>hashValue c. hashValue * 31 + scast (of_char c :: u8)) 0 (take FILENAMELENGTH fileName)
      AND PART_ID_MASK"

definition CombineParentIdWithPartId :: "u64 \<Rightarrow> u16 \<Rightarrow> u64" where
  "CombineParentIdWithPartId parent_id part_id = push_bit PART_ID_BIT_COUNT parent_id OR ucast part_id"

definition GenerateInodeIdBySeqAndNodeId :: "u64 \<Rightarrow> u32 \<Rightarrow> u64" where
  "GenerateInodeIdBySeqAndNodeId seq nodeId = push_bit 12 seq OR ucast (nodeId AND 0xFFF)"

definition HashShard :: "(u32 \<Rightarrow> u32) \<Rightarrow> u64 \<Rightarrow> int" where
  "HashShard hash_bytes_uint32 parentId_partId =
    (let val = parentId_partId AND PART_ID_MASK;
         lohalf = (ucast val :: u32);
         hihalf = (ucast (signed_drop_bit 32 val) :: u32);
         lohalf = lohalf XOR (if 0 \<le> sint val then hihalf else NOT hihalf)
     in sint (hash_bytes_uint32 lohalf AND NOT (push_bit 31 1)))"

subsection \<open>The sequence cache\<close>

text \<open>
  The two static variables of \<open>GetNextSequenceNum\<close>, one pair per backend.  \<open>nextval\<close> takes the
  state of the shared sequence to a value and the next state.
\<close>

record seq_cache =
  remainNumberCount :: nat
  currentSequenceNumber :: u64

definition seq_cache_init :: seq_cache where
  "seq_cache_init = \<lparr>remainNumberCount = 0, currentSequenceNumber = 0\<rparr>"

definition GetNextSequenceNum :: "('s \<Rightarrow> u64 \<times> 's) \<Rightarrow> seq_cache \<Rightarrow> 's \<Rightarrow> u64 \<times> seq_cache \<times> 's" where
  "GetNextSequenceNum nextval c q =
    (let (c1, q1) = (if remainNumberCount c = 0
           then (let (v, q') = nextval q in
                 (\<lparr>remainNumberCount = 32, currentSequenceNumber = v\<rparr>, q'))
           else (c, q));
         c2 = \<lparr>remainNumberCount = remainNumberCount c1 - 1,
               currentSequenceNumber = currentSequenceNumber c1 + 1\<rparr>
     in (currentSequenceNumber c2 - 1, c2, q1))"

text \<open>The calls of several backends in the order in which they happen, by backend.\<close>

fun sequence_run :: "('s \<Rightarrow> u64 \<times> 's) \<Rightarrow> (nat \<Rightarrow> seq_cache) \<Rightarrow> 's \<Rightarrow> nat list \<Rightarrow> u64 list" where
  "sequence_run nextval cs q [] = []"
| "sequence_run nextval cs q (p # ps) =
    (let (v, c, q') = GetNextSequenceNum nextval (cs p) q in v # sequence_run nextval (cs(p := c)) q' ps)"

subsection \<open>Paths\<close>

definition VERIFY_PATH_VALIDITY_REQUIREMENT_MUST_BE_DIRECTORY :: u32 where
  "VERIFY_PATH_VALIDITY_REQUIREMENT_MUST_BE_DIRECTORY = 1"

definition VERIFY_PATH_VALIDITY_REQUIREMENT_MUST_BE_FILE :: u32 where
  "VERIFY_PATH_VALIDITY_REQUIREMENT_MUST_BE_FILE = 2"

definition VERIFY_PATH_VALIDITY_PROPERTY_CAN_BE_DIRECTORY :: u32 where
  "VERIFY_PATH_VALIDITY_PROPERTY_CAN_BE_DIRECTORY = 1"

definition VERIFY_PATH_VALIDITY_PROPERTY_CAN_BE_FILE :: u32 where
  "VERIFY_PATH_VALIDITY_PROPERTY_CAN_BE_FILE = 2"

text \<open>The null pointer is \<open>None\<close>; the result is the code and \<open>*property\<close>.\<close>

definition VerifyPathValidity :: "string option \<Rightarrow> u32 \<Rightarrow> FalconErrorCode \<times> u32" where
  "VerifyPathValidity path requirement =
    (case path of
       None \<Rightarrow> (PATH_IS_INVALID, 0)
     | Some p \<Rightarrow>
        (if p = [] \<or> hd p \<noteq> CHR ''/'' then (PATH_IS_INVALID, 0)
         else
           (let property = (if last p = CHR ''/''
                  then VERIFY_PATH_VALIDITY_PROPERTY_CAN_BE_DIRECTORY
                  else VERIFY_PATH_VALIDITY_PROPERTY_CAN_BE_DIRECTORY OR
                       VERIFY_PATH_VALIDITY_PROPERTY_CAN_BE_FILE) in
            if requirement AND VERIFY_PATH_VALIDITY_REQUIREMENT_MUST_BE_DIRECTORY \<noteq> 0 \<and>
               property AND VERIFY_PATH_VALIDITY_PROPERTY_CAN_BE_DIRECTORY = 0
            then (PATH_VERIFY_FAILED, property)
            else if requirement AND VERIFY_PATH_VALIDITY_REQUIREMENT_MUST_BE_FILE \<noteq> 0 \<and>
               property AND VERIFY_PATH_VALIDITY_PROPERTY_CAN_BE_FILE = 0
            then (PATH_VERIFY_FAILED, property)
            else (SUCCESS, property))))"

text \<open>The loop runs until the characters differ or the first path ends.\<close>

fun pathcmp :: "string \<Rightarrow> string \<Rightarrow> int" where
  "pathcmp [] p2 = (case p2 of [] \<Rightarrow> 0 | c2 # _ \<Rightarrow> 0 - of_char c2)"
| "pathcmp (c1 # p1) [] = 1"
| "pathcmp (c1 # p1) (c2 # p2) =
    (if c1 = c2 then pathcmp p1 p2
     else if c2 = CHR ''/'' then 1
     else if c1 = CHR ''/'' then -1
     else of_char c1 - of_char c2)"

subsection \<open>Properties of the keys\<close>

lemma unat_HashPartId: "unat (HashPartId n) < 2 ^ 13"
  unfolding HashPartId_def PART_ID_MASK_def unat_and_mask by simp

lemma unat_Combine:
  assumes "unat part < 2 ^ 13" and "unat parent < 2 ^ 51"
  shows "unat (CombineParentIdWithPartId parent part) = unat parent * 2 ^ 13 + unat part"
proof -
  have "unat (ucast part :: u64) = unat part"
    using assms(1) by (intro unat_ucast_up) simp
  then show ?thesis
    using assms unat_push_bit_or [of "ucast part :: u64" 13 parent]
    by (simp add: CombineParentIdWithPartId_def PART_ID_BIT_COUNT_def)
qed

lemma packed_eq_iff:
  fixes x y a b :: nat
  shows "x < 8192 \<Longrightarrow> y < 8192 \<Longrightarrow> a * 8192 + x = b * 8192 + y \<longleftrightarrow> a = b \<and> x = y"
  by (cases a b rule: linorder_cases) auto

lemma packed_range_iff:
  fixes y a b :: nat
  shows "y < 8192 \<Longrightarrow> a * 8192 \<le> b * 8192 + y \<and> b * 8192 + y \<le> a * 8192 + 8191 \<longleftrightarrow> a = b"
  by (cases a b rule: linorder_cases) auto

text \<open>
  C30. The inode-table key of a file is injective in its directory and its partition: for inode
  numbers below \<open>2 ^ 51\<close> two files have the same \<open>parentid_partid\<close> only when they are in the
  same directory and their names have the same partition.  The keys of one directory fill
  exactly the interval that a directory listing scans.
\<close>

theorem CombineParentIdWithPartId_inj:
  assumes "unat d < 2 ^ 51" and "unat d' < 2 ^ 51"
  shows "(CombineParentIdWithPartId d (HashPartId n) = CombineParentIdWithPartId d' (HashPartId n')
      \<longleftrightarrow> d = d' \<and> HashPartId n = HashPartId n') \<and>
    (CombineParentIdWithPartId d 0 \<le> CombineParentIdWithPartId d' (HashPartId n') \<and>
     CombineParentIdWithPartId d' (HashPartId n') \<le> CombineParentIdWithPartId d PART_ID_MASK \<longleftrightarrow> d = d')"
proof -
  have mask: "unat (PART_ID_MASK :: u16) = 2 ^ 13 - 1"
    by (simp add: PART_ID_MASK_def mask_eq_exp_minus_1)
  note h = unat_HashPartId [of n] unat_HashPartId [of n']
  note u = unat_Combine [OF h(1) assms(1)] unat_Combine [OF h(2) assms(2)]
    unat_Combine [of 0 d, OF _ assms(1)] unat_Combine [of PART_ID_MASK d, OF _ assms(1), unfolded mask]
  note packed = packed_eq_iff [of "unat (HashPartId n)" "unat (HashPartId n')" "unat d" "unat d'"]
    packed_range_iff [of "unat (HashPartId n')" "unat d" "unat d'"]
  show ?thesis
    using u h packed by (simp add: word_le_nat_alt word_unat_eq_iff)
qed

theorem CombineParentIdWithPartId_inj_witness:
  "CombineParentIdWithPartId 5 (HashPartId ''a'') \<noteq> CombineParentIdWithPartId 6 (HashPartId ''b'')"
  using CombineParentIdWithPartId_inj [of 5 6 "''a''" "''b''"] by simp

lemma sint_clear_sign:
  fixes w :: u32
  shows "0 \<le> sint (w AND NOT (push_bit 31 1)) \<and> sint (w AND NOT (push_bit 31 1)) < 2 ^ 31"
proof -
  have "\<not> bit (w AND NOT (push_bit 31 1)) 31" by (simp add: bit_and_iff bit_not_iff bit_push_bit_iff)
  then show ?thesis
    using bit_last_iff [of "w AND NOT (push_bit 31 1)"] sint_lt [of "w AND NOT (push_bit 31 1)"]
    by simp
qed

lemma HashShard_range: "0 \<le> HashShard h w \<and> HashShard h w < 2 ^ 31"
  unfolding HashShard_def Let_def by (rule sint_clear_sign)

text \<open>
  C31. The shard hash is a non-negative 32-bit number that depends on the partition of the name
  alone, never on the directory: all files with one name are in the same shard.
\<close>

theorem HashShard_by_name:
  assumes "unat d < 2 ^ 51"
  shows "0 \<le> HashShard h (CombineParentIdWithPartId d (HashPartId n)) \<and>
    HashShard h (CombineParentIdWithPartId d (HashPartId n)) < 2 ^ 31 \<and>
    HashShard h (CombineParentIdWithPartId d (HashPartId n)) = HashShard h (ucast (HashPartId n))"
proof -
  have "CombineParentIdWithPartId d (HashPartId n) AND PART_ID_MASK = ucast (HashPartId n) AND PART_ID_MASK"
  proof -
    have "unat (CombineParentIdWithPartId d (HashPartId n) AND PART_ID_MASK) = unat (ucast (HashPartId n) AND (PART_ID_MASK :: u64))"
      using unat_Combine [OF unat_HashPartId assms, of n] unat_HashPartId [of n]
      by (simp add: PART_ID_MASK_def unat_and_mask unat_ucast_up)
    then show ?thesis by (simp add: word_unat_eq_iff)
  qed
  then have "HashShard h (CombineParentIdWithPartId d (HashPartId n)) = HashShard h (ucast (HashPartId n))"
    by (simp add: HashShard_def)
  with HashShard_range show ?thesis by simp
qed

theorem HashShard_by_name_witness:
  "HashShard (\<lambda>w. w + 7) (CombineParentIdWithPartId 5 (HashPartId ''a'')) =
   HashShard (\<lambda>w. w + 7) (ucast (HashPartId ''a''))"
  using HashShard_by_name [of 5 "\<lambda>w. w + 7" "''a''"] by simp

text \<open>
  C35. Inode numbers of different servers, or of one server for different sequence numbers, are
  different, as long as sequence numbers stay below \<open>2 ^ 52\<close> and server ids below 4096.
\<close>

theorem GenerateInodeIdBySeqAndNodeId_inj:
  assumes "unat s < 2 ^ 52" and "unat s' < 2 ^ 52" and "unat n < 4096" and "unat n' < 4096"
  shows "GenerateInodeIdBySeqAndNodeId s n = GenerateInodeIdBySeqAndNodeId s' n' \<longleftrightarrow> s = s' \<and> n = n'"
proof -
  have u: "unat (GenerateInodeIdBySeqAndNodeId s n) = unat s * 4096 + unat n"
    if "unat s < 2 ^ 52" "unat n < 4096" for s :: u64 and n :: u32
  proof -
    have "(0xFFF :: u32) = mask 12" by (simp add: mask_eq_exp_minus_1)
    then have "unat (n AND 0xFFF) = unat n" using that(2) by (simp only: unat_and_mask) simp
    then have "unat (ucast (n AND 0xFFF) :: u64) = unat n" using that(2) by (simp add: unat_ucast_up)
    then show ?thesis
      using that unat_push_bit_or [of "ucast (n AND 0xFFF) :: u64" 12 s]
      by (simp add: GenerateInodeIdBySeqAndNodeId_def)
  qed
  have "unat s * 4096 + unat n = unat s' * 4096 + unat n' \<longleftrightarrow> unat s = unat s' \<and> unat n = unat n'"
    using assms(3,4) by (cases "unat s" "unat s'" rule: linorder_cases) auto
  then show ?thesis
    using u [OF assms(1,3)] u [OF assms(2,4)] by (simp add: word_unat_eq_iff)
qed

theorem GenerateInodeIdBySeqAndNodeId_inj_witness:
  "GenerateInodeIdBySeqAndNodeId 3 1 \<noteq> GenerateInodeIdBySeqAndNodeId 3 2"
  using GenerateInodeIdBySeqAndNodeId_inj [of 3 3 1 2] by simp

subsection \<open>The sequence numbers of concurrent backends\<close>

text \<open>What the code relies on of the sequence: it is created with \<open>INCREMENT BY 32\<close>.\<close>

definition seq_increments :: "('s \<Rightarrow> u64 \<times> 's) \<Rightarrow> 's \<Rightarrow> u64 \<Rightarrow> bool" where
  "seq_increments nextval q a \<longleftrightarrow>
    (\<forall>k. fst (nextval (((\<lambda>q. snd (nextval q)) ^^ k) q)) = a + of_nat (32 * k))"

text \<open>
  Offsets not yet given out: backend \<open>p\<close> owns the next \<open>remainNumberCount\<close> of them from \<open>pos p\<close>
  on, the sequence has those from \<open>32 * m\<close> on.
\<close>

definition seq_own :: "(nat \<Rightarrow> nat) \<Rightarrow> (nat \<Rightarrow> seq_cache) \<Rightarrow> nat \<Rightarrow> nat set" where
  "seq_own pos cs p = {pos p ..< pos p + remainNumberCount (cs p)}"

definition seq_avail :: "nat \<Rightarrow> (nat \<Rightarrow> nat) \<Rightarrow> (nat \<Rightarrow> seq_cache) \<Rightarrow> nat set" where
  "seq_avail m pos cs = {32 * m ..} \<union> (\<Union>p. seq_own pos cs p)"

definition seq_inv :: "u64 \<Rightarrow> nat \<Rightarrow> (nat \<Rightarrow> nat) \<Rightarrow> (nat \<Rightarrow> seq_cache) \<Rightarrow> bool" where
  "seq_inv a m pos cs \<longleftrightarrow>
    (\<forall>p. 0 < remainNumberCount (cs p) \<longrightarrow> currentSequenceNumber (cs p) = a + of_nat (pos p)) \<and>
    (\<forall>p. seq_own pos cs p \<subseteq> {..<32 * m}) \<and>
    (\<forall>p q. p \<noteq> q \<longrightarrow> seq_own pos cs p \<inter> seq_own pos cs q = {})"

lemma seq_own_upd:
  "q \<noteq> p \<Longrightarrow> seq_own (pos(p := i)) (cs(p := c)) q = seq_own pos cs q"
  "seq_own (pos(p := i)) (cs(p := c)) p = {i ..< i + remainNumberCount c}"
  by (simp_all add: seq_own_def)

lemma seq_inv_upd:
  assumes "seq_inv a m pos cs" and "m \<le> m'"
    and "0 < remainNumberCount c \<Longrightarrow> currentSequenceNumber c = a + of_nat i"
    and "{i ..< i + remainNumberCount c} \<subseteq> {..<32 * m'}"
    and "{i ..< i + remainNumberCount c} \<subseteq> {32 * m ..} \<union> seq_own pos cs p"
  shows "seq_inv a m' (pos(p := i)) (cs(p := c))"
proof -
  let ?own = "seq_own (pos(p := i)) (cs(p := c))"
  have own: "?own p = {i ..< i + remainNumberCount c}" "\<And>q. q \<noteq> p \<Longrightarrow> ?own q = seq_own pos cs q"
    by (simp_all add: seq_own_upd)
  have lt: "seq_own pos cs q \<subseteq> {..<32 * m}" and dis: "q \<noteq> r \<Longrightarrow> seq_own pos cs q \<inter> seq_own pos cs r = {}" for q r
    using assms(1) by (simp_all add: seq_inv_def)
  have sub: "?own q \<subseteq> {..<32 * m'}" for q
  proof (cases "q = p")
    case True
    with own(1) assms(4) show ?thesis by simp
  next
    case False
    have "{..<32 * m} \<subseteq> {..<32 * m'}" using assms(2) by auto
    with lt [of q] show ?thesis unfolding own(2) [OF False] by (rule subset_trans)
  qed
  have new: "?own p \<inter> ?own q = {}" if "q \<noteq> p" for q
  proof -
    have "{32 * m ..} \<inter> seq_own pos cs q = {}" using lt [of q] by auto
    then show ?thesis using own(2) [OF that] dis [OF that] assms(5) unfolding own(1) by blast
  qed
  have "?own q \<inter> ?own r = {}" if "q \<noteq> r" for q r
    using new [of q] new [of r] dis [OF that] own(2) [of q] own(2) [of r] that
    by (cases "q = p"; cases "r = p") auto
  with sub show ?thesis
    using assms(1,3) by (simp add: seq_inv_def)
qed

lemma seq_avail_upd:
  assumes "seq_inv a m pos cs" and "m \<le> m'"
    and "{i ..< i + remainNumberCount c} \<subseteq> {32 * m ..} \<union> seq_own pos cs p"
    and "v \<notin> {i ..< i + remainNumberCount c}" and "v < 32 * m'"
    and "v \<in> {32 * m ..} \<union> seq_own pos cs p"
  shows "seq_avail m' (pos(p := i)) (cs(p := c)) \<subseteq> seq_avail m pos cs - {v}"
proof -
  have lt: "seq_own pos cs q \<subseteq> {..<32 * m}" and dis: "q \<noteq> r \<Longrightarrow> seq_own pos cs q \<inter> seq_own pos cs r = {}" for q r
    using assms(1) by (simp_all add: seq_inv_def)
  have "x \<in> seq_avail m pos cs \<and> x \<noteq> v" if "x \<in> seq_avail m' (pos(p := i)) (cs(p := c))" for x
  proof -
    from that consider "32 * m' \<le> x" | "x \<in> {i ..< i + remainNumberCount c}"
      | q where "q \<noteq> p" "x \<in> seq_own pos cs q"
      unfolding seq_avail_def by (metis UN_E UnE atLeast_iff seq_own_upd)
    then show ?thesis
    proof cases
      case 1
      with assms(2,5) show ?thesis by (simp add: seq_avail_def)
    next
      case 2
      with assms(3,4) show ?thesis unfolding seq_avail_def by blast
    next
      case 3
      with assms(6) lt [of q] dis [OF 3(1)] show ?thesis by (auto simp: seq_avail_def)
    qed
  qed
  then show ?thesis by blast
qed

lemma GetNextSequenceNum_step:
  assumes seq: "seq_increments nextval q0 a" and q: "q = ((\<lambda>q. snd (nextval q)) ^^ m) q0"
    and inv: "seq_inv a m pos cs" and call: "GetNextSequenceNum nextval (cs p) q = (v, c, q')"
  shows "\<exists>i m' pos'. v = a + of_nat i \<and> i \<in> seq_avail m pos cs \<and> i < 32 * m' \<and> m \<le> m' \<and> m' \<le> m + 1 \<and>
    q' = ((\<lambda>q. snd (nextval q)) ^^ m') q0 \<and> seq_inv a m' pos' (cs(p := c)) \<and>
    seq_avail m' pos' (cs(p := c)) \<subseteq> seq_avail m pos cs - {i}"
proof (cases "remainNumberCount (cs p) = 0")
  case True
  have v: "fst (nextval q) = a + of_nat (32 * m)" using seq q by (simp add: seq_increments_def)
  have eq: "v = a + of_nat (32 * m)" "q' = snd (nextval q)"
    "c = \<lparr>remainNumberCount = 31, currentSequenceNumber = a + of_nat (32 * m + 1)\<rparr>"
    using call True v by (auto simp: GetNextSequenceNum_def Let_def split: prod.splits)
  let ?pos = "pos(p := 32 * m + 1)"
  have "seq_inv a (m + 1) ?pos (cs(p := c))"
    by (rule seq_inv_upd [OF inv]) (auto simp: eq(3))
  moreover have "seq_avail (m + 1) ?pos (cs(p := c)) \<subseteq> seq_avail m pos cs - {32 * m}"
    by (rule seq_avail_upd [OF inv]) (auto simp: eq(3))
  moreover have "32 * m \<in> seq_avail m pos cs" by (simp add: seq_avail_def)
  ultimately show ?thesis
    using eq q by (intro exI [of _ "32 * m"] exI [of _ "m + 1"] exI [of _ ?pos]) simp
next
  case False
  have cur: "currentSequenceNumber (cs p) = a + of_nat (pos p)" using inv False by (simp add: seq_inv_def)
  have eq: "v = a + of_nat (pos p)" "q' = q"
    "c = \<lparr>remainNumberCount = remainNumberCount (cs p) - 1, currentSequenceNumber = a + of_nat (pos p + 1)\<rparr>"
    using call False cur by (auto simp: GetNextSequenceNum_def Let_def)
  let ?pos = "pos(p := pos p + 1)"
  have own: "pos p \<in> seq_own pos cs p" using False by (simp add: seq_own_def)
  then have lt: "pos p < 32 * m" using inv by (auto simp: seq_inv_def)
  have sub: "{pos p + 1 ..< pos p + 1 + remainNumberCount c} \<subseteq> seq_own pos cs p"
    by (auto simp: eq(3) seq_own_def)
  have ownlt: "seq_own pos cs p \<subseteq> {..<32 * m}" using inv by (simp add: seq_inv_def)
  have "seq_inv a m ?pos (cs(p := c))"
    by (rule seq_inv_upd [OF inv]) (use sub ownlt in \<open>auto simp: eq(3)\<close>)
  moreover have "seq_avail m ?pos (cs(p := c)) \<subseteq> seq_avail m pos cs - {pos p}"
    by (rule seq_avail_upd [OF inv]) (use sub own lt in auto)
  moreover have "pos p \<in> seq_avail m pos cs" using own by (auto simp: seq_avail_def)
  ultimately show ?thesis
    using eq q lt by (intro exI [of _ "pos p"] exI [of _ m] exI [of _ ?pos]) simp
qed

lemma sequence_run_offsets:
  assumes "seq_increments nextval q0 a" and "q = ((\<lambda>q. snd (nextval q)) ^^ m) q0" and "seq_inv a m pos cs"
  shows "\<exists>os. sequence_run nextval cs q ps = map (\<lambda>i. a + of_nat i) os \<and> distinct os \<and>
    set os \<subseteq> seq_avail m pos cs \<inter> {..<32 * (m + length ps)}"
  using assms(2,3)
proof (induction ps arbitrary: cs q m pos)
  case Nil
  then show ?case by simp
next
  case (Cons p ps)
  obtain v c q' where call: "GetNextSequenceNum nextval (cs p) q = (v, c, q')" by (metis prod_cases3)
  from GetNextSequenceNum_step [OF assms(1) Cons.prems call] obtain i m' pos' where
    step: "v = a + of_nat i" "i \<in> seq_avail m pos cs" "i < 32 * m'" "m' \<le> m + 1"
      "seq_avail m' pos' (cs(p := c)) \<subseteq> seq_avail m pos cs - {i}"
    and nxt: "q' = ((\<lambda>q. snd (nextval q)) ^^ m') q0" "seq_inv a m' pos' (cs(p := c))" by blast
  from Cons.IH [OF nxt] obtain os where os: "sequence_run nextval (cs(p := c)) q' ps = map (\<lambda>i. a + of_nat i) os"
      "distinct os" "set os \<subseteq> seq_avail m' pos' (cs(p := c)) \<inter> {..<32 * (m' + length ps)}" by blast
  have "distinct (i # os)" "set (i # os) \<subseteq> seq_avail m pos cs \<inter> {..<32 * (m + length (p # ps))}"
    using os(2,3) step by auto
  moreover have "sequence_run nextval cs q (p # ps) = map (\<lambda>i. a + of_nat i) (i # os)"
    by (simp add: call os(1) step(1))
  ultimately show ?case by blast
qed

text \<open>
  C20. However the calls of the backends interleave, \<open>GetNextSequenceNum\<close> never returns a
  number twice: each backend works off batches of 32 numbers, and the sequence advances by 32.
  The bound says that the sequence does not go around.
\<close>

theorem GetNextSequenceNum_distinct:
  assumes "seq_increments nextval q a" and "32 * length ps \<le> 2 ^ 64"
  shows "distinct (sequence_run nextval (\<lambda>_. seq_cache_init) q ps)"
proof -
  have "seq_inv a 0 (\<lambda>_. 0) (\<lambda>_. seq_cache_init)"
    by (simp add: seq_inv_def seq_cache_init_def seq_own_def)
  note run = sequence_run_offsets [OF assms(1) _ this, of q ps]
  have "\<exists>os. sequence_run nextval (\<lambda>_. seq_cache_init) q ps = map (\<lambda>i. a + of_nat i) os \<and>
      distinct os \<and> set os \<subseteq> seq_avail 0 (\<lambda>_. 0) (\<lambda>_. seq_cache_init) \<inter> {..<32 * (0 + length ps)}"
    by (rule run) simp
  then obtain os where
    os: "sequence_run nextval (\<lambda>_. seq_cache_init) q ps = map (\<lambda>i. a + of_nat i) os"
      "distinct os" "set os \<subseteq> {..<32 * length ps}" by (simp only: add_0) blast
  have "inj_on (\<lambda>i. a + of_nat i :: u64) (set os)"
  proof (rule inj_onI)
    fix i j assume i: "i \<in> set os" and j: "j \<in> set os" and eq: "a + of_nat i = a + (of_nat j :: u64)"
    have "i < 2 ^ 64" "j < 2 ^ 64"
      using i j os(3) assms(2) by (meson lessThan_iff less_le_trans subsetD)+
    then have "unat (of_nat i :: u64) = i" "unat (of_nat j :: u64) = j"
      using unat_of_nat_lt [of i, where 'a = 64] unat_of_nat_lt [of j, where 'a = 64] by simp_all
    moreover from eq have "(of_nat i :: u64) = of_nat j" by (simp only: add_left_cancel)
    ultimately show "i = j" by metis
  qed
  with os show ?thesis by (simp add: distinct_map)
qed

theorem GetNextSequenceNum_distinct_witness:
  "distinct (sequence_run (\<lambda>q. (q, q + 32)) (\<lambda>_. seq_cache_init) 1 [0, 1, 0, 2, 1])"
proof -
  have pow: "((\<lambda>q. q + 32) ^^ k) (1 :: u64) = 1 + of_nat (32 * k)" for k
    by (induction k) (simp_all only: funpow.simps comp_apply id_apply of_nat_add mult_Suc_right
        of_nat_numeral semiring_1_class.of_nat_0 mult_0_right add_0_right add.assoc add.commute [of 32])
  have "seq_increments (\<lambda>q. (q, q + 32)) (1 :: u64) 1"
    unfolding seq_increments_def fst_conv snd_conv pow by simp
  moreover have "32 * length [0, 1, 0, 2, 1 :: nat] \<le> 2 ^ 64" by simp
  ultimately show ?thesis by (rule GetNextSequenceNum_distinct)
qed

subsection \<open>The order on paths\<close>

text \<open>C strings: no zero character.\<close>

definition c_string :: "string \<Rightarrow> bool" where
  "c_string p \<longleftrightarrow> CHR 0x00 \<notin> set p"

lemma c_string_simps [simp]: "c_string []" "c_string (c # p) \<longleftrightarrow> c \<noteq> CHR 0x00 \<and> c_string p"
  by (auto simp: c_string_def)

lemma of_char_pos: "c \<noteq> CHR 0x00 \<Longrightarrow> 0 < (of_char c :: int)"
proof -
  assume "c \<noteq> CHR 0x00"
  then have "of_char c \<noteq> (of_char (CHR 0x00) :: nat)" by (simp only: of_char_eq_iff not_False_eq_True)
  then have "0 < (of_char c :: nat)" by simp
  then have "0 < (of_nat (of_char c) :: int)" by (simp only: of_nat_0_less_iff)
  then show ?thesis by (simp only: of_nat_of_char)
qed

lemma pathcmp_Nil_less: "c_string (c # p) \<Longrightarrow> pathcmp [] (c # p) < 0"
  using of_char_pos by auto

lemma pathcmp_eq_0_iff: "c_string p \<Longrightarrow> c_string q \<Longrightarrow> pathcmp p q = 0 \<longleftrightarrow> p = q"
  by (induction p q rule: pathcmp.induct) (auto split: list.splits dest!: of_char_pos)

lemma pathcmp_neg_iff: "c_string p \<Longrightarrow> c_string q \<Longrightarrow> pathcmp p q < 0 \<longleftrightarrow> 0 < pathcmp q p"
  by (induction p q rule: pathcmp.induct) (auto split: list.splits dest: of_char_pos)

lemma pathcmp_trans:
  "c_string p \<Longrightarrow> c_string q \<Longrightarrow> c_string r \<Longrightarrow> pathcmp p q < 0 \<Longrightarrow> pathcmp q r < 0 \<Longrightarrow> pathcmp p r < 0"
proof (induction p q arbitrary: r rule: pathcmp.induct)
  case (1 p2)
  then show ?case by (cases r; cases p2) (auto dest: of_char_pos)
next
  case (2 c1 p1)
  then show ?case by simp
next
  case (3 c1 p1 c2 p2)
  then show ?case by (cases r) (auto split: if_splits)
qed

lemma pathcmp_directory_block:
  "c_string d \<Longrightarrow> c_string x \<Longrightarrow> c_string r \<Longrightarrow> pathcmp d x \<le> 0 \<Longrightarrow> pathcmp x (d @ ''/'' @ r) \<le> 0 \<Longrightarrow>
    x = d \<or> (\<exists>y. x = d @ ''/'' @ y)"
proof (induction d arbitrary: x)
  case Nil
  then show ?case by (cases x) (auto split: if_splits)
next
  case (Cons a d)
  then show ?case by (cases x) (auto split: if_splits)
qed

text \<open>
  C32. \<open>pathcmp\<close> is a total order on paths: it is 0 exactly on equal paths, changes its sign when
  the arguments are swapped and is transitive.  In this order the tree below a directory is one
  block: whatever sorts between a directory and a path below it is the directory or lies below
  it, although \<open>'/'\<close> is not the smallest character.
\<close>

theorem pathcmp_total_order:
  assumes "c_string p" and "c_string q" and "c_string r"
  shows "(pathcmp p q = 0 \<longleftrightarrow> p = q) \<and> (pathcmp p q < 0 \<longleftrightarrow> 0 < pathcmp q p) \<and>
    (pathcmp p q < 0 \<and> pathcmp q r < 0 \<longrightarrow> pathcmp p r < 0) \<and>
    (pathcmp p q \<le> 0 \<and> pathcmp q (p @ ''/'' @ r) \<le> 0 \<longrightarrow> q = p \<or> (\<exists>y. q = p @ ''/'' @ y))"
  using pathcmp_eq_0_iff pathcmp_neg_iff pathcmp_trans pathcmp_directory_block assms by metis

theorem pathcmp_total_order_witness:
  "pathcmp ''/a/b'' ''/a-b'' < 0 \<and> \<not> pathcmp ''/a-b'' ''/a/b'' \<le> 0"
  using pathcmp_total_order [of "''/a/b''" "''/a-b''" "''/a''"] by simp

text \<open>
  C37. \<open>VerifyPathValidity\<close> succeeds exactly on the paths that start with a slash and, when a file
  is required, do not end in one; the requirement that the path be a directory excludes nothing.
\<close>

theorem VerifyPathValidity_iff:
  "fst (VerifyPathValidity path requirement) = SUCCESS \<longleftrightarrow>
    (\<exists>p. path = Some (CHR ''/'' # p) \<and>
      \<not> (requirement AND VERIFY_PATH_VALIDITY_REQUIREMENT_MUST_BE_FILE \<noteq> 0 \<and>
         last (CHR ''/'' # p) = CHR ''/''))"
proof (cases path)
  case None
  then show ?thesis by (simp add: VerifyPathValidity_def)
next
  case (Some p)
  have props: "(VERIFY_PATH_VALIDITY_PROPERTY_CAN_BE_DIRECTORY OR VERIFY_PATH_VALIDITY_PROPERTY_CAN_BE_FILE) AND
      VERIFY_PATH_VALIDITY_PROPERTY_CAN_BE_DIRECTORY \<noteq> 0"
    "(VERIFY_PATH_VALIDITY_PROPERTY_CAN_BE_DIRECTORY OR VERIFY_PATH_VALIDITY_PROPERTY_CAN_BE_FILE) AND
      VERIFY_PATH_VALIDITY_PROPERTY_CAN_BE_FILE \<noteq> 0"
    "VERIFY_PATH_VALIDITY_PROPERTY_CAN_BE_DIRECTORY AND VERIFY_PATH_VALIDITY_PROPERTY_CAN_BE_DIRECTORY \<noteq> 0"
    "VERIFY_PATH_VALIDITY_PROPERTY_CAN_BE_DIRECTORY AND VERIFY_PATH_VALIDITY_PROPERTY_CAN_BE_FILE = 0"
    by (simp_all add: VERIFY_PATH_VALIDITY_PROPERTY_CAN_BE_DIRECTORY_def
        VERIFY_PATH_VALIDITY_PROPERTY_CAN_BE_FILE_def)
  show ?thesis
    by (cases p) (use Some props in \<open>auto simp: VerifyPathValidity_def Let_def\<close>)
qed

end
