(* ===== verification/Pg_Table.thy ===== *)
theory Pg_Table
  imports Error_Code
begin

text \<open>
  PostgreSQL as the metadata engine uses it: a table with a unique index, read by index scans
  under the snapshot of the transaction and changed by single-row inserts, updates and deletes.
  PostgreSQL is not part of the repository, so a table is a parameter: a record of operations on
  an opaque database state, of which the theorems assume \<open>pg_ok\<close>, the documented behaviour.

  A scan sees the rows as of the last \<open>CommandCounterIncrement\<close> (\<open>pg_vis\<close>), while the unique
  index also sees the changes of the running command (\<open>pg_cur\<close>).  A row that the running command
  has changed (\<open>pg_dirty\<close>) cannot be updated or deleted again before the next increment.  \<open>None\<close> is
  a raised PostgreSQL error; its text carries no FalconFS code, so that the callers model it as
  \<open>UNKNOWN\<close>.
\<close>

record ('db, 'k, 'v) pg_ops =
  pg_vis :: "'db \<Rightarrow> 'k \<Rightarrow> 'v option"
  pg_cur :: "'db \<Rightarrow> 'k \<Rightarrow> 'v option"
  pg_dirty :: "'db \<Rightarrow> 'k \<Rightarrow> bool"
  pg_rows :: "'db \<Rightarrow> ('k \<times> 'v) list"
  pg_insert :: "'db \<Rightarrow> 'k \<Rightarrow> 'v \<Rightarrow> 'db option"
  pg_update :: "'db \<Rightarrow> 'k \<Rightarrow> 'v \<Rightarrow> 'db option"
  pg_delete :: "'db \<Rightarrow> 'k \<Rightarrow> 'db option"
  pg_cci :: "'db \<Rightarrow> 'db"

definition pg_ok :: "('db, 'k::linorder, 'v) pg_ops \<Rightarrow> bool" where
  "pg_ok ops \<longleftrightarrow>
    (\<forall>db. sorted (map fst (pg_rows ops db)) \<and> distinct (map fst (pg_rows ops db)) \<and>
       map_of (pg_rows ops db) = pg_vis ops db) \<and>
    (\<forall>db k. \<not> pg_dirty ops db k \<longrightarrow> pg_cur ops db k = pg_vis ops db k) \<and>
    (\<forall>db k v. pg_insert ops db k v = None \<longleftrightarrow> pg_cur ops db k \<noteq> None) \<and>
    (\<forall>db k v db'. pg_insert ops db k v = Some db' \<longrightarrow>
       pg_cur ops db' = (pg_cur ops db)(k \<mapsto> v) \<and> pg_vis ops db' = pg_vis ops db \<and>
       pg_dirty ops db' = (pg_dirty ops db)(k := True)) \<and>
    (\<forall>db k v. pg_update ops db k v = None \<longleftrightarrow> pg_vis ops db k = None \<or> pg_dirty ops db k) \<and>
    (\<forall>db k v db'. pg_update ops db k v = Some db' \<longrightarrow>
       pg_cur ops db' = (pg_cur ops db)(k \<mapsto> v) \<and> pg_vis ops db' = pg_vis ops db \<and>
       pg_dirty ops db' = (pg_dirty ops db)(k := True)) \<and>
    (\<forall>db k. pg_delete ops db k = None \<longleftrightarrow> pg_vis ops db k = None \<or> pg_dirty ops db k) \<and>
    (\<forall>db k db'. pg_delete ops db k = Some db' \<longrightarrow>
       pg_cur ops db' = (pg_cur ops db)(k := None) \<and> pg_vis ops db' = pg_vis ops db \<and>
       pg_dirty ops db' = (pg_dirty ops db)(k := True)) \<and>
    (\<forall>db. pg_vis ops (pg_cci ops db) = pg_cur ops db \<and> pg_cur ops (pg_cci ops db) = pg_cur ops db \<and>
       pg_dirty ops (pg_cci ops db) = (\<lambda>_. False))"

text \<open>A database state with no change of the running command pending.\<close>

definition pg_clean :: "('db, 'k, 'v) pg_ops \<Rightarrow> 'db \<Rightarrow> bool" where
  "pg_clean ops db \<longleftrightarrow> (\<forall>k. \<not> pg_dirty ops db k)"

text \<open>A raised PostgreSQL error ends the call.\<close>

definition pg_raise :: "'a option \<Rightarrow> 'a falcon" where
  "pg_raise x = (case x of None \<Rightarrow> Inl UNKNOWN | Some y \<Rightarrow> Inr y)"

lemma pg_raise_simps [simp]: "pg_raise None = Inl UNKNOWN" "pg_raise (Some y) = Inr y"
  by (simp_all add: pg_raise_def)

lemma pg_raise_Inr_iff [simp]: "pg_raise x = Inr y \<longleftrightarrow> x = Some y"
  by (cases x) simp_all

subsection \<open>Consequences of the laws\<close>

named_theorems pg_laws \<open>laws of a table, under \<open>pg_ok\<close>\<close>

lemma pg_rowsD [pg_laws]:
  assumes "pg_ok ops"
  shows "sorted (map fst (pg_rows ops db))" and "distinct (map fst (pg_rows ops db))"
    and "map_of (pg_rows ops db) = pg_vis ops db"
  using assms by (simp_all add: pg_ok_def)

lemma pg_clean_cur [pg_laws]: "pg_ok ops \<Longrightarrow> pg_clean ops db \<Longrightarrow> pg_cur ops db = pg_vis ops db"
  by (auto simp: pg_ok_def pg_clean_def)

lemma pg_insert_None [pg_laws]: "pg_ok ops \<Longrightarrow> pg_insert ops db k v = None \<longleftrightarrow> pg_cur ops db k \<noteq> None"
  by (simp add: pg_ok_def)

lemma pg_insert_Some [pg_laws]:
  assumes "pg_ok ops" and "pg_insert ops db k v = Some db'"
  shows "pg_cur ops db' = (pg_cur ops db)(k \<mapsto> v)" and "pg_vis ops db' = pg_vis ops db"
    and "pg_dirty ops db' = (pg_dirty ops db)(k := True)"
  using assms by (simp_all add: pg_ok_def)

lemma pg_update_None [pg_laws]:
  "pg_ok ops \<Longrightarrow> pg_update ops db k v = None \<longleftrightarrow> pg_vis ops db k = None \<or> pg_dirty ops db k"
  by (simp add: pg_ok_def)

lemma pg_update_Some [pg_laws]:
  assumes "pg_ok ops" and "pg_update ops db k v = Some db'"
  shows "pg_cur ops db' = (pg_cur ops db)(k \<mapsto> v)" and "pg_vis ops db' = pg_vis ops db"
    and "pg_dirty ops db' = (pg_dirty ops db)(k := True)"
  using assms by (simp_all add: pg_ok_def)

lemma pg_delete_None [pg_laws]:
  "pg_ok ops \<Longrightarrow> pg_delete ops db k = None \<longleftrightarrow> pg_vis ops db k = None \<or> pg_dirty ops db k"
  by (simp add: pg_ok_def)

lemma pg_delete_Some [pg_laws]:
  assumes "pg_ok ops" and "pg_delete ops db k = Some db'"
  shows "pg_cur ops db' = (pg_cur ops db)(k := None)" and "pg_vis ops db' = pg_vis ops db"
    and "pg_dirty ops db' = (pg_dirty ops db)(k := True)"
  using assms by (simp_all add: pg_ok_def)

lemma pg_cci_laws [pg_laws]:
  assumes "pg_ok ops"
  shows "pg_vis ops (pg_cci ops db) = pg_cur ops db" and "pg_cur ops (pg_cci ops db) = pg_cur ops db"
    and "pg_clean ops (pg_cci ops db)"
  using assms by (simp_all add: pg_ok_def pg_clean_def)

text \<open>
  An operation on a clean state followed by an increment acts on the visible rows as on a map.
\<close>

lemma pg_insert_clean:
  assumes "pg_ok ops" and "pg_clean ops db" and "pg_vis ops db k = None"
  obtains db' where "pg_insert ops db k v = Some db'"
    and "pg_vis ops (pg_cci ops db') = (pg_vis ops db)(k \<mapsto> v)"
proof -
  have "pg_insert ops db k v \<noteq> None"
    using assms by (simp add: pg_insert_None pg_clean_cur)
  then obtain db' where "pg_insert ops db k v = Some db'" by blast
  with assms that show ?thesis by (simp add: pg_cci_laws pg_insert_Some pg_clean_cur)
qed

lemma pg_update_clean:
  assumes "pg_ok ops" and "pg_clean ops db" and "pg_vis ops db k = Some w"
  obtains db' where "pg_update ops db k v = Some db'"
    and "pg_vis ops (pg_cci ops db') = (pg_vis ops db)(k \<mapsto> v)"
proof -
  have "pg_update ops db k v \<noteq> None"
    using assms by (simp add: pg_update_None pg_clean_def)
  then obtain db' where "pg_update ops db k v = Some db'" by blast
  with assms that show ?thesis by (simp add: pg_cci_laws pg_update_Some pg_clean_cur)
qed

lemma pg_delete_clean:
  assumes "pg_ok ops" and "pg_clean ops db" and "pg_vis ops db k = Some w"
  obtains db' where "pg_delete ops db k = Some db'"
    and "pg_vis ops (pg_cci ops db') = (pg_vis ops db)(k := None)"
proof -
  have "pg_delete ops db k \<noteq> None"
    using assms by (simp add: pg_delete_None pg_clean_def)
  then obtain db' where "pg_delete ops db k = Some db'" by blast
  with assms that show ?thesis by (simp add: pg_cci_laws pg_delete_Some pg_clean_cur)
qed

lemma pg_rows_set: "pg_ok ops \<Longrightarrow> set (pg_rows ops db) = {(k, v). pg_vis ops db k = Some v}"
  by (auto simp: pg_rowsD(3) [symmetric] pg_rowsD(2))

text \<open>The scan is determined by the visible rows.\<close>

lemma alist_by_keys:
  assumes "distinct (map fst xs)"
  shows "xs = map (\<lambda>k. (k, the (map_of xs k))) (map fst xs)"
proof (rule nth_equalityI)
  fix i assume "i < length xs"
  then have "map_of xs (fst (xs ! i)) = Some (snd (xs ! i))" using assms by simp
  then show "xs ! i = map (\<lambda>k. (k, the (map_of xs k))) (map fst xs) ! i"
    using \<open>i < length xs\<close> by simp
qed simp

lemma pg_rows_eqI:
  assumes "pg_ok ops" and "sorted (map fst xs)" and "distinct (map fst xs)" and "map_of xs = pg_vis ops db"
  shows "pg_rows ops db = xs"
proof -
  let ?rows = "pg_rows ops db"
  have "fst ` set ?rows = fst ` set xs"
    using assms(4) pg_rowsD(3) [OF assms(1), of db] by (metis dom_map_of_conv_image_fst)
  then have keys: "map fst ?rows = map fst xs"
    using assms(2,3) pg_rowsD(1,2) [OF assms(1), of db] by (intro sorted_distinct_set_unique) simp_all
  have "?rows = map (\<lambda>k. (k, the (map_of ?rows k))) (map fst ?rows)"
    by (rule alist_by_keys) (rule pg_rowsD(2) [OF assms(1)])
  also have "\<dots> = map (\<lambda>k. (k, the (map_of xs k))) (map fst xs)"
    using keys assms(4) pg_rowsD(3) [OF assms(1), of db] by simp
  also have "\<dots> = xs" using assms(3) by (rule alist_by_keys [symmetric])
  finally show ?thesis .
qed

subsection \<open>An instance\<close>

text \<open>
  Association lists for the visible and the current rows and the list of changed keys satisfy
  the laws.
\<close>

type_synonym ('k, 'v) pg_alist = "('k \<times> 'v) list \<times> ('k \<times> 'v) list \<times> 'k list"

definition pg_alist_ops :: "(('k::linorder, 'v) pg_alist, 'k, 'v) pg_ops" where
  "pg_alist_ops = \<lparr>
     pg_vis = (\<lambda>(vis, cur, dirty). map_of vis),
     pg_cur = (\<lambda>(vis, cur, dirty) k. if k \<in> set dirty then map_of cur k else map_of vis k),
     pg_dirty = (\<lambda>(vis, cur, dirty) k. k \<in> set dirty),
     pg_rows = (\<lambda>(vis, cur, dirty). map (\<lambda>k. (k, the (map_of vis k))) (sorted_list_of_set (fst ` set vis))),
     pg_insert = (\<lambda>(vis, cur, dirty) k v.
       if (if k \<in> set dirty then map_of cur k else map_of vis k) \<noteq> None then None
       else Some (vis, (k, v) # cur, k # dirty)),
     pg_update = (\<lambda>(vis, cur, dirty) k v.
       if map_of vis k = None \<or> k \<in> set dirty then None else Some (vis, (k, v) # cur, k # dirty)),
     pg_delete = (\<lambda>(vis, cur, dirty) k.
       if map_of vis k = None \<or> k \<in> set dirty then None
       else Some (vis, filter (\<lambda>(j, _). j \<noteq> k) cur, k # dirty)),
     pg_cci = (\<lambda>(vis, cur, dirty).
       (filter (\<lambda>(j, _). j \<in> set dirty) cur @ filter (\<lambda>(j, _). j \<notin> set dirty) vis, [], []))\<rparr>"

lemma pg_alist_ok: "pg_ok (pg_alist_ops :: (('k::linorder, 'v) pg_alist, 'k, 'v) pg_ops)"
proof -
  have filt: "map_of (filter (\<lambda>(j, _). P j) xs) k = (if P k then map_of xs k else None)"
    for P and xs :: "('k \<times> 'v) list" and k
    by (induction xs) auto
  have rows: "map_of (map (\<lambda>k. (k, the (map_of xs k))) (sorted_list_of_set (fst ` set xs))) = map_of xs"
    for xs :: "('k \<times> 'v) list"
  proof
    fix k
    show "map_of (map (\<lambda>k. (k, the (map_of xs k))) (sorted_list_of_set (fst ` set xs))) k = map_of xs k"
      using map_of_eq_None_iff [of xs k]
      by (cases "k \<in> fst ` set xs") (auto simp: map_of_map_restrict restrict_map_def)
  qed
  show ?thesis
    unfolding pg_ok_def
    by (auto simp: pg_alist_ops_def rows filt comp_def map_add_def fun_eq_iff split: option.splits)
qed

end
