(* ===== verification/Shmem_Cache.thy ===== *)
theory Shmem_Cache
  imports Error_Code
begin

text \<open>
  The contract of a shared-memory cache of a catalog table, which the shard map
  (\<open>falcon/metadb/shard_table.c\<close>) and the server list (\<open>falcon/metadb/foreign_server.c\<close>) follow: a
  flag says that the cache is invalid, every change of the table sets the flag, and a reader
  reloads the cache from the table before it looks into it.
\<close>

locale shmem_cache =
  fixes reload :: "'s \<Rightarrow> 's falcon"
    and invalidate :: "'s \<Rightarrow> 's"
    and invalid :: "'s \<Rightarrow> bool"
    and cached :: "'s \<Rightarrow> 'r"
    and source :: "'s \<Rightarrow> 'r"
  assumes reload_valid: "\<not> invalid s \<Longrightarrow> reload s = Inr s"
    and reload_invalid: "invalid s \<Longrightarrow> reload s = Inr t \<Longrightarrow>
      \<not> invalid t \<and> cached t = source s \<and> source t = source s"
    and invalidate_laws: "invalid (invalidate s)" "source (invalidate s) = source s"
begin

text \<open>The cache may be stale only while the flag is set.\<close>

definition coherent :: "'s \<Rightarrow> bool" where
  "coherent s \<longleftrightarrow> invalid s \<or> cached s = source s"

lemma coherent_invalidate: "coherent (invalidate s)"
  by (simp add: coherent_def invalidate_laws)

lemma reload_fresh:
  assumes "coherent s" and "reload s = Inr t"
  shows "\<not> invalid t" and "cached t = source s" and "source t = source s"
  using assms reload_valid [of s] reload_invalid [of s t]
  by (cases "invalid s"; auto simp: coherent_def)+

lemma coherent_reload: "coherent s \<Longrightarrow> reload s = Inr t \<Longrightarrow> coherent t"
  using reload_fresh [of s t] by (simp add: coherent_def)

lemma reload_again: "coherent s \<Longrightarrow> reload s = Inr t \<Longrightarrow> reload t = Inr t"
  using reload_fresh(1) [of s t] by (rule reload_valid)

text \<open>After a change of the table the next reader sees the new rows.\<close>

lemma invalidate_reload:
  assumes "reload (invalidate s) = Inr t"
  shows "cached t = source s \<and> \<not> invalid t"
  using reload_fresh [OF coherent_invalidate assms] by (simp add: invalidate_laws)

end

end
