(* ===== verification/Shard_Table.thy ===== *)
theory Shard_Table
  imports Meta_Ids Pg_Table Shmem_Cache
begin

text \<open>
  The shard map of \<open>falcon/metadb/shard_table.c\<close>: the catalog table \<open>falcon_shard_table\<close> of range
  points and servers, its shared-memory cache, and the search that routes a shard hash.

  The table is a parameter (\<open>Pg_Table\<close>) with the range point as its key; the list of worker
  servers that \<open>GetAllForeignServerId\<close> gives is an argument.  32-bit signed values are \<open>int\<close>.
  The locks of the cache serialise its readers and writers, so that an operation is a function
  on the state; a reader that finds the cache invalid reloads it until it is valid, which is
  after one round when nobody invalidates it in between.
\<close>

subsection \<open>Data\<close>

definition SHARD_COUNT_MAX :: nat where
  "SHARD_COUNT_MAX = 100000000"

definition SHARD_TABLE_RANGE_MIN :: int where
  "SHARD_TABLE_RANGE_MIN = 0"

definition SHARD_TABLE_RANGE_MAX :: int where
  "SHARD_TABLE_RANGE_MAX = 2147483647"

text \<open>A row: range point and server id.\<close>

type_synonym FormData_falcon_shard_table = "int \<times> int"

record 'db shard_state =
  shard_db :: 'db
  ShardTableShmemCache :: "FormData_falcon_shard_table list"
  ShardTableShmemCacheInvalid :: bool

subsection \<open>The cache\<close>

definition InvalidateShardTableShmemCache :: "'db shard_state \<Rightarrow> 'db shard_state" where
  "InvalidateShardTableShmemCache s = s\<lparr>ShardTableShmemCacheInvalid := True\<rparr>"

definition InvalidateShardTableShmemCacheCallback ::
  "nat \<Rightarrow> nat \<Rightarrow> 'db shard_state \<Rightarrow> 'db shard_state" where
  "InvalidateShardTableShmemCacheCallback ShardRelationId relationId s =
    (if relationId = 0 \<or> relationId = ShardRelationId then InvalidateShardTableShmemCache s else s)"

definition ShardTableShmemInit :: "'db \<Rightarrow> 'db shard_state" where
  "ShardTableShmemInit db = \<lparr>shard_db = db, ShardTableShmemCache = [], ShardTableShmemCacheInvalid = True\<rparr>"

definition ReloadShardTableShmemCache ::
  "('db, int, int) pg_ops \<Rightarrow> 'db shard_state \<Rightarrow> 'db shard_state falcon" where
  "ReloadShardTableShmemCache ops s =
    (if \<not> ShardTableShmemCacheInvalid s then Inr s
     else
       (let rows = pg_rows ops (shard_db s) in
        if length rows > SHARD_COUNT_MAX then Inl PROGRAM_ERROR
        else Inr (s\<lparr>ShardTableShmemCache := rows, ShardTableShmemCacheInvalid := False\<rparr>)))"

text \<open>Evaluated with binary numbers.\<close>

lemma ReloadShardTableShmemCache_code [code]:
  "ReloadShardTableShmemCache ops s =
    (if \<not> ShardTableShmemCacheInvalid s then Inr s
     else
       (let rows = pg_rows ops (shard_db s) in
        if int (length rows) > 100000000 then Inl PROGRAM_ERROR
        else Inr (s\<lparr>ShardTableShmemCache := rows, ShardTableShmemCacheInvalid := False\<rparr>)))"
  by (simp add: ReloadShardTableShmemCache_def SHARD_COUNT_MAX_def Let_def)

subsection \<open>The administration functions\<close>

definition range_point :: "nat \<Rightarrow> nat \<Rightarrow> int" where
  "range_point shardCount i =
    (if i = shardCount - 1 then SHARD_TABLE_RANGE_MAX
     else (SHARD_TABLE_RANGE_MAX - SHARD_TABLE_RANGE_MIN) * (int i + 1) div int shardCount
          + SHARD_TABLE_RANGE_MIN)"

fun insert_shards :: "('db, int, int) pg_ops \<Rightarrow> nat \<Rightarrow> int list \<Rightarrow> nat \<Rightarrow> nat \<Rightarrow> nat \<Rightarrow> 'db \<Rightarrow> 'db falcon" where
  "insert_shards ops shardCount serverIdList serverRound i 0 db = Inr db"
| "insert_shards ops shardCount serverIdList serverRound i (Suc n) db =
    (case pg_raise (pg_insert ops db (range_point shardCount i) (serverIdList ! serverRound)) of
       Inl e \<Rightarrow> Inl e
     | Inr db' \<Rightarrow> insert_shards ops shardCount serverIdList
         ((serverRound + 1) mod length serverIdList) (Suc i) n db')"

definition falcon_build_shard_table ::
  "('db, int, int) pg_ops \<Rightarrow> int list \<Rightarrow> int \<Rightarrow> 'db shard_state \<Rightarrow> 'db shard_state falcon" where
  "falcon_build_shard_table ops serverIdList shardCount s =
    (if shardCount \<le> 0 \<or> shardCount > int SHARD_COUNT_MAX then Inl ARGUMENT_ERROR
     else if length serverIdList = 0 then Inl ARGUMENT_ERROR
     else
       (case insert_shards ops (nat shardCount) serverIdList 0 0 (nat shardCount) (shard_db s) of
          Inl e \<Rightarrow> Inl e
        | Inr db \<Rightarrow> Inr (InvalidateShardTableShmemCache (s\<lparr>shard_db := pg_cci ops db\<rparr>))))"

fun update_shards :: "('db, int, int) pg_ops \<Rightarrow> (int \<times> int) list \<Rightarrow> 'db \<Rightarrow> 'db falcon" where
  "update_shards ops [] db = Inr db"
| "update_shards ops ((point, server) # changes) db =
    (case pg_raise (case pg_vis ops db point of
             None \<Rightarrow> pg_insert ops db point server
           | Some _ \<Rightarrow> pg_update ops db point server) of
       Inl e \<Rightarrow> Inl e
     | Inr db' \<Rightarrow> update_shards ops changes (pg_cci ops db'))"

definition falcon_update_shard_table ::
  "('db, int, int) pg_ops \<Rightarrow> int list \<Rightarrow> int list \<Rightarrow> 'db shard_state \<Rightarrow> 'db shard_state falcon" where
  "falcon_update_shard_table ops rangePointArray serverIdArray s =
    (if length rangePointArray \<noteq> length serverIdArray then Inl ARGUMENT_ERROR
     else
       (case update_shards ops (zip rangePointArray serverIdArray) (shard_db s) of
          Inl e \<Rightarrow> Inl e
        | Inr db \<Rightarrow> Inr (InvalidateShardTableShmemCache (s\<lparr>shard_db := db\<rparr>))))"

definition falcon_reload_shard_table_cache ::
  "('db, int, int) pg_ops \<Rightarrow> 'db shard_state \<Rightarrow> 'db shard_state falcon" where
  "falcon_reload_shard_table_cache ops s =
    ReloadShardTableShmemCache ops (InvalidateShardTableShmemCache s)"

subsection \<open>Readers\<close>

function shard_bsearch :: "FormData_falcon_shard_table list \<Rightarrow> int \<Rightarrow> nat \<Rightarrow> nat \<Rightarrow> nat" where
  "shard_bsearch cache hashValue l r =
    (if l < r then
       (let mid = (l + r) div 2 in
        if fst (cache ! mid) < hashValue then shard_bsearch cache hashValue (mid + 1) r
        else shard_bsearch cache hashValue l mid)
     else l)"
  by auto
termination by (relation "measure (\<lambda>(c, h, l, r). r - l)") auto

declare shard_bsearch.simps [simp del]

definition SearchShardInfoByHashValue :: "('db, int, int) pg_ops \<Rightarrow> int \<Rightarrow> 'db shard_state \<Rightarrow>
    (FormData_falcon_shard_table \<times> 'db shard_state) falcon" where
  "SearchShardInfoByHashValue ops hashValue s =
    (case ReloadShardTableShmemCache ops s of
       Inl e \<Rightarrow> Inl e
     | Inr t \<Rightarrow>
        (let cache = ShardTableShmemCache t;
             l = shard_bsearch cache hashValue 0 (length cache) in
         if l = length cache then Inl PROGRAM_ERROR else Inr (cache ! l, t)))"

definition SearchShardInfoByShardValue :: "(u32 \<Rightarrow> u32) \<Rightarrow> ('db, int, int) pg_ops \<Rightarrow> u64 \<Rightarrow>
    'db shard_state \<Rightarrow> (FormData_falcon_shard_table \<times> 'db shard_state) falcon" where
  "SearchShardInfoByShardValue hash ops shardColValue s =
    SearchShardInfoByHashValue ops (HashShard hash shardColValue) s"

definition GetShardTableData :: "('db, int, int) pg_ops \<Rightarrow> 'db shard_state \<Rightarrow>
    (FormData_falcon_shard_table list \<times> 'db shard_state) falcon" where
  "GetShardTableData ops s =
    (case ReloadShardTableShmemCache ops s of
       Inl e \<Rightarrow> Inl e | Inr t \<Rightarrow> Inr (map (\<lambda>row. row) (ShardTableShmemCache t), t))"

definition GetShardTableSize :: "('db, int, int) pg_ops \<Rightarrow> 'db shard_state \<Rightarrow> (nat \<times> 'db shard_state) falcon" where
  "GetShardTableSize ops s =
    (case ReloadShardTableShmemCache ops s of
       Inl e \<Rightarrow> Inl e | Inr t \<Rightarrow> Inr (length (ShardTableShmemCache t), t))"

text \<open>
  The ranges that \<open>falcon_renew_shard_table\<close> reports to a client.  The connection information of
  the servers, which it takes from the server list, is the argument \<open>conn\<close>.
\<close>

record ShardInfo =
  rangeMin :: int
  rangeMax :: int
  host :: string
  port :: int
  serverId :: int

fun shard_infos :: "(int \<Rightarrow> string \<times> int) \<Rightarrow> int \<Rightarrow> FormData_falcon_shard_table list \<Rightarrow> ShardInfo list" where
  "shard_infos conn rangeLow [] = []"
| "shard_infos conn rangeLow ((point, server) # rows) =
    \<lparr>rangeMin = rangeLow, rangeMax = point, host = fst (conn server), port = snd (conn server),
     serverId = server\<rparr> # shard_infos conn (point + 1) rows"

definition falcon_renew_shard_table :: "(int \<Rightarrow> string \<times> int) \<Rightarrow> ('db, int, int) pg_ops \<Rightarrow> 'db shard_state \<Rightarrow>
    (ShardInfo list \<times> 'db shard_state) falcon" where
  "falcon_renew_shard_table conn ops s =
    (case ReloadShardTableShmemCache ops s of
       Inl e \<Rightarrow> Inl e
     | Inr t \<Rightarrow> Inr (shard_infos conn SHARD_TABLE_RANGE_MIN (ShardTableShmemCache t), t))"

interpretation shard_cache: shmem_cache "ReloadShardTableShmemCache ops" InvalidateShardTableShmemCache
  ShardTableShmemCacheInvalid ShardTableShmemCache "\<lambda>s. pg_rows ops (shard_db s)" for ops
  by unfold_locales
    (auto simp: ReloadShardTableShmemCache_def InvalidateShardTableShmemCache_def Let_def split: if_splits)

subsection \<open>The search\<close>

lemma shard_bsearch_bounds:
  assumes "sorted (map fst cache)" and "l \<le> r" and "r \<le> length cache"
    and "\<forall>i < l. fst (cache ! i) < h" and "\<forall>i. r \<le> i \<and> i < length cache \<longrightarrow> h \<le> fst (cache ! i)"
  shows "shard_bsearch cache h l r \<le> length cache \<and>
    (\<forall>i < shard_bsearch cache h l r. fst (cache ! i) < h) \<and>
    (\<forall>i. shard_bsearch cache h l r \<le> i \<and> i < length cache \<longrightarrow> h \<le> fst (cache ! i))"
  using assms
proof (induction cache h l r rule: shard_bsearch.induct)
  case (1 cache h l r)
  show ?case
  proof (cases "l < r")
    case False
    with 1(4-7) have "l = r" by simp
    with 1(5-7) show ?thesis by (subst (1 2 3) shard_bsearch.simps) simp
  next
    case True
    let ?mid = "(l + r) div 2"
    have mid: "l \<le> ?mid" "?mid < r" "?mid < length cache" using True 1(5) by simp_all
    have mono: "fst (cache ! i) \<le> fst (cache ! j)" if "i \<le> j" "j < length cache" for i j
      using sorted_nth_mono [OF 1(3), of i j] that by simp
    show ?thesis
    proof (cases "fst (cache ! ?mid) < h")
      case low: True
      have "\<forall>i < ?mid + 1. fst (cache ! i) < h"
        using mono [of _ ?mid] mid(3) low by (force simp: less_Suc_eq_le)
      with 1(1) [OF True refl low] 1(3,5,7) mid(2) show ?thesis
        using True low by (subst (1 2 3) shard_bsearch.simps) (simp add: Let_def)
    next
      case high: False
      have "\<forall>i. ?mid \<le> i \<and> i < length cache \<longrightarrow> h \<le> fst (cache ! i)"
        using mono [of ?mid] high by (force simp: not_less)
      with 1(2) [OF True refl high] 1(3,6) mid show ?thesis
        using True high by (subst (1 2 3) shard_bsearch.simps) (simp add: Let_def)
    qed
  qed
qed

text \<open>
  C34. The binary search finds the first row whose range point is not below the hash: on an
  ordered cache it is the linear search from the front.
\<close>

theorem shard_bsearch_first:
  assumes "sorted (map fst cache)"
  shows "shard_bsearch cache h 0 (length cache) = length (takeWhile (\<lambda>row. fst row < h) cache)"
proof -
  let ?k = "shard_bsearch cache h 0 (length cache)"
  from shard_bsearch_bounds [OF assms, of 0 "length cache" h]
  have k: "?k \<le> length cache" "\<forall>i < ?k. fst (cache ! i) < h"
    "\<forall>i. ?k \<le> i \<and> i < length cache \<longrightarrow> h \<le> fst (cache ! i)" by auto
  have "takeWhile (\<lambda>row. fst row < h) cache = take ?k cache"
    by (rule takeWhile_eq_take_P_nth) (use k in \<open>auto simp: not_less\<close>)
  with k(1) show ?thesis by simp
qed

theorem shard_bsearch_first_witness:
  "shard_bsearch [(10, 1), (20, 2), (30, 1)] 15 0 3 = 1"
  using shard_bsearch_first [of "[(10, 1), (20, 2), (30, 1)]" 15] by (simp add: numeral_3_eq_3)

subsection \<open>Building the map\<close>

lemma range_point_mono:
  assumes "i < j" and "j < n" and "n \<le> SHARD_COUNT_MAX"
  shows "range_point n i < range_point n j"
proof -
  define M where "M = (2147483647 :: int)"
  have n: "0 < int n" "int n \<le> M" using assms by (auto simp: M_def SHARD_COUNT_MAX_def)
  have rp: "range_point n i = M * (int i + 1) div int n"
    using assms by (simp add: range_point_def SHARD_TABLE_RANGE_MIN_def SHARD_TABLE_RANGE_MAX_def M_def)
  show ?thesis
  proof (cases "j = n - 1")
    case True
    have "M * (int i + 1) div int n < M"
    proof -
      have "int i + 1 < int n" using assms by simp
      then have "M * (int i + 1) < M * int n" using n by (intro mult_strict_left_mono) auto
      moreover have "M * (int i + 1) div int n * int n \<le> M * (int i + 1)"
        using n pos_mod_sign [of "int n" "M * (int i + 1)"] div_mult_mod_eq [of "M * (int i + 1)" "int n"]
        by linarith
      ultimately have "M * (int i + 1) div int n * int n < M * int n" by linarith
      then show ?thesis using n(1) by (simp only: mult_less_cancel_right_pos)
    qed
    with True rp show ?thesis by (simp add: range_point_def SHARD_TABLE_RANGE_MAX_def M_def)
  next
    case False
    have "M * (int i + 1) div int n + 1 = (M * (int i + 1) + int n) div int n"
      using n div_add_self2 [of "int n" "M * (int i + 1)"] by linarith
    also have "\<dots> \<le> (M * (int i + 1) + M) div int n" using n by (intro zdiv_mono1) auto
    also have "M * (int i + 1) + M = M * (int i + 2)" by (simp add: algebra_simps)
    also have "M * (int i + 2) div int n \<le> M * (int j + 1) div int n"
      using n assms(1) by (intro zdiv_mono1 mult_left_mono) auto
    finally show ?thesis
      using rp False assms(1) by (simp add: range_point_def SHARD_TABLE_RANGE_MIN_def SHARD_TABLE_RANGE_MAX_def M_def)
  qed
qed

lemma range_point_eq_iff:
  assumes "i < n" and "j < n" and "n \<le> SHARD_COUNT_MAX"
  shows "range_point n i = range_point n j \<longleftrightarrow> i = j"
  using range_point_mono [OF _ assms(2,3), of i] range_point_mono [OF _ assms(1,3), of j]
  by (cases i j rule: linorder_cases) auto

lemma insert_shards_ok:
  assumes ops: "pg_ok ops" and "servers \<noteq> []" and "N \<le> SHARD_COUNT_MAX"
  shows "i + n \<le> N \<Longrightarrow> (\<forall>j. i \<le> j \<and> j < N \<longrightarrow> pg_cur ops db (range_point N j) = None) \<Longrightarrow>
    \<exists>db'. insert_shards ops N servers (i mod length servers) i n db = Inr db' \<and>
      (\<forall>j. i \<le> j \<and> j < i + n \<longrightarrow> pg_cur ops db' (range_point N j) = Some (servers ! (j mod length servers))) \<and>
      (\<forall>k. (\<forall>j. i \<le> j \<and> j < i + n \<longrightarrow> k \<noteq> range_point N j) \<longrightarrow> pg_cur ops db' k = pg_cur ops db k)"
proof (induction n arbitrary: i db)
  case 0
  then show ?case by simp
next
  case (Suc n)
  have "pg_insert ops db (range_point N i) (servers ! (i mod length servers)) \<noteq> None"
    using Suc.prems by (simp add: pg_insert_None [OF ops])
  then obtain db1 where ins: "pg_insert ops db (range_point N i) (servers ! (i mod length servers)) = Some db1"
    by blast
  note cur1 = pg_insert_Some(1) [OF ops ins]
  have "\<forall>j. Suc i \<le> j \<and> j < N \<longrightarrow> pg_cur ops db1 (range_point N j) = None"
    using Suc.prems range_point_eq_iff [of _ N i] assms(3) by (simp add: cur1)
  with Suc.IH [of "Suc i" db1] Suc.prems(1) obtain db' where
    db': "insert_shards ops N servers (Suc i mod length servers) (Suc i) n db1 = Inr db'"
    and new: "\<forall>j. Suc i \<le> j \<and> j < Suc i + n \<longrightarrow>
        pg_cur ops db' (range_point N j) = Some (servers ! (j mod length servers))"
    and old: "\<forall>k. (\<forall>j. Suc i \<le> j \<and> j < Suc i + n \<longrightarrow> k \<noteq> range_point N j) \<longrightarrow>
        pg_cur ops db' k = pg_cur ops db1 k" by auto
  have "range_point N i \<noteq> range_point N j" if "Suc i \<le> j" "j < Suc i + n" for j
    using range_point_eq_iff [of i N j] that Suc.prems(1) assms(3) by simp
  with old have here: "pg_cur ops db' (range_point N i) = Some (servers ! (i mod length servers))"
    by (simp add: cur1)
  have "insert_shards ops N servers (i mod length servers) i (Suc n) db = Inr db'"
    using db' ins by (simp add: mod_Suc_eq)
  moreover have "pg_cur ops db' (range_point N j) = Some (servers ! (j mod length servers))"
    if "i \<le> j" "j < i + Suc n" for j
    using that new here by (cases "j = i") auto
  moreover have "pg_cur ops db' k = pg_cur ops db k"
    if "\<forall>j. i \<le> j \<and> j < i + Suc n \<longrightarrow> k \<noteq> range_point N j" for k
    using that old by (simp add: cur1)
  ultimately show ?case by blast
qed

definition built_rows :: "nat \<Rightarrow> int list \<Rightarrow> (int \<times> int) list" where
  "built_rows N servers = map (\<lambda>j. (range_point N j, servers ! (j mod length servers))) [0..<N]"

lemma built_rows_sorted:
  assumes "N \<le> SHARD_COUNT_MAX"
  shows "sorted (map fst (built_rows N servers))" and "distinct (map fst (built_rows N servers))"
proof -
  have "sorted_wrt (<) (map fst (built_rows N servers))"
    unfolding sorted_wrt_iff_nth_less built_rows_def
    using range_point_mono assms by (auto simp: comp_def)
  then show "sorted (map fst (built_rows N servers))" "distinct (map fst (built_rows N servers))"
    by (simp_all add: strict_sorted_iff)
qed

text \<open>
  C25. On an empty table \<open>falcon_build_shard_table\<close> succeeds for every admissible shard count and
  non-empty server list, and leaves exactly the rows of the even partition: strictly increasing
  range points that end in the largest hash value, with the servers in round robin; the cache
  is invalid afterwards, so that the next reader loads these rows.
\<close>

theorem falcon_build_shard_table_rows:
  assumes "pg_ok ops" and "pg_clean ops (shard_db s)" and "pg_vis ops (shard_db s) = Map.empty"
    and "0 < N" and "N \<le> SHARD_COUNT_MAX" and "servers \<noteq> []"
  shows "\<exists>s'. falcon_build_shard_table ops servers (int N) s = Inr s' \<and>
    pg_rows ops (shard_db s') = map (\<lambda>j. (range_point N j, servers ! (j mod length servers))) [0..<N] \<and>
    fst (last (pg_rows ops (shard_db s'))) = SHARD_TABLE_RANGE_MAX \<and>
    ShardTableShmemCacheInvalid s'"
proof -
  let ?rows = "built_rows N servers"
  have "\<exists>db'. insert_shards ops N servers (0 mod length servers) 0 N (shard_db s) = Inr db' \<and>
      (\<forall>j. 0 \<le> j \<and> j < 0 + N \<longrightarrow> pg_cur ops db' (range_point N j) = Some (servers ! (j mod length servers))) \<and>
      (\<forall>k. (\<forall>j. 0 \<le> j \<and> j < 0 + N \<longrightarrow> k \<noteq> range_point N j) \<longrightarrow> pg_cur ops db' k = pg_cur ops (shard_db s) k)"
    by (rule insert_shards_ok [OF assms(1,6,5)]) (simp_all add: pg_clean_cur [OF assms(1,2)] assms(3))
  then obtain db' where db': "insert_shards ops N servers 0 0 N (shard_db s) = Inr db'"
    and new: "\<forall>j < N. pg_cur ops db' (range_point N j) = Some (servers ! (j mod length servers))"
    and old: "\<forall>k. (\<forall>j < N. k \<noteq> range_point N j) \<longrightarrow> pg_cur ops db' k = None"
    using pg_clean_cur [OF assms(1,2)] assms(3) by auto
  have "map_of ?rows k = pg_cur ops db' k" for k
  proof (cases "\<exists>j < N. k = range_point N j")
    case True
    then obtain j where j: "j < N" "k = range_point N j" by blast
    then have "(k, servers ! (j mod length servers)) \<in> set ?rows" by (auto simp: built_rows_def)
    then show ?thesis
      using j new built_rows_sorted(2) [OF assms(5)] by (simp add: map_of_is_SomeI)
  next
    case False
    then have "k \<notin> fst ` set ?rows" by (auto simp: built_rows_def)
    with False old show ?thesis by (simp add: map_of_eq_None_iff)
  qed
  then have "pg_rows ops (pg_cci ops db') = ?rows"
    using built_rows_sorted [OF assms(5)]
    by (intro pg_rows_eqI [OF assms(1)]) (auto simp: pg_cci_laws [OF assms(1)])
  moreover have "fst (last ?rows) = SHARD_TABLE_RANGE_MAX"
    using assms(4) by (simp add: built_rows_def last_map range_point_def)
  ultimately show ?thesis
    using assms(4-6) db' unfolding built_rows_def
    by (simp add: falcon_build_shard_table_def InvalidateShardTableShmemCache_def)
qed

theorem falcon_build_shard_table_rows_witness:
  "\<exists>s'. falcon_build_shard_table pg_alist_ops [7, 8] 3 (ShardTableShmemInit ([], [], [])) = Inr s' \<and>
    pg_rows pg_alist_ops (shard_db s') = [(715827882, 7), (1431655764, 8), (2147483647, 7)]"
proof -
  have clean: "pg_clean pg_alist_ops (shard_db (ShardTableShmemInit ([] :: (int \<times> int) list, [], [])))"
    "pg_vis pg_alist_ops (shard_db (ShardTableShmemInit ([] :: (int \<times> int) list, [], []))) = Map.empty"
    by (simp_all add: pg_clean_def pg_alist_ops_def ShardTableShmemInit_def)
  have pts: "map (\<lambda>j. (range_point 3 j, [7, 8 :: int] ! (j mod length [7, 8 :: int]))) [0..<3] =
      [(715827882, 7), (1431655764, 8), (2147483647, 7)]"
    by (simp add: range_point_def SHARD_TABLE_RANGE_MIN_def SHARD_TABLE_RANGE_MAX_def upt_rec)
  show ?thesis
    using falcon_build_shard_table_rows [OF pg_alist_ok clean, of 3 "[7, 8]", unfolded pts]
    by (auto simp: SHARD_COUNT_MAX_def)
qed

subsection \<open>Routing\<close>

lemma search_in_cache:
  assumes "sorted (map fst cache)" and "cache \<noteq> []" and "h \<le> fst (last cache)"
  defines "k \<equiv> shard_bsearch cache h 0 (length cache)"
  shows "k < length cache" and "h \<le> fst (cache ! k)" and "i < k \<Longrightarrow> fst (cache ! i) < h"
proof -
  from shard_bsearch_bounds [OF assms(1), of 0 "length cache" h]
  have k: "k \<le> length cache" "\<forall>i < k. fst (cache ! i) < h"
    "\<forall>i. k \<le> i \<and> i < length cache \<longrightarrow> h \<le> fst (cache ! i)" by (auto simp: k_def)
  show lt: "k < length cache"
  proof (rule ccontr)
    assume "\<not> k < length cache"
    with k(1) have "k = length cache" by simp
    with k(2) assms(2) have "fst (last cache) < h" by (simp add: last_conv_nth)
    with assms(3) show False by simp
  qed
  with k(3) show "h \<le> fst (cache ! k)" by simp
  show "fst (cache ! i) < h" if "i < k" using k(2) that by simp
qed

lemma ReloadShardTableShmemCache_fresh:
  assumes "shard_cache.coherent ops s" and "length (pg_rows ops (shard_db s)) \<le> SHARD_COUNT_MAX"
  obtains t where "ReloadShardTableShmemCache ops s = Inr t" and "ShardTableShmemCache t = pg_rows ops (shard_db s)"
proof -
  obtain t where t: "ReloadShardTableShmemCache ops s = Inr t"
    using assms(2) by (cases "ShardTableShmemCacheInvalid s") (auto simp: ReloadShardTableShmemCache_def)
  then show ?thesis using shard_cache.reload_fresh(2) [OF assms(1) t] by (rule that)
qed

text \<open>
  The map is usable: it fits the cache and its last range point is the largest hash value.
\<close>

definition shard_map_ok :: "('db, int, int) pg_ops \<Rightarrow> 'db shard_state \<Rightarrow> bool" where
  "shard_map_ok ops s \<longleftrightarrow> shard_cache.coherent ops s \<and> pg_rows ops (shard_db s) \<noteq> [] \<and>
     length (pg_rows ops (shard_db s)) \<le> SHARD_COUNT_MAX \<and>
     fst (last (pg_rows ops (shard_db s))) = SHARD_TABLE_RANGE_MAX"

text \<open>
  C22. Every inode-table key is routed: on a usable shard map \<open>SearchShardInfoByShardValue\<close>
  returns a row of the table, the first one whose range point is not below the hash of the key.
\<close>

theorem SearchShardInfoByShardValue_total:
  assumes "pg_ok ops" and "shard_map_ok ops s"
  shows "\<exists>row t. SearchShardInfoByShardValue hash ops key s = Inr (row, t) \<and>
    row \<in> set (pg_rows ops (shard_db s)) \<and> HashShard hash key \<le> fst row \<and>
    filter (\<lambda>r. HashShard hash key \<le> fst r \<and> fst r < fst row) (pg_rows ops (shard_db s)) = []"
proof -
  let ?rows = "pg_rows ops (shard_db s)" and ?h = "HashShard hash key"
  let ?k = "shard_bsearch ?rows ?h 0 (length ?rows)"
  from assms(2) have ne: "?rows \<noteq> []" and coh: "shard_cache.coherent ops s"
    and len: "length ?rows \<le> SHARD_COUNT_MAX" and last: "?h \<le> fst (last ?rows)"
    using HashShard_range [of hash key] by (auto simp: shard_map_ok_def SHARD_TABLE_RANGE_MAX_def)
  obtain t where t: "ReloadShardTableShmemCache ops s = Inr t" "ShardTableShmemCache t = ?rows"
    using ReloadShardTableShmemCache_fresh [OF coh len] by blast
  note srt = pg_rowsD(1) [OF assms(1), of "shard_db s"]
  note k = search_in_cache [OF srt ne last]
  have "\<not> (?h \<le> fst (?rows ! i) \<and> fst (?rows ! i) < fst (?rows ! ?k))" if "i < length ?rows" for i
    using k(1) k(3) [of i] sorted_nth_mono [OF srt, of ?k i] that by (cases "i < ?k") auto
  then have "filter (\<lambda>r. ?h \<le> fst r \<and> fst r < fst (?rows ! ?k)) ?rows = []"
    unfolding filter_empty_conv by (metis in_set_conv_nth)
  then show ?thesis
    using k(1,2) t by (auto simp: SearchShardInfoByShardValue_def SearchShardInfoByHashValue_def Let_def)
qed

definition shard_sample :: "(int, int) pg_alist shard_state" where
  "shard_sample = ShardTableShmemInit ([(1000, 1), (2147483647, 2)], [], [])"

lemma shard_sample_rows: "pg_rows pg_alist_ops (shard_db shard_sample) = [(1000, 1), (2147483647, 2)]"
  by (simp add: shard_sample_def ShardTableShmemInit_def pg_alist_ops_def)

lemma shard_sample_ok: "shard_map_ok pg_alist_ops shard_sample"
proof -
  have "ShardTableShmemCacheInvalid shard_sample" by (simp add: shard_sample_def ShardTableShmemInit_def)
  then show ?thesis
    by (simp add: shard_map_ok_def shard_sample_rows shard_cache.coherent_def SHARD_COUNT_MAX_def
        SHARD_TABLE_RANGE_MAX_def)
qed

theorem SearchShardInfoByShardValue_total_witness:
  "\<exists>row t. SearchShardInfoByShardValue (\<lambda>w. w + 2000) pg_alist_ops 5 shard_sample = Inr (row, t) \<and>
    row \<in> {(1000, 1), (2147483647, 2)}"
  using SearchShardInfoByShardValue_total [OF pg_alist_ok shard_sample_ok, of "\<lambda>w. w + 2000" 5]
  by (auto simp: shard_sample_rows)

lemma shard_infos_nth:
  "i < length rows \<Longrightarrow> shard_infos conn low rows ! i =
    \<lparr>rangeMin = (if i = 0 then low else fst (rows ! (i - 1)) + 1), rangeMax = fst (rows ! i),
     host = fst (conn (snd (rows ! i))), port = snd (conn (snd (rows ! i))), serverId = snd (rows ! i)\<rparr>"
proof (induction rows arbitrary: low i)
  case (Cons row rows)
  obtain p s where row: "row = (p, s)" by (cases row)
  show ?case
  proof (cases i)
    case 0
    then show ?thesis by (simp add: row)
  next
    case (Suc j)
    with Cons show ?thesis by (cases j) (auto simp: row)
  qed
qed simp

lemma length_shard_infos [simp]: "length (shard_infos conn low rows) = length rows"
  by (induction rows arbitrary: low) auto



subsection \<open>Changing the map\<close>

lemma update_shards_vis:
  assumes "pg_ok ops"
  shows "pg_clean ops db \<Longrightarrow> \<exists>db'. update_shards ops changes db = Inr db' \<and> pg_clean ops db' \<and>
    pg_vis ops db' = pg_vis ops db ++ map_of (rev changes)"
proof (induction changes arbitrary: db)
  case Nil
  then show ?case by simp
next
  case (Cons c changes)
  obtain p v where c: "c = (p, v)" by (cases c)
  obtain db1 where db1: "(case pg_vis ops db p of None \<Rightarrow> pg_insert ops db p v | Some _ \<Rightarrow> pg_update ops db p v) = Some db1"
    and vis: "pg_vis ops (pg_cci ops db1) = (pg_vis ops db)(p \<mapsto> v)"
  proof (cases "pg_vis ops db p")
    case None
    then show ?thesis using pg_insert_clean [OF assms Cons.prems None, of v] that by auto
  next
    case (Some w)
    then show ?thesis using pg_update_clean [OF assms Cons.prems Some, of v] that by auto
  qed
  from Cons.IH [OF pg_cci_laws(3) [OF assms, of db1]] obtain db' where
    "update_shards ops changes (pg_cci ops db1) = Inr db'" "pg_clean ops db'"
    "pg_vis ops db' = pg_vis ops (pg_cci ops db1) ++ map_of (rev changes)" by blast
  with c db1 vis show ?case by (simp add: map_add_def fun_eq_iff split: option.splits)
qed



end
