(* ===== verification/Falcon_Monad.thy ===== *)
theory Falcon_Monad
  imports Error_Code
begin

text \<open>
  The calls of the metadata engine: a procedure changes the state of a server and returns a
  value, raises a FalconFS error (\<open>Inl\<close>; the state at the raise is kept, because locks and shared
  memory survive it), or never returns (\<open>None\<close>).  The collection \<open>proc\<close> holds the rules
  that run a procedure.
\<close>

type_synonym ('s, 'a) proc = "'s \<Rightarrow> ('a falcon \<times> 's) option"

named_theorems proc \<open>rules that run a procedure\<close>

definition return :: "'a \<Rightarrow> ('s, 'a) proc" where
  [proc]: "return x s = Some (Inr x, s)"

definition raise :: "FalconErrorCode \<Rightarrow> ('s, 'a) proc" where
  [proc]: "raise e s = Some (Inl e, s)"

definition gets :: "('s \<Rightarrow> 'a) \<Rightarrow> ('s, 'a) proc" where
  [proc]: "gets f s = Some (Inr (f s), s)"

definition modify :: "('s \<Rightarrow> 's) \<Rightarrow> ('s, unit) proc" where
  [proc]: "modify f s = Some (Inr (), f s)"

definition bindM :: "('s, 'a) proc \<Rightarrow> ('a \<Rightarrow> ('s, 'b) proc) \<Rightarrow> ('s, 'b) proc" where
  "bindM m f s = (case m s of
     None \<Rightarrow> None
   | Some (Inl e, t) \<Rightarrow> Some (Inl e, t)
   | Some (Inr x, t) \<Rightarrow> f x t)"

text \<open>A block that raises unless a condition holds.\<close>

definition require :: "bool \<Rightarrow> FalconErrorCode \<Rightarrow> ('s, unit) proc" where
  "require b e = (if b then return () else raise e)"

text \<open>A loop over a list that collects the results, and a loop that threads a value.\<close>

primrec mapM :: "('x \<Rightarrow> ('s, 'y) proc) \<Rightarrow> 'x list \<Rightarrow> ('s, 'y list) proc" where
  "mapM f [] = return []"
| "mapM f (x # xs) = bindM (f x) (\<lambda>y. bindM (mapM f xs) (\<lambda>ys. return (y # ys)))"

primrec foldM :: "('x \<Rightarrow> 'a \<Rightarrow> ('s, 'a) proc) \<Rightarrow> 'x list \<Rightarrow> 'a \<Rightarrow> ('s, 'a) proc" where
  "foldM f [] a = return a"
| "foldM f (x # xs) a = bindM (f x a) (foldM f xs)"

text \<open>A call that works on a part of the state.\<close>

definition zoom :: "('s \<Rightarrow> 't) \<Rightarrow> ('t \<Rightarrow> 's \<Rightarrow> 's) \<Rightarrow> ('t, 'a) proc \<Rightarrow> ('s, 'a) proc" where
  "zoom get put m s = (case m (get s) of
     None \<Rightarrow> None
   | Some (r, t) \<Rightarrow> Some (r, put t s))"

text \<open>A call that returns only a new state, or an error and no change.\<close>

definition of_falcon :: "('s \<Rightarrow> 's falcon) \<Rightarrow> ('s, unit) proc" where
  "of_falcon f s = (case f s of Inl e \<Rightarrow> Some (Inl e, s) | Inr t \<Rightarrow> Some (Inr (), t))"

definition of_falcon_value :: "('s \<Rightarrow> ('a \<times> 's) falcon) \<Rightarrow> ('s, 'a) proc" where
  "of_falcon_value f s = (case f s of Inl e \<Rightarrow> Some (Inl e, s) | Inr (x, t) \<Rightarrow> Some (Inr x, t))"

definition of_falcon_option :: "('s \<Rightarrow> 's falcon option) \<Rightarrow> ('s, unit) proc" where
  "of_falcon_option f s = (case f s of
     None \<Rightarrow> None | Some (Inl e) \<Rightarrow> Some (Inl e, s) | Some (Inr t) \<Rightarrow> Some (Inr (), t))"

subsection \<open>Running procedures\<close>

lemma bindM_Some [proc]:
  "m s = Some (Inr x, t) \<Longrightarrow> bindM m f s = f x t"
  "m s = Some (Inl e, t) \<Longrightarrow> bindM m f s = Some (Inl e, t)"
  "m s = None \<Longrightarrow> bindM m f s = None"
  by (simp_all add: bindM_def)

lemma bindM_simps [simp]:
  "bindM (return x) f = f x"
  "bindM (raise e) f = raise e"
  "bindM (gets g) f s = f (g s) s"
  "bindM (modify h) f2 s = f2 () (h s)"
  by (simp_all add: bindM_def return_def raise_def gets_def modify_def fun_eq_iff)

lemma bindM_assoc: "bindM (bindM m f) g = bindM m (\<lambda>x. bindM (f x) g)"
  by (auto simp: bindM_def fun_eq_iff split: option.splits sum.splits)

lemma require_simps [simp]: "require True e = return ()" "require False e = raise e"
  by (simp_all add: require_def)

lemma bindM_Inr_E:
  assumes "bindM m f s = Some (Inr y, u)"
  obtains x t where "m s = Some (Inr x, t)" and "f x t = Some (Inr y, u)"
  using assms by (auto simp: bindM_def split: option.splits sum.splits)

lemma bindM_E:
  assumes "bindM m f s = Some (r, u)"
  obtains (raised) e where "m s = Some (Inl e, u)" and "r = Inl e"
  | (continued) x t where "m s = Some (Inr x, t)" and "f x t = Some (r, u)"
  using assms by (auto simp: bindM_def split: option.splits sum.splits)

text \<open>The outcome of a run of which only a part of the value is known.\<close>

lemma run_valueE:
  assumes "map_option (map_sum id f \<circ> fst) r = Some (Inr y)"
  obtains x t where "r = Some (Inr x, t)" and "f x = y"
proof -
  from assms obtain v t where "r = Some (v, t)" and "map_sum id f v = Inr y" by auto
  then show ?thesis using that by (cases v) auto
qed

subsection \<open>Invariants\<close>

text \<open>
  \<open>keeps P m\<close>: the call \<open>m\<close> keeps \<open>P\<close>, whether it returns or raises.
\<close>

definition keeps :: "('s \<Rightarrow> bool) \<Rightarrow> ('s, 'a) proc \<Rightarrow> bool" where
  "keeps P m \<longleftrightarrow> (\<forall>s r t. P s \<longrightarrow> m s = Some (r, t) \<longrightarrow> P t)"

lemma keepsI: "(\<And>s r t. P s \<Longrightarrow> m s = Some (r, t) \<Longrightarrow> P t) \<Longrightarrow> keeps P m"
  by (simp add: keeps_def)

lemma keepsD: "keeps P m \<Longrightarrow> P s \<Longrightarrow> m s = Some (r, t) \<Longrightarrow> P t"
  by (auto simp: keeps_def)

lemma keeps_return [intro, simp]: "keeps P (return x)"
  and keeps_raise [intro, simp]: "keeps P (raise e)"
  and keeps_gets [intro, simp]: "keeps P (gets f)"
  by (simp_all add: keeps_def return_def raise_def gets_def)

lemma keeps_modify: "(\<And>s. P s \<Longrightarrow> P (h s)) \<Longrightarrow> keeps P (modify h)"
  by (auto simp: keeps_def modify_def)

lemma keeps_require [intro, simp]: "keeps P (require b e)"
  by (simp add: require_def)

lemma keeps_bindM:
  assumes "keeps P m" and "\<And>x. keeps P (f x)"
  shows "keeps P (bindM m f)"
proof (rule keepsI)
  fix s r t assume "P s" and "bindM m f s = Some (r, t)"
  from this(2) show "P t"
  proof (cases rule: bindM_E)
    case (raised e)
    with assms(1) \<open>P s\<close> show ?thesis by (blast dest: keepsD)
  next
    case (continued x u)
    with assms(1) \<open>P s\<close> have "P u" by (blast dest: keepsD)
    with assms(2) continued(2) show ?thesis by (blast dest: keepsD)
  qed
qed

lemma keeps_mapM: "(\<And>x. x \<in> set xs \<Longrightarrow> keeps P (f x)) \<Longrightarrow> keeps P (mapM f xs)"
  by (induction xs) (auto intro!: keeps_bindM)

lemma keeps_foldM: "(\<And>x a. x \<in> set xs \<Longrightarrow> keeps P (f x a)) \<Longrightarrow> keeps P (foldM f xs a)"
  by (induction xs arbitrary: a) (auto intro!: keeps_bindM)

end
