(* ===== verification/Backend_Locks.thy ===== *)
theory Backend_Locks
  imports RWLock
begin

text \<open>
  The lock words as one backend relies on them between its own calls: every word counts the
  handles of this backend and, next to them, at most \<open>N\<close> references of the others.  The
  operations of \<open>RWLock\<close> keep this, and a lock on which the backend has a handle is not
  destroyable.
\<close>

definition handles :: "'l rw_state \<Rightarrow> 'l \<Rightarrow> RWLockMode \<Rightarrow> nat" where
  "handles r l m = count_list (held_rwlocks r) (l, m)"

definition holds :: "'l rw_state \<Rightarrow> 'l \<Rightarrow> bool" where
  "holds r l \<longleftrightarrow> l \<in> fst ` set (held_rwlocks r)"

definition all_handles :: "'l rw_state \<Rightarrow> 'l \<Rightarrow> nat" where
  "all_handles r l = handles r l RW_SHARED + handles r l RW_EXCLUSIVE + handles r l RW_DECLARE"

definition word_ok :: "nat \<Rightarrow> 'l rw_state \<Rightarrow> 'l \<Rightarrow> bool" where
  "word_ok N r l \<longleftrightarrow> (\<exists>S E R. S + E \<le> R \<and> R \<le> N \<and>
     lock_word (lock_mem r l) (S + handles r l RW_SHARED) (E + handles r l RW_EXCLUSIVE) (R + all_handles r l))"

definition locks_ok :: "nat \<Rightarrow> 'l rw_state \<Rightarrow> bool" where
  "locks_ok N r \<longleftrightarrow> N < 2 ^ 20 \<and> length (held_rwlocks r) \<le> MAX_SIMUL_RWLOCKS \<and> (\<forall>l. word_ok N r l)"

lemma holds_iff_handles: "holds r l \<longleftrightarrow> all_handles r l \<noteq> 0"
proof -
  have "holds r l \<longleftrightarrow> (\<exists>m. (l, m) \<in> set (held_rwlocks r))" by (force simp: holds_def)
  also have "\<dots> \<longleftrightarrow> (\<exists>m. handles r l m \<noteq> 0)"
    by (simp add: handles_def count_list_0_iff)
  also have "\<dots> \<longleftrightarrow> all_handles r l \<noteq> 0"
  proof
    assume "\<exists>m. handles r l m \<noteq> 0"
    then obtain m where "handles r l m \<noteq> 0" ..
    then show "all_handles r l \<noteq> 0" by (cases m) (simp_all add: all_handles_def)
  next
    assume "all_handles r l \<noteq> 0"
    then have "handles r l RW_SHARED \<noteq> 0 \<or> handles r l RW_EXCLUSIVE \<noteq> 0 \<or> handles r l RW_DECLARE \<noteq> 0"
      by (simp add: all_handles_def)
    then show "\<exists>m. handles r l m \<noteq> 0" by blast
  qed
  finally show ?thesis .
qed

lemma handles_le_length:
  "handles r l RW_SHARED + handles r l RW_EXCLUSIVE + handles r l RW_DECLARE \<le> length (held_rwlocks r)"
proof -
  have "count_list xs (l, RW_SHARED) + count_list xs (l, RW_EXCLUSIVE) + count_list xs (l, RW_DECLARE)
      \<le> length xs" for xs
    by (induction xs) auto
  then show ?thesis by (simp add: handles_def)
qed

lemma word_okI:
  assumes "S + E \<le> R" and "R \<le> N"
    and "lock_word (lock_mem r l) (S + handles r l RW_SHARED) (E + handles r l RW_EXCLUSIVE) (R + all_handles r l)"
  shows "word_ok N r l"
  using assms unfolding word_ok_def by blast

lemma locks_okE:
  assumes "locks_ok N r"
  obtains S E R where "S + E \<le> R" and "R \<le> N"
    and "lock_word (lock_mem r l) (S + handles r l RW_SHARED) (E + handles r l RW_EXCLUSIVE) (R + all_handles r l)"
proof -
  from assms have "word_ok N r l" by (simp add: locks_ok_def)
  with that show thesis unfolding word_ok_def by blast
qed

lemma locks_ok_update:
  assumes "locks_ok N r" and "length (held_rwlocks t) \<le> MAX_SIMUL_RWLOCKS"
    and "\<And>k m. k \<noteq> l \<Longrightarrow> handles t k m = handles r k m \<and> lock_mem t k = lock_mem r k"
    and "word_ok N t l"
  shows "locks_ok N t"
proof -
  have "word_ok N t k" for k
  proof (cases "k = l")
    case False
    with assms(1,3) show ?thesis by (simp add: locks_ok_def word_ok_def all_handles_def)
  qed (simp add: assms(4))
  with assms(1,2) show ?thesis by (simp add: locks_ok_def)
qed

lemma locks_ok_bounds:
  assumes "locks_ok N r" and "S + E \<le> R" and "R \<le> N"
  shows "R + all_handles r l + 1 < 2 ^ 25" and "S + handles r l RW_SHARED + 1 < 2 ^ 24"
proof -
  have N: "N < 1048576" and len: "length (held_rwlocks r) \<le> 8196"
    using assms(1) by (simp_all add: locks_ok_def MAX_SIMUL_RWLOCKS_def)
  have "all_handles r l \<le> length (held_rwlocks r)" and "handles r l RW_SHARED \<le> length (held_rwlocks r)"
    using handles_le_length [of r l] by (simp_all add: all_handles_def)
  with N len assms(2,3) have b: "R + all_handles r l + 1 < 2000000" "S + handles r l RW_SHARED + 1 < 2000000"
    by linarith+
  show "R + all_handles r l + 1 < 2 ^ 25" using b(1) by (rule less_trans) simp
  show "S + handles r l RW_SHARED + 1 < 2 ^ 24" using b(2) by (rule less_trans) simp
qed

lemma RWLockDeclare_ok:
  assumes "locks_ok N r" and "RWLockDeclare l r = Inr t"
  shows "locks_ok N t" and "held_rwlocks t = held_rwlocks r @ [(l, RW_DECLARE)]"
proof -
  have t: "t = r\<lparr>InterruptHoldoffCount := InterruptHoldoffCount r + 1,
      lock_mem := (lock_mem r)(l := lock_mem r l + RW_VAL_REF_COUNT),
      held_rwlocks := held_rwlocks r @ [(l, RW_DECLARE)]\<rparr>"
    and len: "length (held_rwlocks r) < MAX_SIMUL_RWLOCKS"
    using assms(2) by (auto simp: RWLockDeclare_def split: if_splits)
  then show "held_rwlocks t = held_rwlocks r @ [(l, RW_DECLARE)]" by simp
  from assms(1) obtain S E R where w: "S + E \<le> R" "R \<le> N"
    "lock_word (lock_mem r l) (S + handles r l RW_SHARED) (E + handles r l RW_EXCLUSIVE) (R + all_handles r l)"
    by (rule locks_okE [where l = l])
  have "lock_word (lock_mem t l) (S + handles r l RW_SHARED) (E + handles r l RW_EXCLUSIVE) (R + all_handles r l + 1)"
    using lock_word_add_ref [OF w(3) locks_ok_bounds(1) [OF assms(1) w(1,2)]] t by simp
  with w have "word_ok N t l"
    by (intro word_okI [of S E R]) (simp_all add: t handles_def all_handles_def)
  then show "locks_ok N t"
    using len by (intro locks_ok_update [OF assms(1), where l = l]) (simp_all add: t handles_def)
qed

lemma RWLockAcquire_ok:
  assumes "locks_ok N r" and "RWLockAcquire l m r = Some (Inr t)"
  shows "locks_ok N t" and "held_rwlocks t = held_rwlocks r @ [(l, m)]" and "m \<noteq> RW_DECLARE"
proof -
  let ?w = "lock_mem r l + RW_VAL_REF_COUNT"
  obtain d where d: "RWLockAttemptLock_desired ?w m = (d, True)"
    and t: "t = r\<lparr>InterruptHoldoffCount := InterruptHoldoffCount r + 1,
      lock_mem := (lock_mem r)(l := d), held_rwlocks := held_rwlocks r @ [(l, m)]\<rparr>"
    and len: "length (held_rwlocks r) < MAX_SIMUL_RWLOCKS" and m: "m \<noteq> RW_DECLARE"
    using assms(2) by (auto simp: RWLockAcquire_def RWLockSpin_eq prod_eq_iff split: if_splits)
  then show "held_rwlocks t = held_rwlocks r @ [(l, m)]" and "m \<noteq> RW_DECLARE" by simp_all
  from assms(1) obtain S E R where w: "S + E \<le> R" "R \<le> N"
    "lock_word (lock_mem r l) (S + handles r l RW_SHARED) (E + handles r l RW_EXCLUSIVE) (R + all_handles r l)"
    by (rule locks_okE [where l = l])
  note w' = lock_word_add_ref [OF w(3) locks_ok_bounds(1) [OF assms(1) w(1,2)]]
  have "word_ok N t l"
  proof (cases "m = RW_EXCLUSIVE")
    case True
    with attempt_exclusive_taken [OF w'] d
    have z: "S + handles r l RW_SHARED = 0" "E + handles r l RW_EXCLUSIVE = 0"
      and "lock_word d 0 1 (R + all_handles r l + 1)"
      by auto
    then have "lock_word d (S + handles r l RW_SHARED) (E + handles r l RW_EXCLUSIVE + 1) (R + all_handles r l + 1)"
      by simp
    with w(1,2) True show ?thesis
      by (intro word_okI [of S E R]) (simp_all add: t handles_def all_handles_def)
  next
    case False
    with m have "m = RW_SHARED" by (cases m) simp_all
    with attempt_shared_taken [OF w'] d locks_ok_bounds(2) [OF assms(1) w(1,2)]
    have z: "E + handles r l RW_EXCLUSIVE = 0"
      and "lock_word d (S + handles r l RW_SHARED + 1) 0 (R + all_handles r l + 1)"
      by auto
    then have "lock_word d (S + handles r l RW_SHARED + 1) (E + handles r l RW_EXCLUSIVE) (R + all_handles r l + 1)"
      by simp
    with w(1,2) \<open>m = RW_SHARED\<close> show ?thesis
      by (intro word_okI [of S E R]) (simp_all add: t handles_def all_handles_def)
  qed
  then show "locks_ok N t"
    using len by (intro locks_ok_update [OF assms(1), where l = l]) (simp_all add: t handles_def)
qed

lemma release_word_ok:
  assumes "locks_ok N r" and "t = r\<lparr>held_rwlocks := xs, lock_mem := (lock_mem r)(l := lock_mem r l - handle_word m),
      InterruptHoldoffCount := h\<rparr>"
    and "\<And>y. count_list (held_rwlocks r) y = count_list xs y + (if (l, m) = y then 1 else 0)"
    and "length xs \<le> MAX_SIMUL_RWLOCKS"
  shows "locks_ok N t"
proof -
  from assms(1) obtain S E R where w: "S + E \<le> R" "R \<le> N"
    "lock_word (lock_mem r l) (S + handles r l RW_SHARED) (E + handles r l RW_EXCLUSIVE) (R + all_handles r l)"
    by (rule locks_okE [where l = l])
  have hd: "handles r k m' = handles t k m' + (if (l, m) = (k, m') then 1 else 0)" for k m'
    using assms(3) [of "(k, m')"] by (simp add: handles_def assms(2))
  have "word_ok N t l"
  proof (cases m)
    case RW_EXCLUSIVE
    have "lock_word (lock_mem r l) (S + handles t l RW_SHARED) (E + handles t l RW_EXCLUSIVE + 1) (R + all_handles t l + 1)"
      using w(3) RW_EXCLUSIVE by (simp add: hd all_handles_def)
    then have "lock_word (lock_mem r l - RW_VAL_EXCLUSIVE - RW_VAL_REF_COUNT)
        (S + handles t l RW_SHARED) (E + handles t l RW_EXCLUSIVE) (R + all_handles t l)"
      by (intro lock_word_sub_ref lock_word_sub_exclusive)
    with w RW_EXCLUSIVE show ?thesis
      by (intro word_okI [of S E R]) (simp_all add: assms(2) handle_word_def release_unit_def algebra_simps)
  next
    case RW_SHARED
    have "lock_word (lock_mem r l) (S + handles t l RW_SHARED + 1) (E + handles t l RW_EXCLUSIVE) (R + all_handles t l + 1)"
      using w(3) RW_SHARED by (simp add: hd all_handles_def)
    then have "lock_word (lock_mem r l - RW_VAL_SHARED - RW_VAL_REF_COUNT)
        (S + handles t l RW_SHARED) (E + handles t l RW_EXCLUSIVE) (R + all_handles t l)"
      by (intro lock_word_sub_ref lock_word_sub_shared)
    with w RW_SHARED show ?thesis
      by (intro word_okI [of S E R]) (simp_all add: assms(2) handle_word_def release_unit_def algebra_simps)
  next
    case RW_DECLARE
    have "lock_word (lock_mem r l) (S + handles t l RW_SHARED) (E + handles t l RW_EXCLUSIVE) (R + all_handles t l + 1)"
      using w(3) RW_DECLARE by (simp add: hd all_handles_def)
    then have "lock_word (lock_mem r l - RW_VAL_REF_COUNT)
        (S + handles t l RW_SHARED) (E + handles t l RW_EXCLUSIVE) (R + all_handles t l)"
      by (rule lock_word_sub_ref)
    with w RW_DECLARE show ?thesis
      by (intro word_okI [of S E R]) (simp_all add: assms(2) handle_word_def)
  qed
  moreover have "handles t k m' = handles r k m' \<and> lock_mem t k = lock_mem r k" if "k \<noteq> l" for k m'
    using hd [of k m'] that by (simp add: assms(2))
  moreover have "length (held_rwlocks t) \<le> MAX_SIMUL_RWLOCKS" using assms(4) by (simp add: assms(2))
  ultimately show ?thesis by (intro locks_ok_update [OF assms(1), where l = l])
qed

lemma RWLockUndeclare_ok:
  assumes "locks_ok N r" and "held_rwlocks r = xs @ [(l, RW_DECLARE), (l, m)]" and "m \<noteq> RW_DECLARE"
  obtains t where "RWLockUndeclare l r = Inr t" and "locks_ok N t" and "held_rwlocks t = xs @ [(l, m)]"
proof -
  have last: "find_last (\<lambda>h. h = (l, RW_DECLARE)) (held_rwlocks r) = Some (length xs)"
    using assms(2,3) by (simp add: find_last_def nth_append)
  have rest: "remove_at (length xs) (held_rwlocks r) = xs @ [(l, m)]"
    by (simp add: remove_at_def assms(2))
  let ?t = "r\<lparr>held_rwlocks := xs @ [(l, m)],
      lock_mem := (lock_mem r)(l := lock_mem r l - handle_word RW_DECLARE),
      InterruptHoldoffCount := InterruptHoldoffCount r - 1\<rparr>"
  have "RWLockUndeclare l r = Inr ?t"
    by (simp add: RWLockUndeclare_def handle_word_def last rest)
  moreover have "locks_ok N ?t"
    using assms(1) by (rule release_word_ok [OF _ refl]) (use assms(1) in \<open>auto simp: assms(2) locks_ok_def\<close>)
  ultimately show thesis by (rule that) simp
qed

lemma RWLockReleaseAll_ok:
  assumes "locks_ok N r"
  shows "\<exists>t. RWLockReleaseAll keep r = Some (Inr t) \<and> locks_ok N t \<and> held_rwlocks t = []"
  using assms
proof (induction "held_rwlocks r" arbitrary: r rule: rev_induct)
  case Nil
  then show ?case by (subst RWLockReleaseAll.simps) simp
next
  case (snoc h xs)
  obtain l m where h: "h = (l, m)" by (cases h)
  with snoc.hyps(2) have held: "held_rwlocks r = xs @ [(l, m)]" by simp
  let ?t = "r\<lparr>held_rwlocks := xs, lock_mem := (lock_mem r)(l := lock_mem r l - handle_word m),
    InterruptHoldoffCount := InterruptHoldoffCount r - (if keep then 0 else 1)\<rparr>"
  have "RWLockReleaseAll keep r = RWLockReleaseAll keep ?t"
    by (subst RWLockReleaseAll.simps) (simp add: held RWLockReleaseLast_snoc [OF held])
  moreover have "locks_ok N ?t"
    using snoc.prems by (rule release_word_ok [OF _ refl]) (use snoc.prems held in \<open>auto simp: locks_ok_def\<close>)
  ultimately show ?case using snoc.hyps(1) [of ?t] by simp
qed

text \<open>A lock with a handle of this backend is referenced.\<close>

lemma holds_not_destroyable:
  assumes "locks_ok N r" and "holds r l"
  shows "\<not> RWLockCheckDestroyable (lock_mem r l)"
proof -
  from assms(1) obtain S E R where
    "lock_word (lock_mem r l) (S + handles r l RW_SHARED) (E + handles r l RW_EXCLUSIVE) (R + all_handles r l)"
    by (rule locks_okE [where l = l])
  from lock_word_destroyable_iff [OF this] assms(2) show ?thesis by (simp add: holds_iff_handles)
qed

lemma RWLockInitialize_ok:
  assumes "locks_ok N r" and "\<not> holds r l"
  shows "locks_ok N (RWLockInitialize l (r\<lparr>lock_mem := (lock_mem r)(l := w)\<rparr>))"
proof -
  have "all_handles r l = 0" using assms(2) by (simp add: holds_iff_handles)
  with assms(1) lock_word_0 show ?thesis
    by (intro locks_ok_update [OF assms(1), where l = l] word_okI [of 0 0 0])
      (auto simp: RWLockInitialize_def handles_def all_handles_def locks_ok_def)
qed

end
