(* ===== verification/Dir_Path_Hash.thy ===== *)
theory Dir_Path_Hash
  imports Backend_Locks Pg_Table Falcon_Monad
    "HOL-Library.Char_ord" "HOL-Library.List_Lexorder"
begin

text \<open>
  The directory table (\<open>falcon/metadb/directory_table.c\<close>) and its shared-memory hash
  (\<open>falcon/dir_path_shmem/dir_path_hash.c\<close>).

  A directory is named by the pair of its parent's number and its name; the hash maps it to an
  item with the directory's number, a use counter and a reader/writer lock.  The item is named by
  its key, also as the owner of its lock (\<open>rwlocks\<close>, see \<open>RWLock\<close>).  A transaction notes what it
  changes in \<open>DirPathHashToCommit\<close>; the items change at commit.  The operations are those of one
  backend while no other backend runs inside them; a lock that is never released or a partition
  in which nothing can be evicted makes a call not return.

  PostgreSQL's hash tables are parameters (\<open>dir_env\<close>): the hash function, whether a partition has
  room for an entry, what a new element holds before it is set, the order in which a scan meets
  the entries, and \<open>rand\<close>.  The directory table is a parameter as in \<open>Pg_Table\<close>.
\<close>

subsection \<open>Data\<close>

text \<open>The key of an entry, ordered as \<open>dir_path_compare\<close> orders it.\<close>

datatype DirPathHashKey = DirKey (key_parentId: u64) (key_fileName: string)

type_synonym dir_key = DirPathHashKey

instantiation DirPathHashKey :: linorder
begin

definition less_eq_DirPathHashKey :: "DirPathHashKey \<Rightarrow> DirPathHashKey \<Rightarrow> bool" where
  "less_eq_DirPathHashKey d1 d2 \<longleftrightarrow>
    key_parentId d1 < key_parentId d2 \<or> key_parentId d1 = key_parentId d2 \<and> key_fileName d1 \<le> key_fileName d2"

definition less_DirPathHashKey :: "DirPathHashKey \<Rightarrow> DirPathHashKey \<Rightarrow> bool" where
  "less_DirPathHashKey d1 d2 \<longleftrightarrow>
    key_parentId d1 < key_parentId d2 \<or> key_parentId d1 = key_parentId d2 \<and> key_fileName d1 < key_fileName d2"

instance
  by standard (auto simp: less_eq_DirPathHashKey_def less_DirPathHashKey_def DirPathHashKey.expand)

end

definition DIR_HASH_TABLE_PATH_NOT_EXIST :: u64 where
  "DIR_HASH_TABLE_PATH_NOT_EXIST = - 1"

definition DIR_HASH_TABLE_PATH_UNKNOWN :: u64 where
  "DIR_HASH_TABLE_PATH_UNKNOWN = - 2"

definition MAX_DIRECTORY_HASH_TO_COMMIT_ACTION_LENGTH :: nat where
  "MAX_DIRECTORY_HASH_TO_COMMIT_ACTION_LENGTH = 4096"

definition MAX_DIRECTORY_PATH_HASH_CAPACITY :: nat where
  "MAX_DIRECTORY_PATH_HASH_CAPACITY = 2048"

definition MAX_BUCKET_SUM_LRU_CLAER_BEGIN :: nat where
  "MAX_BUCKET_SUM_LRU_CLAER_BEGIN = MAX_DIRECTORY_PATH_HASH_CAPACITY div 4 * 3"

definition DIR_PATH_HASH_PARTITION_SIZE :: nat where
  "DIR_PATH_HASH_PARTITION_SIZE = 128"

record DirPathHashItem =
  item_inodeId :: u64
  usageCount :: int

datatype DirPathLockMode = DIR_LOCK_EXCLUSIVE | DIR_LOCK_SHARED | DIR_LOCK_NONE

text \<open>The entries \<open>'A'\<close> and \<open>'U'\<close> of \<open>DirPathHashToCommitAction\<close> with their key and number.\<close>

datatype DirPathHashAction = ActionAdd dir_key | ActionUpdate dir_key u64

type_synonym dir_hash = "dir_key \<Rightarrow> DirPathHashItem option"

record dir_env =
  hash_any_extended :: "string \<Rightarrow> u64 \<Rightarrow> u32"
  hash_room :: "dir_hash \<Rightarrow> nat \<Rightarrow> bool"
  hash_element :: "dir_key \<Rightarrow> DirPathHashItem \<times> u64"
  hash_scan :: "dir_hash \<Rightarrow> nat \<Rightarrow> nat option \<Rightarrow> dir_key list"
  rand :: "nat \<Rightarrow> nat"

record 'd dir_state =
  rwlocks :: "dir_key rw_state"
  PathDirHash :: dir_hash
  PathDirHashEntryCount :: "nat \<Rightarrow> u32"
  DirPathHashToCommit :: "DirPathHashAction list"
  DirectoryHashTableLastAcquiredLock :: "dir_key option"
  rand_calls :: nat
  directory_db :: 'd

subsection \<open>The directory table\<close>

definition SearchDirectoryTableInfo :: "('d, dir_key, u64) pg_ops \<Rightarrow> dir_key \<Rightarrow>
    (('d, 'm) dir_state_scheme, u64) proc" where
  "SearchDirectoryTableInfo ops k =
    gets (\<lambda>s. case pg_vis ops (directory_db s) k of
      None \<Rightarrow> DIR_HASH_TABLE_PATH_NOT_EXIST | Some inodeId \<Rightarrow> inodeId)"

definition InsertIntoDirectoryTable :: "('d, dir_key, u64) pg_ops \<Rightarrow> dir_key \<Rightarrow> u64 \<Rightarrow>
    (('d, 'm) dir_state_scheme, unit) proc" where
  "InsertIntoDirectoryTable ops k inodeId s = (case pg_insert ops (directory_db s) k inodeId of
     None \<Rightarrow> raise UNKNOWN s
   | Some db \<Rightarrow> return () (s\<lparr>directory_db := db\<rparr>))"

definition DeleteFromDirectoryTable :: "('d, dir_key, u64) pg_ops \<Rightarrow> dir_key \<Rightarrow>
    (('d, 'm) dir_state_scheme, unit) proc" where
  "DeleteFromDirectoryTable ops k s =
    (if pg_vis ops (directory_db s) k = None then raise ARGUMENT_ERROR s
     else case pg_delete ops (directory_db s) k of
       None \<Rightarrow> raise UNKNOWN s
     | Some db \<Rightarrow> return () (s\<lparr>directory_db := db\<rparr>))"

subsection \<open>What a transaction notes for its end\<close>

definition DirPathHashToCommitAddEntry :: "dir_key \<Rightarrow> (('d, 'm) dir_state_scheme, unit) proc" where
  "DirPathHashToCommitAddEntry k s =
    (if length (DirPathHashToCommit s) \<ge> MAX_DIRECTORY_HASH_TO_COMMIT_ACTION_LENGTH then raise PROGRAM_ERROR s
     else return () (s\<lparr>DirPathHashToCommit := DirPathHashToCommit s @ [ActionAdd k]\<rparr>))"

definition DirPathHashToCommitUpdateEntry :: "dir_key \<Rightarrow> u64 \<Rightarrow> (('d, 'm) dir_state_scheme, unit) proc" where
  "DirPathHashToCommitUpdateEntry k inodeId s =
    (if length (DirPathHashToCommit s) \<ge> MAX_DIRECTORY_HASH_TO_COMMIT_ACTION_LENGTH then raise PROGRAM_ERROR s
     else return () (s\<lparr>DirPathHashToCommit := DirPathHashToCommit s @ [ActionUpdate k inodeId]\<rparr>))"

text \<open>Evaluated with binary numbers.\<close>

lemma DirPathHashToCommit_code [code]:
  "DirPathHashToCommitAddEntry k s =
    (if int (length (DirPathHashToCommit s)) \<ge> 4096 then raise PROGRAM_ERROR s
     else return () (s\<lparr>DirPathHashToCommit := DirPathHashToCommit s @ [ActionAdd k]\<rparr>))"
  "DirPathHashToCommitUpdateEntry k inodeId s =
    (if int (length (DirPathHashToCommit s)) \<ge> 4096 then raise PROGRAM_ERROR s
     else return () (s\<lparr>DirPathHashToCommit := DirPathHashToCommit s @ [ActionUpdate k inodeId]\<rparr>))"
  by (simp_all add: DirPathHashToCommitAddEntry_def DirPathHashToCommitUpdateEntry_def
      MAX_DIRECTORY_HASH_TO_COMMIT_ACTION_LENGTH_def)

definition DirPathHashToCommitClear :: "('d, 'm) dir_state_scheme \<Rightarrow> ('d, 'm) dir_state_scheme" where
  "DirPathHashToCommitClear s = s\<lparr>DirPathHashToCommit := []\<rparr>"

subsection \<open>Eviction\<close>

definition dir_path_hash :: "dir_env \<Rightarrow> dir_key \<Rightarrow> u32" where
  "dir_path_hash env k = hash_any_extended env (key_fileName k) (key_parentId k)"

definition DIR_PATH_HASH_PARTITION_INDEX :: "u32 \<Rightarrow> nat" where
  "DIR_PATH_HASH_PARTITION_INDEX hashcode = unat hashcode mod DIR_PATH_HASH_PARTITION_SIZE"

definition partition_of :: "dir_env \<Rightarrow> dir_key \<Rightarrow> nat" where
  "partition_of env k = DIR_PATH_HASH_PARTITION_INDEX (dir_path_hash env k)"

definition item_destroyable :: "('d, 'm) dir_state_scheme \<Rightarrow> dir_key \<Rightarrow> bool" where
  "item_destroyable s k = RWLockCheckDestroyable (lock_mem (rwlocks s) k)"

text \<open>
  The scan gives the keys it meets.  The result is the entry it stops at, how many destroyable
  entries it met, and the state with their counters lowered.
\<close>

fun FindNextItem :: "dir_key list \<Rightarrow> ('d, 'm) dir_state_scheme \<Rightarrow>
    dir_key option \<times> nat \<times> ('d, 'm) dir_state_scheme" where
  "FindNextItem [] s = (None, 0, s)"
| "FindNextItem (k # ks) s =
    (case PathDirHash s k of
       None \<Rightarrow> FindNextItem ks s
     | Some item \<Rightarrow>
        if \<not> item_destroyable s k then FindNextItem ks s
        else let item' = item\<lparr>usageCount := usageCount item - 1\<rparr>;
                 s' = s\<lparr>PathDirHash := (PathDirHash s)(k \<mapsto> item')\<rparr>
             in if usageCount item' \<le> 0 then (Some k, 1, s')
                else let (e, n, s'') = FindNextItem ks s' in (e, Suc n, s''))"

text \<open>The inner loop: scan again until an entry is found or no entry is destroyable.\<close>

partial_function (option) find_victim :: "dir_env \<Rightarrow> nat \<Rightarrow> ('d, 'm) dir_state_scheme \<Rightarrow>
    (dir_key option \<times> ('d, 'm) dir_state_scheme) option" where
  "find_victim env i s =
    (case FindNextItem (hash_scan env (PathDirHash s) i None) s of (entry, destroyableCnt, s') \<Rightarrow>
       if entry \<noteq> None \<or> destroyableCnt = 0 then Some (entry, s')
       else find_victim env i s')"

text \<open>The outer loop: pick an entry, look it up again, remove it.\<close>

partial_function (option) eliminate_one :: "dir_env \<Rightarrow> nat \<Rightarrow> ('d, 'm) dir_state_scheme \<Rightarrow>
    (bool \<times> ('d, 'm) dir_state_scheme) option" where
  "eliminate_one env i s =
    (case FindNextItem (hash_scan env (PathDirHash s) i (Some (rand env (rand_calls s))))
            (s\<lparr>rand_calls := Suc (rand_calls s)\<rparr>) of (entry, _, s1) \<Rightarrow>
     Option.bind (if entry = None then find_victim env i s1 else Some (entry, s1)) (\<lambda>(entry, s2).
       case entry of
         None \<Rightarrow> Some (False, s2)
       | Some target \<Rightarrow>
          if PathDirHash s2 target = None \<or> \<not> item_destroyable s2 target then eliminate_one env i s2
          else Some (True, s2\<lparr>PathDirHash := (PathDirHash s2)(target := None),
                 PathDirHashEntryCount := (PathDirHashEntryCount s2)(i := PathDirHashEntryCount s2 i - 1)\<rparr>)))"

definition EliminateDirPathHashByLRU :: "dir_env \<Rightarrow> nat \<Rightarrow> ('d, 'm) dir_state_scheme \<Rightarrow>
    (bool \<times> ('d, 'm) dir_state_scheme) option" where
  "EliminateDirPathHashByLRU env i s =
    (if unat (PathDirHashEntryCount s i) \<le> MAX_BUCKET_SUM_LRU_CLAER_BEGIN div DIR_PATH_HASH_PARTITION_SIZE
     then Some (False, s)
     else eliminate_one env i s)"

subsection \<open>Finding or entering an item\<close>

text \<open>
  \<open>HASH_ENTER_NULL\<close>: the entry is there (\<open>Found\<close>), is new and not set yet (\<open>Entered\<close>), or there
  is no room (\<open>NoSpace\<close>).  The loop evicts an entry and tries again when a lock is wanted.
\<close>

datatype EnterResult = Found | Entered | NoSpace

definition new_element :: "dir_env \<Rightarrow> dir_key \<Rightarrow> ('d, 'm) dir_state_scheme \<Rightarrow> ('d, 'm) dir_state_scheme" where
  "new_element env k s =
    s\<lparr>PathDirHash := (PathDirHash s)(k \<mapsto> fst (hash_element env k)),
      rwlocks := (rwlocks s)\<lparr>lock_mem := (lock_mem (rwlocks s))(k := snd (hash_element env k))\<rparr>\<rparr>"

partial_function (option) hash_enter :: "dir_env \<Rightarrow> dir_key \<Rightarrow> DirPathLockMode \<Rightarrow>
    ('d, 'm) dir_state_scheme \<Rightarrow> (EnterResult falcon \<times> ('d, 'm) dir_state_scheme) option" where
  "hash_enter env k lockMode s =
    (if PathDirHash s k \<noteq> None then Some (Inr Found, s)
     else if hash_room env (PathDirHash s) (partition_of env k) then Some (Inr Entered, new_element env k s)
     else if lockMode = DIR_LOCK_NONE then Some (Inr NoSpace, s)
     else Option.bind (EliminateDirPathHashByLRU env (partition_of env k) s)
            (\<lambda>(_, s'). hash_enter env k lockMode s'))"

definition set_item :: "dir_key \<Rightarrow> DirPathHashItem \<Rightarrow> ('d, 'm) dir_state_scheme \<Rightarrow> ('d, 'm) dir_state_scheme" where
  "set_item k item s = s\<lparr>PathDirHash := (PathDirHash s)(k \<mapsto> item)\<rparr>"

definition init_item :: "dir_env \<Rightarrow> dir_key \<Rightarrow> u64 \<Rightarrow> (('d, 'm) dir_state_scheme, unit) proc" where
  "init_item env k inodeId =
    bindM (modify (\<lambda>s. set_item k \<lparr>item_inodeId = inodeId, usageCount = 0\<rparr>
       (s\<lparr>PathDirHashEntryCount := (PathDirHashEntryCount s)
            (partition_of env k := PathDirHashEntryCount s (partition_of env k) + 1),
          rwlocks := RWLockInitialize k (rwlocks s)\<rparr>))) (\<lambda>_.
    DirPathHashToCommitAddEntry k)"

text \<open>The item of a key is set from the table when it was entered or unknown.\<close>

definition refresh_item :: "dir_env \<Rightarrow> dir_key \<Rightarrow> u64 \<Rightarrow> EnterResult \<Rightarrow> (('d, 'm) dir_state_scheme, unit) proc" where
  "refresh_item env k inodeId r =
    (case r of
       NoSpace \<Rightarrow> return ()
     | Entered \<Rightarrow> init_item env k inodeId
     | Found \<Rightarrow>
        bindM (gets (\<lambda>s. the (PathDirHash s k))) (\<lambda>item.
        if item_inodeId item = DIR_HASH_TABLE_PATH_UNKNOWN
        then modify (set_item k (item\<lparr>item_inodeId := inodeId\<rparr>))
        else require (item_inodeId item = inodeId) PROGRAM_ERROR))"

text \<open>The common end of the operations: count the use, declare, take the lock, withdraw the declaration.\<close>

definition on_rwlocks :: "(dir_key rw_state, 'a) proc \<Rightarrow> (('d, 'm) dir_state_scheme, 'a) proc" where
  "on_rwlocks m = zoom rwlocks (\<lambda>r s. s\<lparr>rwlocks := r\<rparr>) m"

definition use_item :: "dir_key \<Rightarrow> (('d, 'm) dir_state_scheme, unit) proc" where
  "use_item k = modify (\<lambda>s. let item = the (PathDirHash s k) in set_item k (item\<lparr>usageCount := usageCount item + 1\<rparr>) s)"

definition lock_item :: "dir_key \<Rightarrow> DirPathLockMode \<Rightarrow> (('d, 'm) dir_state_scheme, unit) proc" where
  "lock_item k lockMode =
    (if lockMode = DIR_LOCK_NONE then return ()
     else
       bindM (on_rwlocks (of_falcon (RWLockDeclare k))) (\<lambda>_.
       bindM (on_rwlocks (of_falcon_option (RWLockAcquire k
         (if lockMode = DIR_LOCK_EXCLUSIVE then RW_EXCLUSIVE else RW_SHARED)))) (\<lambda>_.
       bindM (on_rwlocks (of_falcon (RWLockUndeclare k))) (\<lambda>_.
       modify (\<lambda>s. s\<lparr>DirectoryHashTableLastAcquiredLock := Some k\<rparr>)))))"

subsection \<open>Operations\<close>

definition item_unset :: "('d, 'm) dir_state_scheme \<Rightarrow> dir_key \<Rightarrow> bool" where
  "item_unset s k = (case PathDirHash s k of
     None \<Rightarrow> True | Some item \<Rightarrow> item_inodeId item = DIR_HASH_TABLE_PATH_UNKNOWN)"

definition SearchDirectoryByDirectoryHashTable :: "dir_env \<Rightarrow> ('d, dir_key, u64) pg_ops \<Rightarrow>
    dir_key \<Rightarrow> DirPathLockMode \<Rightarrow> (('d, 'm) dir_state_scheme, u64) proc" where
  "SearchDirectoryByDirectoryHashTable env ops k lockMode =
    (let hit = bindM (use_item k) (\<lambda>_. bindM (lock_item k lockMode) (\<lambda>_.
                 gets (\<lambda>s. item_inodeId (the (PathDirHash s k))))) in
     bindM (gets (\<lambda>s. item_unset s k)) (\<lambda>unset.
     if unset then
       bindM (SearchDirectoryTableInfo ops k) (\<lambda>inodeId.
       bindM (hash_enter env k lockMode) (\<lambda>r.
       bindM (refresh_item env k inodeId r) (\<lambda>_.
       if r = NoSpace then return inodeId else hit)))
     else hit))"

definition InsertDirectoryByDirectoryHashTable :: "dir_env \<Rightarrow> ('d, dir_key, u64) pg_ops \<Rightarrow>
    dir_key \<Rightarrow> u64 \<Rightarrow> DirPathLockMode \<Rightarrow> (('d, 'm) dir_state_scheme, unit) proc" where
  "InsertDirectoryByDirectoryHashTable env ops k inodeId lockMode =
    (let hit = bindM (use_item k) (\<lambda>_. bindM (lock_item k lockMode) (\<lambda>_.
                 bindM (InsertIntoDirectoryTable ops k inodeId) (\<lambda>_.
                 DirPathHashToCommitUpdateEntry k inodeId))) in
     bindM (gets (\<lambda>s. item_unset s k)) (\<lambda>unset.
     if unset then
       bindM (SearchDirectoryTableInfo ops k) (\<lambda>tempId.
       bindM (require (tempId = DIR_HASH_TABLE_PATH_NOT_EXIST) ARGUMENT_ERROR) (\<lambda>_.
       bindM (hash_enter env k lockMode) (\<lambda>r.
       bindM (refresh_item env k tempId r) (\<lambda>_.
       if r = NoSpace then InsertIntoDirectoryTable ops k inodeId else hit))))
     else hit))"

definition DeleteDirectoryByDirectoryHashTable :: "dir_env \<Rightarrow> ('d, dir_key, u64) pg_ops \<Rightarrow>
    dir_key \<Rightarrow> DirPathLockMode \<Rightarrow> (('d, 'm) dir_state_scheme, unit) proc" where
  "DeleteDirectoryByDirectoryHashTable env ops k lockMode =
    (let hit = bindM (use_item k) (\<lambda>_. bindM (lock_item k lockMode) (\<lambda>_.
                 bindM (DeleteFromDirectoryTable ops k) (\<lambda>_.
                 DirPathHashToCommitUpdateEntry k DIR_HASH_TABLE_PATH_NOT_EXIST))) in
     bindM (require (lockMode \<noteq> DIR_LOCK_SHARED) PROGRAM_ERROR) (\<lambda>_.
     bindM (gets (\<lambda>s. PathDirHash s k)) (\<lambda>item.
     if item = None then
       bindM (hash_enter env k lockMode) (\<lambda>r.
       bindM (if r = Entered then init_item env k DIR_HASH_TABLE_PATH_UNKNOWN else return ()) (\<lambda>_.
       if r = NoSpace then DeleteFromDirectoryTable ops k else hit))
     else hit)))"

subsection \<open>End of a transaction\<close>

definition commit_action :: "dir_env \<Rightarrow> DirPathHashAction \<Rightarrow> ('d, 'm) dir_state_scheme \<Rightarrow>
    ('d, 'm) dir_state_scheme option" where
  "commit_action env a s =
    (case a of
       ActionAdd k \<Rightarrow> map_option snd (EliminateDirPathHashByLRU env (partition_of env k) s)
     | ActionUpdate k inodeId \<Rightarrow>
        (case PathDirHash s k of
           Some item \<Rightarrow> Some (set_item k (item\<lparr>item_inodeId := inodeId\<rparr>) s)
         | None \<Rightarrow>
            if hash_room env (PathDirHash s) (partition_of env k)
            then (let s' = new_element env k s in
                  Some (set_item k ((fst (hash_element env k))\<lparr>item_inodeId := inodeId\<rparr>)
                    (s'\<lparr>PathDirHashEntryCount := (PathDirHashEntryCount s')
                          (partition_of env k := PathDirHashEntryCount s' (partition_of env k) + 1)\<rparr>)))
            else Some s))"

fun commit_actions :: "dir_env \<Rightarrow> DirPathHashAction list \<Rightarrow> ('d, 'm) dir_state_scheme \<Rightarrow>
    ('d, 'm) dir_state_scheme option" where
  "commit_actions env [] s = Some s"
| "commit_actions env (a # as) s = Option.bind (commit_action env a s) (commit_actions env as)"

definition CommitForDirPathHash :: "dir_env \<Rightarrow> ('d, 'm) dir_state_scheme \<Rightarrow> ('d, 'm) dir_state_scheme option" where
  "CommitForDirPathHash env s =
    map_option DirPathHashToCommitClear (commit_actions env (DirPathHashToCommit s) s)"

definition AbortForDirPathHash :: "('d, 'm) dir_state_scheme \<Rightarrow> ('d, 'm) dir_state_scheme" where
  "AbortForDirPathHash s = DirPathHashToCommitClear s"

definition ClearDirPathHash :: "('d, 'm) dir_state_scheme \<Rightarrow> ('d, 'm) dir_state_scheme" where
  "ClearDirPathHash s = s\<lparr>PathDirHash := (\<lambda>_. None)\<rparr>"

definition DirPathShmemInit :: "('d, 'm) dir_state_scheme \<Rightarrow> ('d, 'm) dir_state_scheme" where
  "DirPathShmemInit s = s\<lparr>PathDirHash := (\<lambda>_. None), PathDirHashEntryCount := (\<lambda>_. 0)\<rparr>"

subsection \<open>The functions for tests and inspection\<close>

definition ReleaseDirPathHashLock :: "dir_key \<Rightarrow> (('d, 'm) dir_state_scheme, unit) proc" where
  "ReleaseDirPathHashLock k =
    bindM (gets (\<lambda>s. PathDirHash s k)) (\<lambda>item.
    if item = None then raise FILE_NOT_EXISTS else on_rwlocks (of_falcon (RWLockRelease k)))"

definition falcon_acquire_hash_lock :: "dir_env \<Rightarrow> ('d, dir_key, u64) pg_ops \<Rightarrow> string \<Rightarrow> u64 \<Rightarrow> int \<Rightarrow>
    (('d, 'm) dir_state_scheme, FalconErrorCode) proc" where
  "falcon_acquire_hash_lock env ops fileName parentId lockNum =
    bindM (if lockNum = 0 then return DIR_LOCK_NONE
           else if lockNum = 1 then return DIR_LOCK_SHARED
           else if lockNum = 2 then return DIR_LOCK_EXCLUSIVE
           else raise PROGRAM_ERROR) (\<lambda>lockMode.
    bindM (SearchDirectoryByDirectoryHashTable env ops (DirKey parentId fileName) lockMode) (\<lambda>res.
    bindM (require (res \<noteq> - 1) PROGRAM_ERROR) (\<lambda>_. return SUCCESS)))"

definition falcon_release_hash_lock :: "string \<Rightarrow> u64 \<Rightarrow> (('d, 'm) dir_state_scheme, FalconErrorCode) proc" where
  "falcon_release_hash_lock fileName parentId =
    bindM (ReleaseDirPathHashLock (DirKey parentId fileName)) (\<lambda>_. return SUCCESS)"

definition falcon_print_dir_path_hash_elem :: "dir_env \<Rightarrow> ('d, 'm) dir_state_scheme \<Rightarrow>
    (string \<times> u32 \<times> u32 \<times> string) list" where
  "falcon_print_dir_path_hash_elem env s =
    concat (map (\<lambda>i. map (\<lambda>k. (key_fileName k, ucast (key_parentId k), ucast (item_inodeId (the (PathDirHash s k))),
        if lock_mem (rwlocks s) k = 0 then ''no lock'' else ''locked''))
      (hash_scan env (PathDirHash s) i None)) [0..<DIR_PATH_HASH_PARTITION_SIZE])"

declare find_victim.simps [code] and eliminate_one.simps [code] and hash_enter.simps [code]
  and RWLockSpin.simps [code] and RWLockReleaseAll.simps [code]

subsection \<open>What eviction changes\<close>

text \<open>
  Eviction lowers use counters and removes entries whose lock is not referenced; it changes
  nothing else.
\<close>

definition evicted :: "('d, 'm) dir_state_scheme \<Rightarrow> ('d, 'm) dir_state_scheme \<Rightarrow> bool" where
  "evicted s t \<longleftrightarrow>
    t = s\<lparr>PathDirHash := PathDirHash t, PathDirHashEntryCount := PathDirHashEntryCount t, rand_calls := rand_calls t\<rparr> \<and>
    (\<forall>k item. PathDirHash t k = Some item \<longrightarrow>
      (\<exists>item'. PathDirHash s k = Some item' \<and> item_inodeId item' = item_inodeId item)) \<and>
    (\<forall>k. PathDirHash s k \<noteq> None \<and> PathDirHash t k = None \<longrightarrow> item_destroyable s k)"

lemma evicted_refl [simp]: "evicted s s"
  by (auto simp: evicted_def)

lemma evicted_rand [simp]: "evicted s (s\<lparr>rand_calls := n\<rparr>)"
  by (auto simp: evicted_def)

lemma evicted_frame:
  assumes "evicted s t"
  shows "rwlocks t = rwlocks s" and "directory_db t = directory_db s"
    and "DirPathHashToCommit t = DirPathHashToCommit s"
    and "DirectoryHashTableLastAcquiredLock t = DirectoryHashTableLastAcquiredLock s"
    and "dir_state.more t = dir_state.more s"
proof -
  from assms obtain h c n where "t = s\<lparr>PathDirHash := h, PathDirHashEntryCount := c, rand_calls := n\<rparr>"
    unfolding evicted_def by blast
  then show "rwlocks t = rwlocks s" and "directory_db t = directory_db s"
    and "DirPathHashToCommit t = DirPathHashToCommit s"
    and "DirectoryHashTableLastAcquiredLock t = DirectoryHashTableLastAcquiredLock s"
    and "dir_state.more t = dir_state.more s" by simp_all
qed

lemma evicted_item:
  "evicted s t \<Longrightarrow> PathDirHash t k = Some item \<Longrightarrow>
    \<exists>item'. PathDirHash s k = Some item' \<and> item_inodeId item' = item_inodeId item"
  and evicted_gone: "evicted s t \<Longrightarrow> PathDirHash s k \<noteq> None \<Longrightarrow> PathDirHash t k = None \<Longrightarrow> item_destroyable s k"
  by (simp_all add: evicted_def)

lemma evicted_trans:
  assumes "evicted s t" and "evicted t u"
  shows "evicted s u"
  unfolding evicted_def
proof (intro conjI allI impI)
  show "u = s\<lparr>PathDirHash := PathDirHash u, PathDirHashEntryCount := PathDirHashEntryCount u,
      rand_calls := rand_calls u\<rparr>"
    using evicted_frame [OF assms(1)] evicted_frame [OF assms(2)] by simp
next
  fix k item assume "PathDirHash u k = Some item"
  then show "\<exists>item'. PathDirHash s k = Some item' \<and> item_inodeId item' = item_inodeId item"
    using evicted_item [OF assms(2), of k item] evicted_item [OF assms(1), of k] by force
next
  fix k assume *: "PathDirHash s k \<noteq> None \<and> PathDirHash u k = None"
  show "item_destroyable s k"
  proof (cases "PathDirHash t k = None")
    case True
    with * evicted_gone [OF assms(1), of k] show ?thesis by simp
  next
    case False
    with * evicted_gone [OF assms(2), of k] evicted_frame(1) [OF assms(1)] show ?thesis
      by (simp add: item_destroyable_def)
  qed
qed

lemma evicted_lower:
  "PathDirHash s k = Some item \<Longrightarrow>
    evicted s (s\<lparr>PathDirHash := (PathDirHash s)(k \<mapsto> item\<lparr>usageCount := n\<rparr>)\<rparr>)"
  by (auto simp: evicted_def)

lemma FindNextItem_evicted:
  "FindNextItem ks s = (e, n, t) \<Longrightarrow> evicted s t \<and>
    (\<forall>k. e = Some k \<longrightarrow> item_destroyable t k \<and> PathDirHash t k \<noteq> None)"
proof (induction ks arbitrary: s e n t)
  case (Cons k ks)
  show ?case
  proof (cases "PathDirHash s k = None \<or> \<not> item_destroyable s k")
    case True
    with Cons.prems have "FindNextItem ks s = (e, n, t)" by (auto split: option.splits)
    then show ?thesis by (rule Cons.IH)
  next
    case False
    then obtain item where item: "PathDirHash s k = Some item" and d: "item_destroyable s k" by auto
    let ?s' = "s\<lparr>PathDirHash := (PathDirHash s)(k \<mapsto> item\<lparr>usageCount := usageCount item - 1\<rparr>)\<rparr>"
    note low = evicted_lower [OF item, of "usageCount item - 1"]
    show ?thesis
    proof (cases "usageCount item - 1 \<le> 0")
      case True
      with Cons.prems item d have "e = Some k" and "t = ?s'" by (simp_all add: Let_def)
      with low d show ?thesis by (simp add: item_destroyable_def)
    next
      case False
      with Cons.prems item d obtain m where "FindNextItem ks ?s' = (e, m, t)"
        by (auto simp: Let_def split: prod.splits)
      from Cons.IH [OF this] low show ?thesis by (blast intro: evicted_trans)
    qed
  qed
qed simp

lemmas find_victim_induct = find_victim.raw_induct [rotated, consumes 1, case_names step]
  and eliminate_one_induct = eliminate_one.raw_induct [rotated, consumes 1, case_names step]
  and hash_enter_induct = hash_enter.raw_induct [rotated, consumes 1, case_names step]

lemma find_victim_evicted_aux:
  "find_victim env i s = Some r \<Longrightarrow> evicted s (snd r) \<and>
    (\<forall>k. fst r = Some k \<longrightarrow> item_destroyable (snd r) k \<and> PathDirHash (snd r) k \<noteq> None)"
proof (induction rule: find_victim_induct)
  case (step fv env i s r)
  obtain e n s' where f: "FindNextItem (hash_scan env (PathDirHash s) i None) s = (e, n, s')"
    by (cases "FindNextItem (hash_scan env (PathDirHash s) i None) s")
  have ev: "evicted s s'" using FindNextItem_evicted [OF f] by simp
  show ?case
  proof (cases "e \<noteq> None \<or> n = 0")
    case True
    with step(2) f have "r = (e, s')" by (simp split: if_splits)
    with FindNextItem_evicted [OF f] show ?thesis by simp
  next
    case False
    with step(2) f have "fv env i s' = Some r" by simp
    from step(1) [OF this] ev show ?thesis by (blast intro: evicted_trans)
  qed
qed

lemma eliminate_one_evicted:
  "eliminate_one env i s = Some r \<Longrightarrow> evicted s (snd r)"
proof (induction rule: eliminate_one_induct)
  case (step el env i s r)
  obtain e n s1 where f: "FindNextItem (hash_scan env (PathDirHash s) i (Some (rand env (rand_calls s))))
      (s\<lparr>rand_calls := Suc (rand_calls s)\<rparr>) = (e, n, s1)"
    by (cases "FindNextItem (hash_scan env (PathDirHash s) i (Some (rand env (rand_calls s))))
      (s\<lparr>rand_calls := Suc (rand_calls s)\<rparr>)")
  have ev1: "evicted s s1"
    using FindNextItem_evicted [OF f] evicted_rand evicted_trans by blast
  obtain e2 s2 where v: "(if e = None then find_victim env i s1 else Some (e, s1)) = Some (e2, s2)"
    using step(2) f by (auto simp: bind_eq_Some_conv split: if_splits)
  then have "evicted s1 s2"
    using find_victim_evicted_aux [of env i s1 "(e2, s2)"] by (auto split: if_splits)
  with ev1 have ev2: "evicted s s2" by (rule evicted_trans)
  show ?case
  proof (cases e2)
    case None
    with step(2) f v ev2 show ?thesis by (auto split: if_splits)
  next
    case (Some target)
    show ?thesis
    proof (cases "PathDirHash s2 target = None \<or> \<not> item_destroyable s2 target")
      case True
      with step(2) f v Some have "el env i s2 = Some r" by (simp split: if_splits)
      from step(1) [OF this] ev2 show ?thesis by (blast intro: evicted_trans)
    next
      case False
      with step(2) f v Some have "evicted s2 (snd r)"
        by (auto simp: evicted_def split: if_splits)
      with ev2 show ?thesis by (rule evicted_trans)
    qed
  qed
qed

lemma EliminateDirPathHashByLRU_evicted:
  "EliminateDirPathHashByLRU env i s = Some (b, t) \<Longrightarrow> evicted s t"
  using eliminate_one_evicted [of env i s "(b, t)"]
  by (auto simp: EliminateDirPathHashByLRU_def split: if_splits)

lemma hash_enter_result:
  "hash_enter env k lockMode s = Some r \<Longrightarrow> (\<exists>u. evicted s u \<and>
    (fst r = Inr Found \<and> snd r = u \<and> PathDirHash u k \<noteq> None \<or>
     fst r = Inr Entered \<and> snd r = new_element env k u \<and> PathDirHash u k = None \<or>
     fst r = Inr NoSpace \<and> snd r = u \<and> lockMode = DIR_LOCK_NONE))"
proof (induction rule: hash_enter_induct)
  case (step he env k lockMode s r)
  consider "PathDirHash s k \<noteq> None \<or> hash_room env (PathDirHash s) (partition_of env k) \<or> lockMode = DIR_LOCK_NONE"
    | b s' where "EliminateDirPathHashByLRU env (partition_of env k) s = Some (b, s')" and "he env k lockMode s' = Some r"
    using step(2) by (auto simp: bind_eq_Some_conv split: if_splits)
  then show ?case
  proof cases
    case 1
    with step(2) show ?thesis
      by (intro exI [of _ s]) (auto split: if_splits)
  next
    case 2
    from step(1) [OF 2(2)] obtain u where u: "evicted s' u" and
      "fst r = Inr Found \<and> snd r = u \<and> PathDirHash u k \<noteq> None \<or>
       fst r = Inr Entered \<and> snd r = new_element env k u \<and> PathDirHash u k = None \<or>
       fst r = Inr NoSpace \<and> snd r = u \<and> lockMode = DIR_LOCK_NONE" by blast
    moreover have "evicted s u"
      using EliminateDirPathHashByLRU_evicted [OF 2(1)] u by (rule evicted_trans)
    ultimately show ?thesis by blast
  qed
qed

subsection \<open>The hash agrees with the table\<close>

text \<open>
  \<open>base\<close> gives the number of every directory in the committed table, or \<open>-1\<close>.  Between and
  during transactions an item of the hash holds this number or is marked unknown
  (\<open>hash_ok\<close>).  During a transaction the table differs from \<open>base\<close> only at the keys for which an
  update is noted, and the backend has a handle on the lock of each of them (\<open>tx_ok\<close>).
\<close>

definition id_of :: "u64 option \<Rightarrow> u64" where
  "id_of row = (case row of None \<Rightarrow> DIR_HASH_TABLE_PATH_NOT_EXIST | Some inodeId \<Rightarrow> inodeId)"

fun apply_action :: "(dir_key \<Rightarrow> u64) \<Rightarrow> DirPathHashAction \<Rightarrow> dir_key \<Rightarrow> u64" where
  "apply_action base (ActionAdd k) = base"
| "apply_action base (ActionUpdate k inodeId) = base(k := inodeId)"

definition tx_view :: "(dir_key \<Rightarrow> u64) \<Rightarrow> DirPathHashAction list \<Rightarrow> dir_key \<Rightarrow> u64" where
  "tx_view base as = foldl apply_action base as"

definition updated :: "DirPathHashAction list \<Rightarrow> dir_key set" where
  "updated as = {k. \<exists>inodeId. ActionUpdate k inodeId \<in> set as}"

definition hash_ok :: "nat \<Rightarrow> (dir_key \<Rightarrow> u64) \<Rightarrow> ('d, 'm) dir_state_scheme \<Rightarrow> bool" where
  "hash_ok N base s \<longleftrightarrow>
    (\<forall>k item. PathDirHash s k = Some item \<longrightarrow>
       item_inodeId item = DIR_HASH_TABLE_PATH_UNKNOWN \<or> item_inodeId item = base k) \<and>
    locks_ok N (rwlocks s) \<and>
    (\<forall>k. holds (rwlocks s) k \<longrightarrow> PathDirHash s k \<noteq> None)"

definition tx_ok :: "('d, dir_key, u64) pg_ops \<Rightarrow> (dir_key \<Rightarrow> u64) \<Rightarrow> ('d, 'm) dir_state_scheme \<Rightarrow> bool" where
  "tx_ok ops base s \<longleftrightarrow>
    (\<forall>k. base k \<noteq> DIR_HASH_TABLE_PATH_UNKNOWN) \<and>
    (\<forall>k inodeId. ActionUpdate k inodeId \<in> set (DirPathHashToCommit s) \<longrightarrow>
       inodeId \<noteq> DIR_HASH_TABLE_PATH_UNKNOWN \<and> holds (rwlocks s) k) \<and>
    (\<forall>k. k \<notin> updated (DirPathHashToCommit s) \<longrightarrow>
       \<not> pg_dirty ops (directory_db s) k \<and> id_of (pg_vis ops (directory_db s) k) = base k) \<and>
    (\<forall>k. id_of (pg_cur ops (directory_db s) k) = tx_view base (DirPathHashToCommit s) k)"

lemma tx_view_simps [simp]:
  "tx_view base [] = base"
  "tx_view base (as @ [a]) = apply_action (tx_view base as) a"
  by (simp_all add: tx_view_def)

lemma tx_view_Cons: "tx_view base (a # as) = tx_view (apply_action base a) as"
  by (simp add: tx_view_def)

lemma updated_simps [simp]:
  "updated [] = {}"
  "updated (as @ [ActionAdd k]) = updated as"
  "updated (as @ [ActionUpdate k inodeId]) = insert k (updated as)"
  by (auto simp: updated_def)

lemma tx_view_unchanged: "k \<notin> updated as \<Longrightarrow> tx_view base as k = base k"
proof (induction as rule: rev_induct)
  case (snoc a as)
  then show ?case by (cases a) auto
qed simp

lemma hash_okD:
  assumes "hash_ok N base s"
  shows "PathDirHash s k = Some item \<Longrightarrow>
      item_inodeId item = DIR_HASH_TABLE_PATH_UNKNOWN \<or> item_inodeId item = base k"
    and "locks_ok N (rwlocks s)"
    and "holds (rwlocks s) k \<Longrightarrow> PathDirHash s k \<noteq> None"
  using assms by (auto simp: hash_ok_def)

lemma hash_ok_evicted:
  assumes "hash_ok N base s" and "evicted s t"
  shows "hash_ok N base t"
  unfolding hash_ok_def
proof (intro conjI allI impI)
  show "locks_ok N (rwlocks t)"
    using hash_okD(2) [OF assms(1)] evicted_frame(1) [OF assms(2)] by simp
next
  fix k item assume "PathDirHash t k = Some item"
  then show "item_inodeId item = DIR_HASH_TABLE_PATH_UNKNOWN \<or> item_inodeId item = base k"
    using evicted_item [OF assms(2), of k item] hash_okD(1) [OF assms(1), of k] by force
next
  fix k assume "holds (rwlocks t) k"
  then have h: "holds (rwlocks s) k" using evicted_frame(1) [OF assms(2)] by simp
  show "PathDirHash t k \<noteq> None"
  proof
    assume "PathDirHash t k = None"
    with hash_okD(3) [OF assms(1) h] evicted_gone [OF assms(2), of k] have "item_destroyable s k" by simp
    with holds_not_destroyable [OF hash_okD(2) [OF assms(1)] h] show False by (simp add: item_destroyable_def)
  qed
qed

lemma hash_ok_set_item:
  assumes "hash_ok N base s" and "item_inodeId item = DIR_HASH_TABLE_PATH_UNKNOWN \<or> item_inodeId item = base k"
  shows "hash_ok N base (set_item k item s)"
  using assms by (auto simp: hash_ok_def set_item_def)

lemma hash_ok_frame:
  assumes "hash_ok N base s" and "PathDirHash t = PathDirHash s" and "rwlocks t = rwlocks s"
  shows "hash_ok N base t"
  using assms by (simp add: hash_ok_def)

lemma tx_ok_frame:
  assumes "tx_ok ops base s" and "rwlocks t = rwlocks s" and "directory_db t = directory_db s"
    and "DirPathHashToCommit t = DirPathHashToCommit s"
  shows "tx_ok ops base t"
  using assms by (simp add: tx_ok_def)

text \<open>A new element that is set at once.\<close>

definition entered_item :: "dir_env \<Rightarrow> dir_key \<Rightarrow> u64 \<Rightarrow> ('d, 'm) dir_state_scheme \<Rightarrow> ('d, 'm) dir_state_scheme" where
  "entered_item env k inodeId s =
    (let s' = new_element env k s in
     set_item k \<lparr>item_inodeId = inodeId, usageCount = 0\<rparr>
       (s'\<lparr>PathDirHashEntryCount := (PathDirHashEntryCount s')
            (partition_of env k := PathDirHashEntryCount s' (partition_of env k) + 1),
          rwlocks := RWLockInitialize k (rwlocks s')\<rparr>))"

lemma init_item_new_element:
  "init_item env k inodeId (new_element env k s) = DirPathHashToCommitAddEntry k (entered_item env k inodeId s)"
  by (simp add: init_item_def entered_item_def Let_def)

lemma entered_item_frame:
  "PathDirHash (entered_item env k inodeId s) = (PathDirHash s)(k \<mapsto> \<lparr>item_inodeId = inodeId, usageCount = 0\<rparr>)"
  "held_rwlocks (rwlocks (entered_item env k inodeId s)) = held_rwlocks (rwlocks s)"
  "directory_db (entered_item env k inodeId s) = directory_db s"
  "DirPathHashToCommit (entered_item env k inodeId s) = DirPathHashToCommit s"
  "dir_state.more (entered_item env k inodeId s) = dir_state.more s"
  by (simp_all add: entered_item_def new_element_def set_item_def RWLockInitialize_def Let_def)

lemma hash_ok_entered_item:
  assumes "hash_ok N base s" and "PathDirHash s k = None"
    and "inodeId = DIR_HASH_TABLE_PATH_UNKNOWN \<or> inodeId = base k"
  shows "hash_ok N base (entered_item env k inodeId s)"
proof -
  have "\<not> holds (rwlocks s) k" using assms(1,2) hash_okD(3) by blast
  from RWLockInitialize_ok [OF hash_okD(2) [OF assms(1)] this, of "snd (hash_element env k)"]
  have "locks_ok N (rwlocks (entered_item env k inodeId s))"
    by (simp add: entered_item_def new_element_def set_item_def Let_def)
  with assms show ?thesis
    by (auto simp: hash_ok_def entered_item_frame holds_def)
qed

lemma tx_ok_entered_item:
  "tx_ok ops base s \<Longrightarrow> tx_ok ops base (entered_item env k inodeId s)"
  by (simp add: tx_ok_def entered_item_frame holds_def)

lemma DirPathHashToCommitAddEntry_ok:
  assumes "DirPathHashToCommitAddEntry k s = Some (r, t)"
  shows "t = s\<lparr>DirPathHashToCommit := DirPathHashToCommit t\<rparr>"
    and "hash_ok N base s \<Longrightarrow> hash_ok N base t"
    and "tx_ok ops base s \<Longrightarrow> tx_ok ops base t"
    and "updated (DirPathHashToCommit t) = updated (DirPathHashToCommit s)"
proof -
  have "t = s \<or> t = s\<lparr>DirPathHashToCommit := DirPathHashToCommit s @ [ActionAdd k]\<rparr>"
    using assms by (auto simp: DirPathHashToCommitAddEntry_def raise_def return_def split: if_splits)
  then show "t = s\<lparr>DirPathHashToCommit := DirPathHashToCommit t\<rparr>"
    and "hash_ok N base s \<Longrightarrow> hash_ok N base t"
    and "tx_ok ops base s \<Longrightarrow> tx_ok ops base t"
    and "updated (DirPathHashToCommit t) = updated (DirPathHashToCommit s)"
    by (elim disjE; simp add: hash_ok_def tx_ok_def)+
qed

subsection \<open>The operations keep the agreement\<close>

definition lock_handle :: "dir_key \<Rightarrow> DirPathLockMode \<Rightarrow> dir_key RWLockHandle list" where
  "lock_handle k lockMode = (case lockMode of
     DIR_LOCK_NONE \<Rightarrow> [] | DIR_LOCK_SHARED \<Rightarrow> [(k, RW_SHARED)] | DIR_LOCK_EXCLUSIVE \<Rightarrow> [(k, RW_EXCLUSIVE)])"

lemma on_rwlocks_cases:
  "on_rwlocks m s = (case m (rwlocks s) of None \<Rightarrow> None | Some (r, l) \<Rightarrow> Some (r, s\<lparr>rwlocks := l\<rparr>))"
  by (simp add: on_rwlocks_def zoom_def)

text \<open>A step on the locks that keeps the words and the handles of the backend.\<close>

lemma lock_item_locks:
  assumes "locks_ok N (rwlocks s)" and "lock_item k lockMode s = Some (r, t)"
  shows "t = s\<lparr>rwlocks := rwlocks t, DirectoryHashTableLastAcquiredLock := DirectoryHashTableLastAcquiredLock t\<rparr>"
    and "locks_ok N (rwlocks t)"
    and "\<exists>hs. held_rwlocks (rwlocks t) = held_rwlocks (rwlocks s) @ hs \<and> fst ` set hs \<subseteq> {k} \<and>
      (r = Inr () \<longrightarrow> hs = lock_handle k lockMode)"
proof -
  let ?m = "if lockMode = DIR_LOCK_EXCLUSIVE then RW_EXCLUSIVE else RW_SHARED"
  let ?P = "\<lambda>t. t = s\<lparr>rwlocks := rwlocks t, DirectoryHashTableLastAcquiredLock := DirectoryHashTableLastAcquiredLock t\<rparr>
    \<and> locks_ok N (rwlocks t) \<and> (\<exists>hs. held_rwlocks (rwlocks t) = held_rwlocks (rwlocks s) @ hs \<and> fst ` set hs \<subseteq> {k} \<and>
      (r = Inr () \<longrightarrow> hs = lock_handle k lockMode))"
  have "?P t"
  proof (cases "lockMode = DIR_LOCK_NONE")
    case True
    with assms show ?thesis by (simp add: lock_item_def return_def lock_handle_def)
  next
    case False
    have lh: "lock_handle k lockMode = [(k, ?m)]" using False by (cases lockMode) (simp_all add: lock_handle_def)
    show ?thesis
    proof (cases "RWLockDeclare k (rwlocks s)")
      case (Inl e)
      with False assms show ?thesis
        by (auto simp: lock_item_def bindM_def on_rwlocks_cases of_falcon_def)
    next
      case d: (Inr l1)
      note l1 = RWLockDeclare_ok [OF assms(1) d]
      show ?thesis
      proof (cases "RWLockAcquire k ?m l1")
        case None
        with False assms d show ?thesis
          by (auto simp: lock_item_def bindM_def on_rwlocks_cases of_falcon_def of_falcon_option_def)
      next
        case (Some x)
        show ?thesis
        proof (cases x)
          case (Inl e)
          with False assms d Some have "r = Inl e" and "t = s\<lparr>rwlocks := l1\<rparr>"
            by (auto simp: lock_item_def bindM_def on_rwlocks_cases of_falcon_def of_falcon_option_def)
          with l1 show ?thesis by auto
        next
          case (Inr l2)
          have a: "RWLockAcquire k ?m l1 = Some (Inr l2)" using Some Inr by simp
          note l2 = RWLockAcquire_ok [OF l1(1) a]
          have held: "held_rwlocks l2 = held_rwlocks (rwlocks s) @ [(k, RW_DECLARE), (k, ?m)]"
            using l1(2) l2(2) by simp
          obtain l3 where u: "RWLockUndeclare k l2 = Inr l3" and "locks_ok N l3"
            and "held_rwlocks l3 = held_rwlocks (rwlocks s) @ [(k, ?m)]"
            using RWLockUndeclare_ok [OF l2(1) held l2(3)] by blast
          moreover have "t = s\<lparr>rwlocks := l3, DirectoryHashTableLastAcquiredLock := Some k\<rparr>"
            using False assms(2) d a u
            by (auto simp: lock_item_def bindM_def on_rwlocks_cases of_falcon_def of_falcon_option_def modify_def
                split: if_splits)
          ultimately show ?thesis by (simp add: lh)
        qed
      qed
    qed
  qed
  then show "t = s\<lparr>rwlocks := rwlocks t, DirectoryHashTableLastAcquiredLock := DirectoryHashTableLastAcquiredLock t\<rparr>"
    and "locks_ok N (rwlocks t)"
    and "\<exists>hs. held_rwlocks (rwlocks t) = held_rwlocks (rwlocks s) @ hs \<and> fst ` set hs \<subseteq> {k} \<and>
      (r = Inr () \<longrightarrow> hs = lock_handle k lockMode)" by blast+
qed

text \<open>
  What an operation on the hash may change besides the items and the locks: nothing of the
  table, and only \<open>'A'\<close> entries of the notes.
\<close>

definition same_tx :: "('d, 'm) dir_state_scheme \<Rightarrow> ('d, 'm) dir_state_scheme \<Rightarrow> bool" where
  "same_tx s t \<longleftrightarrow> directory_db t = directory_db s \<and> dir_state.more t = dir_state.more s \<and>
    updated (DirPathHashToCommit t) = updated (DirPathHashToCommit s) \<and>
    (\<forall>k. holds (rwlocks s) k \<longrightarrow> holds (rwlocks t) k)"

lemma same_tx_refl [simp]: "same_tx s s"
  by (simp add: same_tx_def)

lemma same_tx_trans: "same_tx s t \<Longrightarrow> same_tx t u \<Longrightarrow> same_tx s u"
  by (simp add: same_tx_def)

lemma evicted_same_tx: "evicted s t \<Longrightarrow> same_tx s t"
  by (simp add: same_tx_def evicted_frame)

lemma set_item_frame [simp]:
  "rwlocks (set_item k item s) = rwlocks s" "directory_db (set_item k item s) = directory_db s"
  "DirPathHashToCommit (set_item k item s) = DirPathHashToCommit s"
  "dir_state.more (set_item k item s) = dir_state.more s"
  "PathDirHash (set_item k item s) = (PathDirHash s)(k \<mapsto> item)"
  by (simp_all add: set_item_def)

lemma tx_ok_evicted: "tx_ok ops base s \<Longrightarrow> evicted s t \<Longrightarrow> tx_ok ops base t"
  by (rule tx_ok_frame) (simp_all add: evicted_frame)

lemma lock_item_ok:
  assumes "hash_ok N base s" and "PathDirHash s k \<noteq> None" and "lock_item k lockMode s = Some (r, t)"
  shows "hash_ok N base t" and "tx_ok ops base s \<Longrightarrow> tx_ok ops base t" and "same_tx s t"
    and "PathDirHash t = PathDirHash s"
    and "DirPathHashToCommit t = DirPathHashToCommit s"
    and "r = Inr () \<Longrightarrow> held_rwlocks (rwlocks t) = held_rwlocks (rwlocks s) @ lock_handle k lockMode"
proof -
  note l = lock_item_locks [OF hash_okD(2) [OF assms(1)] assms(3)]
  from l(1) obtain x y where t: "t = s\<lparr>rwlocks := x, DirectoryHashTableLastAcquiredLock := y\<rparr>" by blast
  from l(3) obtain hs where hs: "held_rwlocks (rwlocks t) = held_rwlocks (rwlocks s) @ hs" "fst ` set hs \<subseteq> {k}"
    "r = Inr () \<longrightarrow> hs = lock_handle k lockMode" by blast
  have h: "holds (rwlocks s) j \<Longrightarrow> holds (rwlocks t) j" "holds (rwlocks t) j \<Longrightarrow> holds (rwlocks s) j \<or> j = k" for j
    using hs(1,2) by (auto simp: holds_def)
  show "PathDirHash t = PathDirHash s" and "DirPathHashToCommit t = DirPathHashToCommit s"
    by (simp_all add: t)
  show "same_tx s t" using h(1) by (simp add: same_tx_def t)
  show "hash_ok N base t"
    unfolding hash_ok_def
  proof (intro conjI allI impI)
    fix j assume "holds (rwlocks t) j"
    with h(2) [of j] assms(2) hash_okD(3) [OF assms(1), of j] show "PathDirHash t j \<noteq> None" by (auto simp: t)
  next
    fix j item assume "PathDirHash t j = Some item"
    then show "item_inodeId item = DIR_HASH_TABLE_PATH_UNKNOWN \<or> item_inodeId item = base j"
      using hash_okD(1) [OF assms(1), of j item] by (simp add: t)
  qed (rule l(2))
  show "tx_ok ops base s \<Longrightarrow> tx_ok ops base t"
    using h(1) by (auto simp: tx_ok_def t)
  show "r = Inr () \<Longrightarrow> held_rwlocks (rwlocks t) = held_rwlocks (rwlocks s) @ lock_handle k lockMode"
    using hs by simp
qed

definition touch_item :: "dir_key \<Rightarrow> DirPathLockMode \<Rightarrow> (('d, 'm) dir_state_scheme, unit) proc" where
  "touch_item k lockMode = bindM (use_item k) (\<lambda>_. lock_item k lockMode)"

lemma touch_item_then: "bindM (use_item k) (\<lambda>_. bindM (lock_item k lockMode) f) = bindM (touch_item k lockMode) f"
  by (simp add: touch_item_def bindM_assoc)

lemma touch_item_ok:
  assumes "hash_ok N base s" and "PathDirHash s k = Some item" and "touch_item k lockMode s = Some (r, t)"
  shows "hash_ok N base t" and "tx_ok ops base s \<Longrightarrow> tx_ok ops base t" and "same_tx s t"
    and "PathDirHash t = (PathDirHash s)(k \<mapsto> item\<lparr>usageCount := usageCount item + 1\<rparr>)"
    and "r = Inr () \<Longrightarrow> held_rwlocks (rwlocks t) = held_rwlocks (rwlocks s) @ lock_handle k lockMode"
    and "DirPathHashToCommit t = DirPathHashToCommit s"
proof -
  let ?u = "set_item k (item\<lparr>usageCount := usageCount item + 1\<rparr>) s"
  have run: "lock_item k lockMode ?u = Some (r, t)"
    using assms(2,3) by (simp add: touch_item_def use_item_def Let_def)
  have ok: "hash_ok N base ?u"
    using assms(1) hash_okD(1) [OF assms(1,2)] by (intro hash_ok_set_item) simp_all
  note l = lock_item_ok [OF ok _ run, simplified]
  show "hash_ok N base t" and "PathDirHash t = (PathDirHash s)(k \<mapsto> item\<lparr>usageCount := usageCount item + 1\<rparr>)"
    and "r = Inr () \<Longrightarrow> held_rwlocks (rwlocks t) = held_rwlocks (rwlocks s) @ lock_handle k lockMode"
    and "DirPathHashToCommit t = DirPathHashToCommit s"
    using l by simp_all
  show "same_tx s t" using l(3) by (simp add: same_tx_def)
  assume "tx_ok ops base s"
  then have "tx_ok ops base ?u" by (rule tx_ok_frame) simp_all
  then show "tx_ok ops base t" by (rule l(2))
qed

lemma refresh_item_ok:
  assumes "hash_ok N base s" and "tx_ok ops base s" and "item_unset s k" and "inodeId = base k"
    and "hash_enter env k lockMode s = Some (Inr e, u)" and "refresh_item env k inodeId e u = Some (r, t)"
  shows "hash_ok N base t" and "tx_ok ops base t" and "same_tx s t"
    and "held_rwlocks (rwlocks t) = held_rwlocks (rwlocks s)"
    and "r = Inr () \<Longrightarrow> e \<noteq> NoSpace \<Longrightarrow> \<exists>item. PathDirHash t k = Some item \<and> item_inodeId item = base k"
    and "e = NoSpace \<Longrightarrow> lockMode = DIR_LOCK_NONE"
proof -
  let ?P = "hash_ok N base t \<and> tx_ok ops base t \<and> same_tx s t \<and> held_rwlocks (rwlocks t) = held_rwlocks (rwlocks s) \<and>
    (r = Inr () \<longrightarrow> e \<noteq> NoSpace \<longrightarrow> (\<exists>item. PathDirHash t k = Some item \<and> item_inodeId item = base k)) \<and>
    (e = NoSpace \<longrightarrow> lockMode = DIR_LOCK_NONE)"
  from hash_enter_result [OF assms(5)] obtain v where v: "evicted s v"
    and cs: "e = Found \<and> u = v \<and> PathDirHash v k \<noteq> None \<or>
      e = Entered \<and> u = new_element env k v \<and> PathDirHash v k = None \<or>
      e = NoSpace \<and> u = v \<and> lockMode = DIR_LOCK_NONE" by auto
  have hv: "hash_ok N base v" and tv: "tx_ok ops base v" and sv: "same_tx s v"
    and rv: "rwlocks v = rwlocks s"
    using assms(1,2) v by (auto intro: hash_ok_evicted tx_ok_evicted evicted_same_tx evicted_frame(1))
  from cs have "?P"
  proof (elim disjE conjE)
    assume e: "e = Found" and u: "u = v" and "PathDirHash v k \<noteq> None"
    then obtain item where item: "PathDirHash v k = Some item" by auto
    with evicted_item [OF v item] assms(3) have "item_inodeId item = DIR_HASH_TABLE_PATH_UNKNOWN"
      by (auto simp: item_unset_def split: option.splits)
    with assms(6) e u item have t: "t = set_item k (item\<lparr>item_inodeId := inodeId\<rparr>) v"
      by (simp add: refresh_item_def modify_def)
    have "hash_ok N base t" unfolding t using hv assms(4) by (intro hash_ok_set_item) simp_all
    moreover have "tx_ok ops base t" using tv by (rule tx_ok_frame) (simp_all add: t)
    moreover have "same_tx s t" using sv by (simp add: same_tx_def t)
    ultimately show ?P using e assms(4) by (simp add: t rv)
  next
    assume e: "e = Entered" and u: "u = new_element env k v" and none: "PathDirHash v k = None"
    have run: "DirPathHashToCommitAddEntry k (entered_item env k inodeId v) = Some (r, t)"
      using assms(6) e u by (simp add: refresh_item_def init_item_new_element)
    note a = DirPathHashToCommitAddEntry_ok [OF run]
    have "hash_ok N base t" using hash_ok_entered_item [OF hv none] assms(4) by (intro a(2)) simp
    moreover have "tx_ok ops base t" using tx_ok_entered_item [OF tv] by (rule a(3))
    moreover from a(1) obtain as where t: "t = (entered_item env k inodeId v)\<lparr>DirPathHashToCommit := as\<rparr>" by blast
    moreover have "same_tx v t"
      using a(4) by (simp add: same_tx_def t entered_item_frame holds_def)
    ultimately show ?P using e assms(4) same_tx_trans [OF sv] by (simp add: entered_item_frame rv)
  next
    assume "e = NoSpace" and "u = v" and "lockMode = DIR_LOCK_NONE"
    with assms(6) hv tv sv rv show ?P by (simp add: refresh_item_def return_def)
  qed
  then show "hash_ok N base t" and "tx_ok ops base t" and "same_tx s t"
    and "held_rwlocks (rwlocks t) = held_rwlocks (rwlocks s)"
    and "r = Inr () \<Longrightarrow> e \<noteq> NoSpace \<Longrightarrow> \<exists>item. PathDirHash t k = Some item \<and> item_inodeId item = base k"
    and "e = NoSpace \<Longrightarrow> lockMode = DIR_LOCK_NONE" by blast+
qed

lemma hash_enter_no_raise: "hash_enter env k lockMode s \<noteq> Some (Inl e, t)"
  using hash_enter_result [of env k lockMode s "(Inl e, t)"] by auto

lemma lookup_base:
  "tx_ok ops base s \<Longrightarrow> k \<notin> updated (DirPathHashToCommit s) \<Longrightarrow>
    bindM (SearchDirectoryTableInfo ops k) f s = f (base k) s"
  by (simp add: SearchDirectoryTableInfo_def tx_ok_def id_of_def)

lemma item_set_base:
  "hash_ok N base s \<Longrightarrow> \<not> item_unset s k \<Longrightarrow> \<exists>item. PathDirHash s k = Some item \<and> item_inodeId item = base k"
  by (auto simp: item_unset_def hash_ok_def split: option.splits)

text \<open>The part of an operation that makes sure of the item and takes the lock.\<close>

lemma Search_ok:
  assumes "hash_ok N base s" and "tx_ok ops base s" and "k \<notin> updated (DirPathHashToCommit s)"
    and "SearchDirectoryByDirectoryHashTable env ops k lockMode s = Some (r, t)"
  shows "hash_ok N base t" and "tx_ok ops base t" and "same_tx s t"
    and "r = Inr inodeId \<Longrightarrow> inodeId = base k"
    and "r = Inr inodeId \<Longrightarrow> held_rwlocks (rwlocks t) = held_rwlocks (rwlocks s) @ lock_handle k lockMode"
proof -
  let ?P = "hash_ok N base t \<and> tx_ok ops base t \<and> same_tx s t \<and> (\<forall>inodeId. r = Inr inodeId \<longrightarrow> inodeId = base k \<and>
    held_rwlocks (rwlocks t) = held_rwlocks (rwlocks s) @ lock_handle k lockMode)"
  let ?read = "\<lambda>_. gets (\<lambda>s. item_inodeId (the (PathDirHash s k)))"
  have hit: "?P" if v: "hash_ok N base v" "tx_ok ops base v" "same_tx s v"
      "held_rwlocks (rwlocks v) = held_rwlocks (rwlocks s)" "PathDirHash v k = Some item" "item_inodeId item = base k"
      and run: "bindM (touch_item k lockMode) ?read v = Some (r, t)" for v item
    using run
  proof (cases rule: bindM_E)
    case (raised e)
    note th = touch_item_ok [OF v(1,5) raised(1)]
    from th(1) th(2) [OF v(2)] same_tx_trans [OF v(3) th(3)] raised(2) show ?thesis by simp
  next
    case (continued x w)
    note th = touch_item_ok [OF v(1,5) continued(1)]
    from continued(2) have "t = w" and "r = Inr (item_inodeId (the (PathDirHash w k)))" by (auto simp: gets_def)
    with th(1) th(2) [OF v(2)] same_tx_trans [OF v(3) th(3)] th(4,5) v(4,6) show ?thesis by simp
  qed
  have ?P
  proof (cases "item_unset s k")
    case False
    then obtain item where "PathDirHash s k = Some item" "item_inodeId item = base k"
      using item_set_base [OF assms(1)] by blast
    with False assms show ?thesis
      by (intro hit [of s item]) (simp_all add: SearchDirectoryByDirectoryHashTable_def Let_def touch_item_then)
  next
    case True
    from assms(4) True have "bindM (hash_enter env k lockMode) (\<lambda>e. bindM (refresh_item env k (base k) e) (\<lambda>_.
        if e = NoSpace then return (base k) else bindM (touch_item k lockMode) ?read)) s = Some (r, t)"
      by (simp add: SearchDirectoryByDirectoryHashTable_def Let_def touch_item_then lookup_base [OF assms(2,3)])
    then obtain e u where e: "hash_enter env k lockMode s = Some (Inr e, u)" and rest: "bindM (refresh_item env k (base k) e) (\<lambda>_.
        if e = NoSpace then return (base k) else bindM (touch_item k lockMode) ?read) u = Some (r, t)"
      by (cases rule: bindM_E) (auto simp: hash_enter_no_raise)
    note ref = refresh_item_ok [OF assms(1,2) True refl e]
    from rest show ?thesis
    proof (cases rule: bindM_E)
      case (raised x)
      from ref [OF raised(1)] raised(2) show ?thesis by simp
    next
      case (continued x v)
      note rv = ref [OF continued(1)]
      show ?thesis
      proof (cases "e = NoSpace")
        case True
        with continued(2) rv show ?thesis by (auto simp: return_def lock_handle_def)
      next
        case False
        with rv(5) obtain item where "PathDirHash v k = Some item" "item_inodeId item = base k" by auto
        with False continued(2) rv show ?thesis by (intro hit [of v item]) simp_all
      qed
    qed
  qed
  then show "hash_ok N base t" and "tx_ok ops base t" and "same_tx s t"
    and "r = Inr inodeId \<Longrightarrow> inodeId = base k"
    and "r = Inr inodeId \<Longrightarrow> held_rwlocks (rwlocks t) = held_rwlocks (rwlocks s) @ lock_handle k lockMode" by blast+
qed

lemma hash_enter_present: "PathDirHash s k \<noteq> None \<Longrightarrow> hash_enter env k lockMode s = Some (Inr Found, s)"
  by (simp add: hash_enter.simps)

text \<open>A change of the table at a key on which the backend has a handle, and its note.\<close>

lemma note_update_ok:
  assumes "hash_ok N base u" and "tx_ok ops base u" and "holds (rwlocks u) k"
    and "inodeId \<noteq> DIR_HASH_TABLE_PATH_UNKNOWN" and "id_of row = inodeId"
    and "pg_cur ops db = (pg_cur ops (directory_db u))(k := row)"
    and "pg_vis ops db = pg_vis ops (directory_db u)"
    and "pg_dirty ops db = (pg_dirty ops (directory_db u))(k := True)"
    and "DirPathHashToCommitUpdateEntry k inodeId (u\<lparr>directory_db := db\<rparr>) = Some (r, t)"
  shows "hash_ok N base t" and "dir_state.more t = dir_state.more u"
    and "r = Inr () \<Longrightarrow> tx_ok ops base t"
    and "r = Inr () \<Longrightarrow> DirPathHashToCommit t = DirPathHashToCommit u @ [ActionUpdate k inodeId]"
    and "rwlocks t = rwlocks u"
proof -
  have t: "t = u\<lparr>directory_db := db\<rparr> \<and> r \<noteq> Inr () \<or>
      t = u\<lparr>directory_db := db, DirPathHashToCommit := DirPathHashToCommit u @ [ActionUpdate k inodeId]\<rparr>"
    using assms(9) by (auto simp: DirPathHashToCommitUpdateEntry_def raise_def return_def split: if_splits)
  then show "hash_ok N base t" using assms(1) by (elim disjE conjE; simp add: hash_ok_def)
  from t show "dir_state.more t = dir_state.more u" and "rwlocks t = rwlocks u" by auto
  assume "r = Inr ()"
  with t have t': "t = u\<lparr>directory_db := db, DirPathHashToCommit := DirPathHashToCommit u @ [ActionUpdate k inodeId]\<rparr>"
    by auto
  then show "DirPathHashToCommit t = DirPathHashToCommit u @ [ActionUpdate k inodeId]" by simp
  show "tx_ok ops base t"
    using assms(2-8) unfolding t' by (auto simp: tx_ok_def)
qed

text \<open>The end of \<open>Insert\<close> and \<open>Delete\<close>: take the lock, change the table, note the change.\<close>

lemma touch_holds:
  assumes "same_tx u v" and "held_rwlocks (rwlocks v) = held_rwlocks (rwlocks u) @ lock_handle k lockMode"
    and "lockMode \<noteq> DIR_LOCK_NONE \<or> holds (rwlocks u) k"
  shows "holds (rwlocks v) k"
  using assms by (cases lockMode) (auto simp: holds_def same_tx_def lock_handle_def)

lemma Insert_hit_ok:
  assumes "pg_ok ops" and "hash_ok N base u" and "tx_ok ops base u" and "PathDirHash u k = Some item"
    and "lockMode \<noteq> DIR_LOCK_NONE \<or> holds (rwlocks u) k" and "k \<notin> updated (DirPathHashToCommit u)"
    and "inodeId \<noteq> DIR_HASH_TABLE_PATH_UNKNOWN"
    and "bindM (touch_item k lockMode) (\<lambda>_. bindM (InsertIntoDirectoryTable ops k inodeId) (\<lambda>_.
           DirPathHashToCommitUpdateEntry k inodeId)) u = Some (r, t)"
  shows "hash_ok N base t \<and> dir_state.more t = dir_state.more u \<and> (r = Inr () \<longrightarrow> tx_ok ops base t \<and>
    updated (DirPathHashToCommit t) = insert k (updated (DirPathHashToCommit u)) \<and>
    base k = DIR_HASH_TABLE_PATH_NOT_EXIST \<and> (\<forall>j. holds (rwlocks u) j \<longrightarrow> holds (rwlocks t) j))"
  using assms(8)
proof (cases rule: bindM_E)
  case (raised e)
  with touch_item_ok [OF assms(2,4) raised(1)] show ?thesis by (simp add: same_tx_def)
next
  case (continued x v)
  note th = touch_item_ok [OF assms(2,4) continued(1)]
  have hk: "holds (rwlocks v) k" using touch_holds [OF th(3) th(5) assms(5)] by simp
  have db: "directory_db v = directory_db u" and upd: "updated (DirPathHashToCommit v) = updated (DirPathHashToCommit u)"
    and more: "dir_state.more v = dir_state.more u"
    using th(3) by (simp_all add: same_tx_def)
  show ?thesis
  proof (cases "pg_insert ops (directory_db v) k inodeId")
    case None
    with continued(2) have "t = v" and "r = Inl UNKNOWN"
      by (auto simp: bindM_def InsertIntoDirectoryTable_def raise_def)
    with th(1) more show ?thesis by simp
  next
    case (Some db')
    note laws = pg_insert_Some [OF assms(1) Some]
    have "DirPathHashToCommitUpdateEntry k inodeId (v\<lparr>directory_db := db'\<rparr>) = Some (r, t)"
      using continued(2) Some by (simp add: bindM_def InsertIntoDirectoryTable_def return_def)
    note n = note_update_ok [OF th(1) th(2) [OF assms(3)] hk assms(7) _ laws(1,2,3) this, unfolded id_of_def, simplified]
    have "pg_cur ops (directory_db v) k = None"
      using pg_insert_None [OF assms(1), of "directory_db v" k inodeId] Some by auto
    moreover have "id_of (pg_cur ops (directory_db v) k) = tx_view base (DirPathHashToCommit v) k"
      using th(2) [OF assms(3)] by (simp add: tx_ok_def)
    ultimately have "base k = DIR_HASH_TABLE_PATH_NOT_EXIST"
      using assms(6) upd by (simp add: tx_view_unchanged id_of_def)
    with n more upd th(3) show ?thesis by (auto simp: same_tx_def)
  qed
qed

lemma Delete_hit_ok:
  assumes "pg_ok ops" and "hash_ok N base u" and "tx_ok ops base u" and "PathDirHash u k = Some item"
    and "lockMode \<noteq> DIR_LOCK_NONE \<or> holds (rwlocks u) k" and "k \<notin> updated (DirPathHashToCommit u)"
    and "bindM (touch_item k lockMode) (\<lambda>_. bindM (DeleteFromDirectoryTable ops k) (\<lambda>_.
           DirPathHashToCommitUpdateEntry k DIR_HASH_TABLE_PATH_NOT_EXIST)) u = Some (r, t)"
  shows "hash_ok N base t \<and> dir_state.more t = dir_state.more u \<and> (r = Inr () \<longrightarrow> tx_ok ops base t \<and>
    updated (DirPathHashToCommit t) = insert k (updated (DirPathHashToCommit u)) \<and>
    pg_vis ops (directory_db u) k \<noteq> None \<and> (\<forall>j. holds (rwlocks u) j \<longrightarrow> holds (rwlocks t) j))"
  using assms(7)
proof (cases rule: bindM_E)
  case (raised e)
  with touch_item_ok [OF assms(2,4) raised(1)] show ?thesis by (simp add: same_tx_def)
next
  case (continued x v)
  note th = touch_item_ok [OF assms(2,4) continued(1)]
  have hk: "holds (rwlocks v) k" using touch_holds [OF th(3) th(5) assms(5)] by simp
  have db: "directory_db v = directory_db u" and upd: "updated (DirPathHashToCommit v) = updated (DirPathHashToCommit u)"
    and more: "dir_state.more v = dir_state.more u"
    using th(3) by (simp_all add: same_tx_def)
  show ?thesis
  proof (cases "pg_vis ops (directory_db v) k = None \<or> pg_delete ops (directory_db v) k = None")
    case True
    with continued(2) have "t = v" and "r \<noteq> Inr ()"
      by (auto simp: bindM_def DeleteFromDirectoryTable_def raise_def split: if_splits)
    with th(1) more show ?thesis by simp
  next
    case False
    then obtain db' where vis: "pg_vis ops (directory_db v) k \<noteq> None" and Some: "pg_delete ops (directory_db v) k = Some db'"
      by auto
    note laws = pg_delete_Some [OF assms(1) Some]
    have "DirPathHashToCommitUpdateEntry k DIR_HASH_TABLE_PATH_NOT_EXIST (v\<lparr>directory_db := db'\<rparr>) = Some (r, t)"
      using continued(2) Some vis by (simp add: bindM_def DeleteFromDirectoryTable_def return_def)
    note n = note_update_ok [OF th(1) th(2) [OF assms(3)] hk _ _ laws(1,2,3) this]
    have "DIR_HASH_TABLE_PATH_NOT_EXIST \<noteq> DIR_HASH_TABLE_PATH_UNKNOWN"
      by (simp add: DIR_HASH_TABLE_PATH_NOT_EXIST_def DIR_HASH_TABLE_PATH_UNKNOWN_def)
    with n [OF _ ] more upd th(3) vis db show ?thesis by (auto simp: same_tx_def id_of_def)
  qed
qed

lemma Insert_ok:
  assumes "pg_ok ops" and "hash_ok N base s" and "tx_ok ops base s" and "k \<notin> updated (DirPathHashToCommit s)"
    and "lockMode \<noteq> DIR_LOCK_NONE \<or> holds (rwlocks s) k" and "inodeId \<noteq> DIR_HASH_TABLE_PATH_UNKNOWN"
    and "InsertDirectoryByDirectoryHashTable env ops k inodeId lockMode s = Some (r, t)"
  shows "hash_ok N base t \<and> dir_state.more t = dir_state.more s \<and> (r = Inr () \<longrightarrow> tx_ok ops base t \<and>
    updated (DirPathHashToCommit t) = insert k (updated (DirPathHashToCommit s)) \<and>
    base k = DIR_HASH_TABLE_PATH_NOT_EXIST \<and> (\<forall>j. holds (rwlocks s) j \<longrightarrow> holds (rwlocks t) j))" (is ?P)
proof -
  let ?hit = "bindM (touch_item k lockMode) (\<lambda>_. bindM (InsertIntoDirectoryTable ops k inodeId) (\<lambda>_.
           DirPathHashToCommitUpdateEntry k inodeId))"
  have hit: ?P if v: "hash_ok N base v" "tx_ok ops base v" "same_tx s v" "PathDirHash v k = Some item"
      and run: "?hit v = Some (r, t)" for v item
  proof -
    have "lockMode \<noteq> DIR_LOCK_NONE \<or> holds (rwlocks v) k" and "k \<notin> updated (DirPathHashToCommit v)"
      using assms(4,5) v(3) by (auto simp: same_tx_def)
    from Insert_hit_ok [OF assms(1) v(1,2,4) this assms(6) run] v(3) show ?thesis by (auto simp: same_tx_def)
  qed
  show ?P
  proof (cases "item_unset s k")
    case False
    then obtain item where "PathDirHash s k = Some item" using item_set_base [OF assms(2)] by blast
    with False assms show ?thesis
      by (intro hit [of s item]) (simp_all add: InsertDirectoryByDirectoryHashTable_def Let_def touch_item_then)
  next
    case True
    show ?thesis
    proof (cases "base k = DIR_HASH_TABLE_PATH_NOT_EXIST")
      case False
      with assms(7) True have "t = s" and "r = Inl ARGUMENT_ERROR"
        by (auto simp: InsertDirectoryByDirectoryHashTable_def Let_def lookup_base [OF assms(3,4)] raise_def)
      with assms(2) show ?thesis by simp
    next
      case absent: True
      from assms(7) True have "bindM (hash_enter env k lockMode) (\<lambda>e. bindM (refresh_item env k (base k) e) (\<lambda>_.
          if e = NoSpace then InsertIntoDirectoryTable ops k inodeId else ?hit)) s = Some (r, t)"
        by (simp add: InsertDirectoryByDirectoryHashTable_def Let_def touch_item_then lookup_base [OF assms(3,4)] absent)
      then obtain e u where e: "hash_enter env k lockMode s = Some (Inr e, u)"
        and rest: "bindM (refresh_item env k (base k) e) (\<lambda>_.
          if e = NoSpace then InsertIntoDirectoryTable ops k inodeId else ?hit) u = Some (r, t)"
        by (cases rule: bindM_E) (auto simp: hash_enter_no_raise)
      note ref = refresh_item_ok [OF assms(2,3) True refl e]
      from rest show ?thesis
      proof (cases rule: bindM_E)
        case (raised x)
        from ref [OF raised(1)] raised(2) show ?thesis by (simp add: same_tx_def)
      next
        case (continued x v)
        note rv = ref [OF continued(1)]
        have "e \<noteq> NoSpace"
          using rv(6) assms(5) hash_okD(3) [OF assms(2), of k] e hash_enter_present [of s k env lockMode] by auto
        with rv(5) obtain item where "PathDirHash v k = Some item" by auto
        with \<open>e \<noteq> NoSpace\<close> continued(2) rv show ?thesis by (intro hit [of v item]) simp_all
      qed
    qed
  qed
qed

lemma Delete_ok:
  assumes "pg_ok ops" and "hash_ok N base s" and "tx_ok ops base s" and "k \<notin> updated (DirPathHashToCommit s)"
    and "lockMode \<noteq> DIR_LOCK_NONE \<or> holds (rwlocks s) k"
    and "DeleteDirectoryByDirectoryHashTable env ops k lockMode s = Some (r, t)"
  shows "hash_ok N base t \<and> dir_state.more t = dir_state.more s \<and> (r = Inr () \<longrightarrow> tx_ok ops base t \<and>
    updated (DirPathHashToCommit t) = insert k (updated (DirPathHashToCommit s)) \<and>
    pg_vis ops (directory_db s) k \<noteq> None \<and> (\<forall>j. holds (rwlocks s) j \<longrightarrow> holds (rwlocks t) j))" (is ?P)
proof -
  let ?hit = "bindM (touch_item k lockMode) (\<lambda>_. bindM (DeleteFromDirectoryTable ops k) (\<lambda>_.
           DirPathHashToCommitUpdateEntry k DIR_HASH_TABLE_PATH_NOT_EXIST))"
  have hit: ?P if v: "hash_ok N base v" "tx_ok ops base v" "same_tx s v" "PathDirHash v k = Some item"
      and run: "?hit v = Some (r, t)" for v item
  proof -
    have "lockMode \<noteq> DIR_LOCK_NONE \<or> holds (rwlocks v) k" and "k \<notin> updated (DirPathHashToCommit v)"
      using assms(4,5) v(3) by (auto simp: same_tx_def)
    from Delete_hit_ok [OF assms(1) v(1,2,4) this run] v(3) show ?thesis by (auto simp: same_tx_def)
  qed
  show ?P
  proof (cases "lockMode = DIR_LOCK_SHARED")
    case True
    with assms(6) have "t = s" and "r = Inl PROGRAM_ERROR"
      by (auto simp: DeleteDirectoryByDirectoryHashTable_def raise_def)
    with assms(2) show ?thesis by simp
  next
    case False
    show ?thesis
    proof (cases "PathDirHash s k")
      case (Some item)
      with False assms show ?thesis
        by (intro hit [of s item]) (simp_all add: DeleteDirectoryByDirectoryHashTable_def Let_def touch_item_then)
    next
      case None
      from assms(6) False None have "bindM (hash_enter env k lockMode) (\<lambda>e. bindM
          (if e = Entered then init_item env k DIR_HASH_TABLE_PATH_UNKNOWN else return ()) (\<lambda>_.
          if e = NoSpace then DeleteFromDirectoryTable ops k else ?hit)) s = Some (r, t)"
        by (simp add: DeleteDirectoryByDirectoryHashTable_def Let_def touch_item_then)
      then obtain e u where e: "hash_enter env k lockMode s = Some (Inr e, u)" and rest: "bindM
          (if e = Entered then init_item env k DIR_HASH_TABLE_PATH_UNKNOWN else return ()) (\<lambda>_.
          if e = NoSpace then DeleteFromDirectoryTable ops k else ?hit) u = Some (r, t)"
        by (cases rule: bindM_E) (auto simp: hash_enter_no_raise)
      from hash_enter_result [OF e] obtain v where v: "evicted s v"
        and cs: "e = Found \<and> u = v \<and> PathDirHash v k \<noteq> None \<or>
          e = Entered \<and> u = new_element env k v \<and> PathDirHash v k = None \<or>
          e = NoSpace \<and> u = v \<and> lockMode = DIR_LOCK_NONE" by auto
      have hv: "hash_ok N base v" and tv: "tx_ok ops base v" and sv: "same_tx s v"
        using assms(2,3) v by (auto intro: hash_ok_evicted tx_ok_evicted evicted_same_tx)
      have "e \<noteq> NoSpace" using cs assms(5) hash_okD(3) [OF assms(2), of k] None by auto
      moreover have "e \<noteq> Found" using cs evicted_item [OF v, of k] None by auto
      ultimately have en: "e = Entered" "u = new_element env k v" and none: "PathDirHash v k = None"
        using cs by auto
      from rest en have run: "bindM (DirPathHashToCommitAddEntry k) (\<lambda>_. ?hit) (entered_item env k DIR_HASH_TABLE_PATH_UNKNOWN v) = Some (r, t)"
        by (simp add: bindM_def init_item_new_element)
      note he = hash_ok_entered_item [OF hv none, of DIR_HASH_TABLE_PATH_UNKNOWN env, simplified]
        and te = tx_ok_entered_item [OF tv, of env k DIR_HASH_TABLE_PATH_UNKNOWN]
      have se: "same_tx s (entered_item env k DIR_HASH_TABLE_PATH_UNKNOWN v)"
        using sv by (simp add: same_tx_def entered_item_frame holds_def)
      from run show ?thesis
      proof (cases rule: bindM_E)
        case (raised x)
        note a = DirPathHashToCommitAddEntry_ok [OF raised(1)]
        from a(1) obtain as where "t = (entered_item env k DIR_HASH_TABLE_PATH_UNKNOWN v)\<lparr>DirPathHashToCommit := as\<rparr>" by blast
        with a(2) [OF he] raised(2) se show ?thesis by (simp add: same_tx_def)
      next
        case (continued x w)
        note a = DirPathHashToCommitAddEntry_ok [OF continued(1)]
        from a(1) obtain as where w: "w = (entered_item env k DIR_HASH_TABLE_PATH_UNKNOWN v)\<lparr>DirPathHashToCommit := as\<rparr>" by blast
        have "same_tx s w" using se a(4) by (simp add: same_tx_def w)
        moreover have "PathDirHash w k = Some \<lparr>item_inodeId = DIR_HASH_TABLE_PATH_UNKNOWN, usageCount = 0\<rparr>"
          by (simp add: w entered_item_frame)
        ultimately show ?thesis using a(2) [OF he] a(3) [OF te] continued(2) by (intro hit [of w]) simp_all
      qed
    qed
  qed
qed

subsection \<open>The end of a transaction\<close>

lemma commit_action_ok:
  assumes "hash_ok N base s" and "commit_action env a s = Some t"
    and "\<And>k inodeId. a = ActionUpdate k inodeId \<Longrightarrow> holds (rwlocks s) k"
  shows "hash_ok N (apply_action base a) t" and "rwlocks t = rwlocks s" and "directory_db t = directory_db s"
    and "dir_state.more t = dir_state.more s"
proof -
  have "hash_ok N (apply_action base a) t \<and> rwlocks t = rwlocks s \<and> directory_db t = directory_db s \<and>
    dir_state.more t = dir_state.more s"
  proof (cases a)
    case (ActionAdd k)
    then obtain b where "EliminateDirPathHashByLRU env (partition_of env k) s = Some (b, t)"
      using assms(2) by (auto simp: commit_action_def)
    then have "evicted s t" by (rule EliminateDirPathHashByLRU_evicted)
    with ActionAdd assms(1) show ?thesis by (simp add: hash_ok_evicted evicted_frame)
  next
    case (ActionUpdate k inodeId)
    with assms(3) have "PathDirHash s k \<noteq> None" by (intro hash_okD(3) [OF assms(1)])
    then obtain item where "PathDirHash s k = Some item" by auto
    with ActionUpdate assms(2) have t: "t = set_item k (item\<lparr>item_inodeId := inodeId\<rparr>) s"
      by (simp add: commit_action_def)
    with assms(1) ActionUpdate show ?thesis by (auto simp: hash_ok_def)
  qed
  then show "hash_ok N (apply_action base a) t" and "rwlocks t = rwlocks s" and "directory_db t = directory_db s"
    and "dir_state.more t = dir_state.more s" by auto
qed

lemma commit_actions_ok:
  assumes "hash_ok N base s" and "commit_actions env as s = Some t"
    and "\<And>k inodeId. ActionUpdate k inodeId \<in> set as \<Longrightarrow> holds (rwlocks s) k"
  shows "hash_ok N (tx_view base as) t \<and> rwlocks t = rwlocks s \<and> directory_db t = directory_db s \<and>
    dir_state.more t = dir_state.more s"
  using assms
proof (induction as arbitrary: s base)
  case (Cons a as)
  then obtain u where u: "commit_action env a s = Some u" and rest: "commit_actions env as u = Some t"
    by (auto simp: bind_eq_Some_conv)
  have "a = ActionUpdate k inodeId \<Longrightarrow> holds (rwlocks s) k" for k inodeId
    using Cons.prems(3) [of k inodeId] by simp
  note c = commit_action_ok [OF Cons.prems(1) u this]
  have "ActionUpdate k inodeId \<in> set as \<Longrightarrow> holds (rwlocks u) k" for k inodeId
    using Cons.prems(3) [of k inodeId] c(2) by simp
  from Cons.IH [OF c(1) rest this] c(2-4) show ?case by (simp add: tx_view_Cons)
qed simp

text \<open>
  What a server does when a transaction ends (\<open>FalconTransactionCallback\<close> in
  \<open>falcon/transaction/transaction.c\<close>): the hash takes over or drops the noted changes, then all
  locks are released.  \<open>db\<close> is the table after PostgreSQL has committed or rolled back.
\<close>

definition dir_commit :: "dir_env \<Rightarrow> 'd \<Rightarrow> ('d, 'm) dir_state_scheme \<Rightarrow> (('d, 'm) dir_state_scheme) falcon option" where
  "dir_commit env db s =
    Option.bind (CommitForDirPathHash env s) (\<lambda>t.
    map_option (map_sum id (\<lambda>l. t\<lparr>rwlocks := l, directory_db := db\<rparr>)) (RWLockReleaseAll False (rwlocks t)))"

definition dir_abort :: "'d \<Rightarrow> ('d, 'm) dir_state_scheme \<Rightarrow> (('d, 'm) dir_state_scheme) falcon option" where
  "dir_abort db s =
    (let t = AbortForDirPathHash s in
     map_option (map_sum id (\<lambda>l. t\<lparr>rwlocks := l, directory_db := db\<rparr>)) (RWLockReleaseAll True (rwlocks t)))"

lemma hash_ok_release:
  assumes "hash_ok N base s"
  obtains l where "RWLockReleaseAll keep (rwlocks s) = Some (Inr l)" and "held_rwlocks l = []"
    and "hash_ok N base (s\<lparr>rwlocks := l, directory_db := db\<rparr>)"
proof -
  from RWLockReleaseAll_ok [OF hash_okD(2) [OF assms]] obtain l where l:
    "RWLockReleaseAll keep (rwlocks s) = Some (Inr l)" "locks_ok N l" "held_rwlocks l = []" by blast
  moreover have "hash_ok N base (s\<lparr>rwlocks := l, directory_db := db\<rparr>)"
    using assms l by (simp add: hash_ok_def holds_def)
  ultimately show thesis by (intro that)
qed

lemma dir_commit_ok:
  assumes "hash_ok N base s" and "tx_ok ops base s" and "dir_commit env db s = Some r"
    and "pg_ok ops" and "pg_clean ops db" and "pg_vis ops db = pg_cur ops (directory_db s)"
  obtains t where "r = Inr t" and "hash_ok N (\<lambda>k. id_of (pg_vis ops db k)) t"
    and "tx_ok ops (\<lambda>k. id_of (pg_vis ops db k)) t" and "directory_db t = db" and "held_rwlocks (rwlocks t) = []"
    and "DirPathHashToCommit t = []" and "dir_state.more t = dir_state.more s"
proof -
  let ?new = "\<lambda>k. id_of (pg_vis ops db k)"
  have view: "tx_view base (DirPathHashToCommit s) = ?new"
    using assms(2,6) by (auto simp: tx_ok_def)
  from assms(3) obtain u where u: "commit_actions env (DirPathHashToCommit s) s = Some u"
    and r: "map_option (map_sum id (\<lambda>l. (DirPathHashToCommitClear u)\<lparr>rwlocks := l, directory_db := db\<rparr>))
      (RWLockReleaseAll False (rwlocks (DirPathHashToCommitClear u))) = Some r"
    by (auto simp: dir_commit_def CommitForDirPathHash_def bind_eq_Some_conv)
  have "hash_ok N ?new u" and more: "dir_state.more u = dir_state.more s"
    using commit_actions_ok [OF assms(1) u] assms(2) view by (auto simp: tx_ok_def)
  then have "hash_ok N ?new (DirPathHashToCommitClear u)" by (simp add: DirPathHashToCommitClear_def hash_ok_def)
  from hash_ok_release [OF this] obtain l where l:
    "RWLockReleaseAll False (rwlocks (DirPathHashToCommitClear u)) = Some (Inr l)" "held_rwlocks l = []"
    "hash_ok N ?new ((DirPathHashToCommitClear u)\<lparr>rwlocks := l, directory_db := db\<rparr>)" by blast
  let ?t = "(DirPathHashToCommitClear u)\<lparr>rwlocks := l, directory_db := db\<rparr>"
  have "?new k \<noteq> DIR_HASH_TABLE_PATH_UNKNOWN" for k
  proof -
    have "tx_view base as k \<noteq> DIR_HASH_TABLE_PATH_UNKNOWN"
      if "\<And>k inodeId. ActionUpdate k inodeId \<in> set as \<Longrightarrow> inodeId \<noteq> DIR_HASH_TABLE_PATH_UNKNOWN" for as k
      using that
    proof (induction as rule: rev_induct)
      case Nil
      then show ?case using assms(2) by (simp add: tx_ok_def)
    next
      case (snoc a as)
      then show ?case by (cases a) auto
    qed
    then have "tx_view base (DirPathHashToCommit s) k \<noteq> DIR_HASH_TABLE_PATH_UNKNOWN"
      using assms(2) by (auto simp: tx_ok_def)
    with view show ?thesis by simp
  qed
  then have "tx_ok ops ?new ?t"
    using assms(4,5) by (simp add: tx_ok_def DirPathHashToCommitClear_def pg_clean_cur) (simp add: pg_clean_def)
  with l r more show thesis by (intro that [of ?t]) (simp_all add: DirPathHashToCommitClear_def)
qed

lemma dir_abort_ok:
  assumes "hash_ok N base s" and "dir_abort db s = Some r" and "pg_ok ops" and "pg_clean ops db"
    and "\<And>k. id_of (pg_vis ops db k) = base k" and "\<And>k. base k \<noteq> DIR_HASH_TABLE_PATH_UNKNOWN"
  obtains t where "r = Inr t" and "hash_ok N base t" and "tx_ok ops base t" and "directory_db t = db"
    and "held_rwlocks (rwlocks t) = []" and "DirPathHashToCommit t = []" and "dir_state.more t = dir_state.more s"
proof -
  have "hash_ok N base (AbortForDirPathHash s)"
    using assms(1) by (simp add: AbortForDirPathHash_def DirPathHashToCommitClear_def hash_ok_def)
  from hash_ok_release [OF this] obtain l where l:
    "RWLockReleaseAll True (rwlocks (AbortForDirPathHash s)) = Some (Inr l)" "held_rwlocks l = []"
    "hash_ok N base ((AbortForDirPathHash s)\<lparr>rwlocks := l, directory_db := db\<rparr>)" by blast
  let ?t = "(AbortForDirPathHash s)\<lparr>rwlocks := l, directory_db := db\<rparr>"
  have "tx_ok ops base ?t"
    using assms(3-6) by (simp add: tx_ok_def AbortForDirPathHash_def DirPathHashToCommitClear_def pg_clean_cur)
      (simp add: pg_clean_def)
  with l assms(2) show thesis
    by (intro that [of ?t]) (auto simp: dir_abort_def AbortForDirPathHash_def DirPathHashToCommitClear_def Let_def)
qed

subsection \<open>Transactions on one server\<close>

text \<open>
  \<open>dir_run env ops N db s\<close>: the state \<open>s\<close> is reached by transactions on the committed table
  \<open>db\<close>, with at most \<open>N\<close> references of other backends on a lock.  A transaction searches, inserts
  and deletes directories, each key at most once and under a lock of its own as the handlers do
  it, increments the command counter, and ends with a commit or with an abort after a raised
  error or on request.
\<close>

inductive dir_run :: "dir_env \<Rightarrow> ('d, dir_key, u64) pg_ops \<Rightarrow> nat \<Rightarrow> 'd \<Rightarrow> ('d, 'm) dir_state_scheme \<Rightarrow> bool"
  for env ops N where
  start: "pg_clean ops db \<Longrightarrow> \<forall>k. pg_vis ops db k \<noteq> Some DIR_HASH_TABLE_PATH_UNKNOWN \<Longrightarrow>
    locks_ok N (rwlocks s) \<Longrightarrow> held_rwlocks (rwlocks s) = [] \<Longrightarrow> directory_db s = db \<Longrightarrow>
    dir_run env ops N db (DirPathHashToCommitClear (DirPathShmemInit s))"
| search: "dir_run env ops N db s \<Longrightarrow> k \<notin> updated (DirPathHashToCommit s) \<Longrightarrow>
    SearchDirectoryByDirectoryHashTable env ops k lockMode s = Some (Inr inodeId, t) \<Longrightarrow> dir_run env ops N db t"
| insert: "dir_run env ops N db s \<Longrightarrow> k \<notin> updated (DirPathHashToCommit s) \<Longrightarrow>
    lockMode \<noteq> DIR_LOCK_NONE \<or> holds (rwlocks s) k \<Longrightarrow> inodeId \<noteq> DIR_HASH_TABLE_PATH_UNKNOWN \<Longrightarrow>
    InsertDirectoryByDirectoryHashTable env ops k inodeId lockMode s = Some (Inr (), t) \<Longrightarrow> dir_run env ops N db t"
| delete: "dir_run env ops N db s \<Longrightarrow> k \<notin> updated (DirPathHashToCommit s) \<Longrightarrow>
    lockMode \<noteq> DIR_LOCK_NONE \<or> holds (rwlocks s) k \<Longrightarrow>
    DeleteDirectoryByDirectoryHashTable env ops k lockMode s = Some (Inr (), t) \<Longrightarrow> dir_run env ops N db t"
| increment: "dir_run env ops N db s \<Longrightarrow> dir_run env ops N db (s\<lparr>directory_db := pg_cci ops (directory_db s)\<rparr>)"
| commit: "dir_run env ops N db s \<Longrightarrow> pg_clean ops db' \<Longrightarrow> pg_vis ops db' = pg_cur ops (directory_db s) \<Longrightarrow>
    dir_commit env db' s = Some (Inr t) \<Longrightarrow> dir_run env ops N db' t"
| abort: "dir_run env ops N db s \<Longrightarrow> dir_abort db s = Some (Inr t) \<Longrightarrow> dir_run env ops N db t"
| search_raised: "dir_run env ops N db s \<Longrightarrow> k \<notin> updated (DirPathHashToCommit s) \<Longrightarrow>
    SearchDirectoryByDirectoryHashTable env ops k lockMode s = Some (Inl e, u) \<Longrightarrow>
    dir_abort db u = Some (Inr t) \<Longrightarrow> dir_run env ops N db t"
| insert_raised: "dir_run env ops N db s \<Longrightarrow> k \<notin> updated (DirPathHashToCommit s) \<Longrightarrow>
    lockMode \<noteq> DIR_LOCK_NONE \<or> holds (rwlocks s) k \<Longrightarrow> inodeId \<noteq> DIR_HASH_TABLE_PATH_UNKNOWN \<Longrightarrow>
    InsertDirectoryByDirectoryHashTable env ops k inodeId lockMode s = Some (Inl e, u) \<Longrightarrow>
    dir_abort db u = Some (Inr t) \<Longrightarrow> dir_run env ops N db t"
| delete_raised: "dir_run env ops N db s \<Longrightarrow> k \<notin> updated (DirPathHashToCommit s) \<Longrightarrow>
    lockMode \<noteq> DIR_LOCK_NONE \<or> holds (rwlocks s) k \<Longrightarrow>
    DeleteDirectoryByDirectoryHashTable env ops k lockMode s = Some (Inl e, u) \<Longrightarrow>
    dir_abort db u = Some (Inr t) \<Longrightarrow> dir_run env ops N db t"

lemma tx_ok_increment:
  assumes "pg_ok ops" and "tx_ok ops base s"
  shows "tx_ok ops base (s\<lparr>directory_db := pg_cci ops (directory_db s)\<rparr>)"
proof -
  have c: "\<not> pg_dirty ops (pg_cci ops (directory_db s)) k" for k
    using pg_cci_laws(3) [OF assms(1), of "directory_db s"] by (simp add: pg_clean_def)
  have "id_of (pg_cur ops (directory_db s) k) = base k" if "k \<notin> updated (DirPathHashToCommit s)" for k
    using assms(2) that by (simp add: tx_ok_def tx_view_unchanged)
  with assms c show ?thesis
    by (simp add: tx_ok_def pg_cci_laws)
qed

lemma dir_abort_run:
  assumes "pg_ok ops" and "tx_ok ops (\<lambda>k. id_of (pg_vis ops db k)) s" and "pg_clean ops db"
    and "hash_ok N (\<lambda>k. id_of (pg_vis ops db k)) u" and "dir_abort db u = Some (Inr t)"
  shows "hash_ok N (\<lambda>k. id_of (pg_vis ops db k)) t \<and> tx_ok ops (\<lambda>k. id_of (pg_vis ops db k)) t \<and> pg_clean ops db"
proof -
  have "id_of (pg_vis ops db k) \<noteq> DIR_HASH_TABLE_PATH_UNKNOWN" for k
    using assms(2) by (simp add: tx_ok_def)
  from dir_abort_ok [OF assms(4,5,1,3) refl this]
  have "hash_ok N (\<lambda>k. id_of (pg_vis ops db k)) t \<and> tx_ok ops (\<lambda>k. id_of (pg_vis ops db k)) t" by auto
  with assms(3) show ?thesis by simp
qed

lemma dir_run_ok:
  assumes "dir_run env ops N db s" and "pg_ok ops"
  shows "hash_ok N (\<lambda>k. id_of (pg_vis ops db k)) s \<and> tx_ok ops (\<lambda>k. id_of (pg_vis ops db k)) s \<and> pg_clean ops db"
  using assms
proof (induction rule: dir_run.induct)
  case (start db s)
  have "id_of (pg_vis ops db k) \<noteq> DIR_HASH_TABLE_PATH_UNKNOWN" for k
    using start(2) by (auto simp: id_of_def DIR_HASH_TABLE_PATH_NOT_EXIST_def DIR_HASH_TABLE_PATH_UNKNOWN_def
        split: option.split)
  with start show ?case
    by (simp add: hash_ok_def tx_ok_def DirPathHashToCommitClear_def DirPathShmemInit_def holds_def pg_clean_cur)
      (simp add: pg_clean_def)
next
  case (search db s k lockMode inodeId t)
  then have *: "hash_ok N (\<lambda>k. id_of (pg_vis ops db k)) s" "tx_ok ops (\<lambda>k. id_of (pg_vis ops db k)) s"
    and "pg_clean ops db" by auto
  from Search_ok(1,2) [OF * search(2,3)] this(3) show ?case by simp
next
  case (insert db s k lockMode inodeId t)
  then have *: "hash_ok N (\<lambda>k. id_of (pg_vis ops db k)) s" "tx_ok ops (\<lambda>k. id_of (pg_vis ops db k)) s"
    and "pg_clean ops db" by auto
  from Insert_ok [OF insert.prems * insert(2-5)] this(3) show ?case by simp
next
  case (delete db s k lockMode t)
  then have *: "hash_ok N (\<lambda>k. id_of (pg_vis ops db k)) s" "tx_ok ops (\<lambda>k. id_of (pg_vis ops db k)) s"
    and "pg_clean ops db" by auto
  from Delete_ok [OF delete.prems * delete(2-4)] this(3) show ?case by simp
next
  case (increment db s)
  then show ?case by (simp add: tx_ok_increment hash_ok_def)
next
  case (commit db s db' t)
  then have "hash_ok N (\<lambda>k. id_of (pg_vis ops db k)) s" and "tx_ok ops (\<lambda>k. id_of (pg_vis ops db k)) s" by auto
  from dir_commit_ok [OF this commit(4) commit.prems commit(2,3)]
  have "hash_ok N (\<lambda>k. id_of (pg_vis ops db' k)) t \<and> tx_ok ops (\<lambda>k. id_of (pg_vis ops db' k)) t" by auto
  with commit(2) show ?case by simp
next
  case (abort db s t)
  then have *: "tx_ok ops (\<lambda>k. id_of (pg_vis ops db k)) s" "pg_clean ops db" "hash_ok N (\<lambda>k. id_of (pg_vis ops db k)) s"
    by auto
  from dir_abort_run [OF abort.prems * abort(2)] show ?case .
next
  case (search_raised db s k lockMode e u t)
  then have *: "hash_ok N (\<lambda>k. id_of (pg_vis ops db k)) s" "tx_ok ops (\<lambda>k. id_of (pg_vis ops db k)) s"
    and "pg_clean ops db" by auto
  from Search_ok(1) [OF * search_raised(2,3)] have "hash_ok N (\<lambda>k. id_of (pg_vis ops db k)) u" .
  from dir_abort_run [OF search_raised.prems *(2) \<open>pg_clean ops db\<close> this search_raised(4)] show ?case .
next
  case (insert_raised db s k lockMode inodeId e u t)
  then have *: "hash_ok N (\<lambda>k. id_of (pg_vis ops db k)) s" "tx_ok ops (\<lambda>k. id_of (pg_vis ops db k)) s"
    and "pg_clean ops db" by auto
  from Insert_ok [OF insert_raised.prems * insert_raised(2-5)] have "hash_ok N (\<lambda>k. id_of (pg_vis ops db k)) u" by simp
  from dir_abort_run [OF insert_raised.prems *(2) \<open>pg_clean ops db\<close> this insert_raised(6)] show ?case .
next
  case (delete_raised db s k lockMode e u t)
  then have *: "hash_ok N (\<lambda>k. id_of (pg_vis ops db k)) s" "tx_ok ops (\<lambda>k. id_of (pg_vis ops db k)) s"
    and "pg_clean ops db" by auto
  from Delete_ok [OF delete_raised.prems * delete_raised(2-4)] have "hash_ok N (\<lambda>k. id_of (pg_vis ops db k)) u" by simp
  from dir_abort_run [OF delete_raised.prems *(2) \<open>pg_clean ops db\<close> this delete_raised(5)] show ?case .
qed


definition dir_sample_env :: dir_env where
  "dir_sample_env = \<lparr>hash_any_extended = (\<lambda>_ _. 0), hash_room = (\<lambda>_ _. True),
     hash_element = (\<lambda>_. (\<lparr>item_inodeId = 3, usageCount = 4\<rparr>, 5)), hash_scan = (\<lambda>_ _ _. []), rand = (\<lambda>_. 0)\<rparr>"

definition dir_sample_db :: "(dir_key, u64) pg_alist" where
  "dir_sample_db = ([(DirKey 0 ''/'', 7)], [], [])"

definition dir_sample :: "(dir_key, u64) pg_alist dir_state" where
  "dir_sample = DirPathHashToCommitClear (DirPathShmemInit
     \<lparr>rwlocks = \<lparr>lock_mem = (\<lambda>_. 0), held_rwlocks = [], InterruptHoldoffCount = 0\<rparr>,
      PathDirHash = (\<lambda>_. None), PathDirHashEntryCount = (\<lambda>_. 0), DirPathHashToCommit = [],
      DirectoryHashTableLastAcquiredLock = None, rand_calls = 0, directory_db = dir_sample_db\<rparr>)"

lemma dir_sample_run: "dir_run dir_sample_env pg_alist_ops 0 dir_sample_db dir_sample"
  unfolding dir_sample_def
proof (rule dir_run.start)
  show "locks_ok 0 (rwlocks \<lparr>rwlocks = \<lparr>lock_mem = (\<lambda>_. 0), held_rwlocks = [], InterruptHoldoffCount = 0\<rparr>,
      PathDirHash = (\<lambda>_. None), PathDirHashEntryCount = (\<lambda>_. 0), DirPathHashToCommit = [],
      DirectoryHashTableLastAcquiredLock = None, rand_calls = 0, directory_db = dir_sample_db\<rparr>)"
    by (auto simp: locks_ok_def word_ok_def handles_def all_handles_def intro!: exI [of _ 0] lock_word_0)
qed (simp_all add: dir_sample_db_def pg_clean_def pg_alist_ops_def DIR_HASH_TABLE_PATH_UNKNOWN_def)


end
