(* ===== verification/Dir_Path_Evict.thy ===== *)
theory Dir_Path_Evict
  imports Dir_Path_Hash
begin

text \<open>
  The eviction of \<open>Dir_Path_Hash\<close> ends and does what it says, although its loops have no bound of
  their own: each pass over a partition lowers the use counters of the entries nobody refers to.
\<close>

text \<open>
  What is assumed of a scan of a finite table: it meets only entries of the partition, and a scan from the start
  meets each of them exactly once.
\<close>

definition scan_ok :: "dir_env \<Rightarrow> bool" where
  "scan_ok env \<longleftrightarrow> (\<forall>h i r. finite (dom h) \<longrightarrow> distinct (hash_scan env h i r) \<and>
     set (hash_scan env h i r) \<subseteq> {k. h k \<noteq> None \<and> partition_of env k = i} \<and>
     (r = None \<longrightarrow> set (hash_scan env h i r) = {k. h k \<noteq> None \<and> partition_of env k = i}))"

definition item_use :: "('d, 'm) dir_state_scheme \<Rightarrow> dir_key \<Rightarrow> nat" where
  "item_use s k = (case PathDirHash s k of None \<Rightarrow> 0 | Some item \<Rightarrow> nat (usageCount item))"

lemma FindNextItem_cases:
  assumes "FindNextItem (k # ks) s = (e, n, t)"
  obtains (skip) "PathDirHash s k = None \<or> \<not> item_destroyable s k" and "FindNextItem ks s = (e, n, t)"
  | (stop) item where "PathDirHash s k = Some item" and "item_destroyable s k" and "usageCount item \<le> 1"
      and "e = Some k" and "n = 1" and "t = s\<lparr>PathDirHash := (PathDirHash s)(k \<mapsto> item\<lparr>usageCount := usageCount item - 1\<rparr>)\<rparr>"
  | (lower) item m where "PathDirHash s k = Some item" and "item_destroyable s k" and "1 < usageCount item"
      and "n = Suc m"
      and "FindNextItem ks (s\<lparr>PathDirHash := (PathDirHash s)(k \<mapsto> item\<lparr>usageCount := usageCount item - 1\<rparr>)\<rparr>) = (e, m, t)"
proof (cases "PathDirHash s k = None \<or> \<not> item_destroyable s k")
  case True
  with assms have "FindNextItem ks s = (e, n, t)" by (auto split: option.splits)
  with True show thesis by (rule skip)
next
  case False
  then obtain item where item: "PathDirHash s k = Some item" "item_destroyable s k" by auto
  show thesis
  proof (cases "usageCount item \<le> 1")
    case True
    with assms item show thesis by (intro stop [of item]) (simp_all add: Let_def)
  next
    case False
    obtain e' m t' where "FindNextItem ks
        (s\<lparr>PathDirHash := (PathDirHash s)(k \<mapsto> item\<lparr>usageCount := usageCount item - 1\<rparr>)\<rparr>) = (e', m, t')"
      by (cases "FindNextItem ks (s\<lparr>PathDirHash := (PathDirHash s)(k \<mapsto> item\<lparr>usageCount := usageCount item - 1\<rparr>)\<rparr>)")
    with assms item False show thesis by (intro lower [of item m]) (simp_all add: Let_def)
  qed
qed

lemma FindNextItem_frame:
  "FindNextItem ks s = (e, n, t) \<Longrightarrow> rwlocks t = rwlocks s \<and> (PathDirHash t k = None) = (PathDirHash s k = None) \<and>
    (k \<notin> set ks \<longrightarrow> PathDirHash t k = PathDirHash s k) \<and> (e = Some k \<longrightarrow> k \<in> set ks)"
proof (induction ks arbitrary: s n)
  case (Cons j ks)
  from Cons.prems show ?case
  proof (cases rule: FindNextItem_cases)
    case skip
    with Cons.IH [of s n] show ?thesis by auto
  next
    case (stop item)
    then show ?thesis by auto
  next
    case (lower item m)
    from Cons.IH [OF lower(5)] lower(1) show ?thesis by (auto split: if_splits)
  qed
qed auto

text \<open>A scan that finds nothing lowers the sum of the counters once per destroyable entry.\<close>

lemma FindNextItem_None_sum:
  "distinct ks \<Longrightarrow> FindNextItem ks s = (None, n, t) \<Longrightarrow>
    (\<Sum>k\<in>set ks. item_use t k) + n = (\<Sum>k\<in>set ks. item_use s k) \<and>
    n = card {k \<in> set ks. PathDirHash s k \<noteq> None \<and> item_destroyable s k}"
proof (induction ks arbitrary: s n t)
  case (Cons k ks)
  have sum: "(\<Sum>j\<in>set (k # ks). item_use u j) = item_use u k + (\<Sum>j\<in>set ks. item_use u j)" for u
    using Cons.prems(1) by simp
  show ?case
  proof (cases "PathDirHash s k = None \<or> \<not> item_destroyable s k")
    case True
    with Cons.prems(2) have run: "FindNextItem ks s = (None, n, t)" by (auto split: option.splits)
    have "PathDirHash t k = PathDirHash s k" using Cons.prems(1) FindNextItem_frame [OF run, of k] by simp
    then have "item_use t k = item_use s k" by (simp add: item_use_def)
    moreover have "{j \<in> set (k # ks). PathDirHash s j \<noteq> None \<and> item_destroyable s j} =
        {j \<in> set ks. PathDirHash s j \<noteq> None \<and> item_destroyable s j}" using True by auto
    ultimately show ?thesis using Cons.IH [OF _ run] Cons.prems(1) sum by simp
  next
    case False
    then obtain item where item: "PathDirHash s k = Some item" and d: "item_destroyable s k" by auto
    let ?s' = "s\<lparr>PathDirHash := (PathDirHash s)(k \<mapsto> item\<lparr>usageCount := usageCount item - 1\<rparr>)\<rparr>"
    from Cons.prems(2) item d obtain m where pos: "1 < usageCount item" and run: "FindNextItem ks ?s' = (None, m, t)"
      and n: "n = Suc m"
      by (auto simp: Let_def split: if_splits prod.splits)
    have "PathDirHash t k = PathDirHash ?s' k" using Cons.prems(1) FindNextItem_frame [OF run, of k] by simp
    then have "item_use t k + 1 = item_use s k" using pos item by (simp add: item_use_def)
    moreover have "(\<Sum>j\<in>set ks. item_use ?s' j) = (\<Sum>j\<in>set ks. item_use s j)"
      using Cons.prems(1) by (intro sum.cong) (auto simp: item_use_def)
    moreover have "{j \<in> set ks. PathDirHash ?s' j \<noteq> None \<and> item_destroyable ?s' j} =
        {j \<in> set ks. PathDirHash s j \<noteq> None \<and> item_destroyable s j}"
      using Cons.prems(1) by (auto simp: item_destroyable_def)
    moreover have "{j \<in> set (k # ks). PathDirHash s j \<noteq> None \<and> item_destroyable s j} =
        insert k {j \<in> set ks. PathDirHash s j \<noteq> None \<and> item_destroyable s j}" using item d by auto
    ultimately show ?thesis using Cons.IH [OF _ run] Cons.prems(1) sum n by simp
  qed
qed simp

lemma find_victim_total:
  assumes "scan_ok env" and "finite (dom (PathDirHash s))"
  shows "\<exists>e t. find_victim env i s = Some (e, t) \<and>
    (e = None \<longrightarrow> (\<forall>k. PathDirHash s k \<noteq> None \<longrightarrow> partition_of env k = i \<longrightarrow> \<not> item_destroyable s k)) \<and>
    (\<forall>k. e = Some k \<longrightarrow> partition_of env k = i) \<and> (\<forall>k. (PathDirHash t k = None) = (PathDirHash s k = None))"
  using assms(2)
proof (induction "\<Sum>k\<in>{k. PathDirHash s k \<noteq> None \<and> partition_of env k = i}. item_use s k" arbitrary: s rule: less_induct)
  case less
  let ?ks = "hash_scan env (PathDirHash s) i None"
  have ks: "distinct ?ks" "set ?ks = {k. PathDirHash s k \<noteq> None \<and> partition_of env k = i}"
    using assms(1) less.prems by (auto simp: scan_ok_def)
  obtain e n t where f: "FindNextItem ?ks s = (e, n, t)" by (cases "FindNextItem ?ks s")
  have dom: "(PathDirHash t k = None) = (PathDirHash s k = None)" "rwlocks t = rwlocks s" for k
    using FindNextItem_frame [OF f] by auto
  show ?case
  proof (cases e)
    case None
    note sum = FindNextItem_None_sum [OF ks(1) f [unfolded None]]
    show ?thesis
    proof (cases "n = 0")
      case True
      then have "find_victim env i s = Some (None, t)" by (simp add: find_victim.simps [of env i s] f None)
      moreover have "finite {k \<in> set ?ks. PathDirHash s k \<noteq> None \<and> item_destroyable s k}" by simp
      with sum True have "{k \<in> set ?ks. PathDirHash s k \<noteq> None \<and> item_destroyable s k} = {}" by simp
      ultimately show ?thesis using dom(1) ks(2) by auto
    next
      case False
      have "{k. PathDirHash t k \<noteq> None \<and> partition_of env k = i} = set ?ks" using dom ks(2) by auto
      with False sum ks(2) have "(\<Sum>k\<in>{k. PathDirHash t k \<noteq> None \<and> partition_of env k = i}. item_use t k) <
          (\<Sum>k\<in>{k. PathDirHash s k \<noteq> None \<and> partition_of env k = i}. item_use s k)" by simp
      moreover have "find_victim env i s = find_victim env i t"
        using False by (simp add: find_victim.simps [of env i s] f None)
      moreover have "dom (PathDirHash t) = dom (PathDirHash s)" using dom(1) by (auto simp: dom_def)
      ultimately show ?thesis using less.hyps [of t] less.prems dom by (simp add: item_destroyable_def)
    qed
  next
    case (Some k)
    have "k \<in> set ?ks" using FindNextItem_frame [OF f, of k] Some by simp
    with ks(2) have "partition_of env k = i" by simp
    with Some f dom show ?thesis by (simp add: find_victim.simps [of env i s])
  qed
qed

lemma FindNextItem_count:
  "FindNextItem ks s = (e, n, t) \<Longrightarrow> PathDirHashEntryCount t = PathDirHashEntryCount s"
proof (induction ks arbitrary: s n)
  case (Cons j ks)
  from Cons.prems show ?case
    by (cases rule: FindNextItem_cases) (use Cons.IH in auto)
qed simp

lemma find_victim_count:
  "find_victim env i s = Some r \<Longrightarrow> PathDirHashEntryCount (snd r) = PathDirHashEntryCount s"
proof (induction rule: find_victim_induct)
  case (step fv env i s r)
  obtain e n s' where f: "FindNextItem (hash_scan env (PathDirHash s) i None) s = (e, n, s')"
    by (cases "FindNextItem (hash_scan env (PathDirHash s) i None) s")
  with step(2) have "r = (e, s') \<or> fv env i s' = Some r" by (auto split: if_splits)
  with step(1) [of env i s' r] FindNextItem_count [OF f] show ?case by auto
qed

lemma eliminate_one_total:
  assumes "scan_ok env" and "finite (dom (PathDirHash s))"
  shows "\<exists>b t. eliminate_one env i s = Some (b, t) \<and>
    (if b then \<exists>k. PathDirHash s k \<noteq> None \<and> partition_of env k = i \<and> item_destroyable s k \<and>
        (\<forall>j. (PathDirHash t j = None) = (j = k \<or> PathDirHash s j = None)) \<and>
        PathDirHashEntryCount t = (PathDirHashEntryCount s)(i := PathDirHashEntryCount s i - 1)
     else (\<forall>j. (PathDirHash t j = None) = (PathDirHash s j = None)) \<and>
        (\<forall>k. PathDirHash s k \<noteq> None \<longrightarrow> partition_of env k = i \<longrightarrow> \<not> item_destroyable s k))"
proof -
  let ?ks = "hash_scan env (PathDirHash s) i (Some (rand env (rand_calls s)))"
  let ?s = "s\<lparr>rand_calls := Suc (rand_calls s)\<rparr>"
  obtain e n s1 where f: "FindNextItem ?ks ?s = (e, n, s1)" by (cases "FindNextItem ?ks ?s")
  have ks: "set ?ks \<subseteq> {k. PathDirHash s k \<noteq> None \<and> partition_of env k = i}"
    using assms unfolding scan_ok_def by blast
  have s1: "(PathDirHash s1 k = None) = (PathDirHash s k = None)" "rwlocks s1 = rwlocks s" for k
    using FindNextItem_frame [OF f, of k] by simp_all
  have cnt: "PathDirHashEntryCount s1 = PathDirHashEntryCount s"
    using f by (rule FindNextItem_count [THEN trans]) simp
  obtain e2 s2 where v: "(if e = None then find_victim env i s1 else Some (e, s1)) = Some (e2, s2)"
    and e2: "e2 = None \<Longrightarrow> \<forall>k. PathDirHash s k \<noteq> None \<longrightarrow> partition_of env k = i \<longrightarrow> \<not> item_destroyable s k"
      "\<And>k. e2 = Some k \<Longrightarrow> partition_of env k = i"
    and s2: "\<And>k. (PathDirHash s2 k = None) = (PathDirHash s k = None)"
  proof (cases e)
    case None
    have "dom (PathDirHash s1) = dom (PathDirHash s)" using s1(1) by (auto simp: dom_def)
    with assms(2) have "finite (dom (PathDirHash s1))" by simp
    from find_victim_total [OF assms(1) this, of i] obtain e2 s2 where "find_victim env i s1 = Some (e2, s2)"
      "e2 = None \<longrightarrow> (\<forall>k. PathDirHash s1 k \<noteq> None \<longrightarrow> partition_of env k = i \<longrightarrow> \<not> item_destroyable s1 k)"
      "\<forall>k. e2 = Some k \<longrightarrow> partition_of env k = i" "\<forall>k. (PathDirHash s2 k = None) = (PathDirHash s1 k = None)"
      by blast
    with None s1 show thesis by (intro that [of e2 s2]) (simp_all add: item_destroyable_def)
  next
    case (Some k)
    with ks FindNextItem_frame [OF f, of k] s1 show thesis by (intro that [of e s1]) auto
  qed
  have ev: "evicted s s2" and tgt: "\<And>k. e2 = Some k \<Longrightarrow> item_destroyable s2 k \<and> PathDirHash s2 k \<noteq> None"
    and cnt2: "PathDirHashEntryCount s2 = PathDirHashEntryCount s1"
    using v FindNextItem_evicted [OF f] find_victim_evicted_aux [of env i s1 "(e2, s2)"] find_victim_count [of env i s1 "(e2, s2)"]
    by (auto split: if_splits intro: evicted_trans [OF evicted_rand] evicted_trans [OF evicted_trans [OF evicted_rand]])
  show ?thesis
  proof (cases e2)
    case None
    with f v have "eliminate_one env i s = Some (False, s2)" by (simp add: eliminate_one.simps [of env i s])
    with e2(1) [OF None] s2 show ?thesis by auto
  next
    case (Some k)
    with f v tgt [OF Some] have "eliminate_one env i s = Some (True, s2\<lparr>PathDirHash := (PathDirHash s2)(k := None),
        PathDirHashEntryCount := (PathDirHashEntryCount s2)(i := PathDirHashEntryCount s2 i - 1)\<rparr>)"
      by (auto simp: eliminate_one.simps [of env i s])
    moreover have "item_destroyable s k" using tgt [OF Some] evicted_frame(1) [OF ev] by (simp add: item_destroyable_def)
    ultimately show ?thesis using tgt [OF Some] e2(2) [OF Some] s2 cnt cnt2
      by (intro exI [of _ True] exI [of _ "s2\<lparr>PathDirHash := (PathDirHash s2)(k := None),
        PathDirHashEntryCount := (PathDirHashEntryCount s2)(i := PathDirHashEntryCount s2 i - 1)\<rparr>"]) auto
  qed
qed

text \<open>
  C23. Eviction always returns.  When it reports success it has removed exactly one entry, of
  the partition it was asked for and with a lock nobody refers to, and has counted it off; no
  other entry comes or goes.  When it reports failure it has removed nothing, and either the
  partition holds no more entries than the threshold or every entry of it is referred to.
\<close>

theorem EliminateDirPathHashByLRU_correct:
  assumes "scan_ok env" and "finite (dom (PathDirHash s))"
  shows "\<exists>b t. EliminateDirPathHashByLRU env i s = Some (b, t) \<and>
    (if b then \<exists>k. PathDirHash s k \<noteq> None \<and> partition_of env k = i \<and> item_destroyable s k \<and>
        (\<forall>j. (PathDirHash t j = None) = (j = k \<or> PathDirHash s j = None)) \<and>
        PathDirHashEntryCount t = (PathDirHashEntryCount s)(i := PathDirHashEntryCount s i - 1)
     else (\<forall>j. (PathDirHash t j = None) = (PathDirHash s j = None)) \<and>
        (unat (PathDirHashEntryCount s i) \<le> 12 \<or>
         (\<forall>k. PathDirHash s k \<noteq> None \<longrightarrow> partition_of env k = i \<longrightarrow> \<not> item_destroyable s k)))"
proof (cases "unat (PathDirHashEntryCount s i) \<le> 12")
  case True
  then show ?thesis
    by (intro exI [of _ False]) (simp add: EliminateDirPathHashByLRU_def MAX_BUCKET_SUM_LRU_CLAER_BEGIN_def
        MAX_DIRECTORY_PATH_HASH_CAPACITY_def DIR_PATH_HASH_PARTITION_SIZE_def)
next
  case False
  then have "EliminateDirPathHashByLRU env i s = eliminate_one env i s"
    by (simp add: EliminateDirPathHashByLRU_def MAX_BUCKET_SUM_LRU_CLAER_BEGIN_def
        MAX_DIRECTORY_PATH_HASH_CAPACITY_def DIR_PATH_HASH_PARTITION_SIZE_def)
  moreover from eliminate_one_total [OF assms, of i] obtain b t where "eliminate_one env i s = Some (b, t)"
    and "if b then \<exists>k. PathDirHash s k \<noteq> None \<and> partition_of env k = i \<and> item_destroyable s k \<and>
        (\<forall>j. (PathDirHash t j = None) = (j = k \<or> PathDirHash s j = None)) \<and>
        PathDirHashEntryCount t = (PathDirHashEntryCount s)(i := PathDirHashEntryCount s i - 1)
     else (\<forall>j. (PathDirHash t j = None) = (PathDirHash s j = None)) \<and>
        (\<forall>k. PathDirHash s k \<noteq> None \<longrightarrow> partition_of env k = i \<longrightarrow> \<not> item_destroyable s k)" by blast
  ultimately show ?thesis by (intro exI [of _ b] exI [of _ t]) (simp split: if_splits)
qed

definition evict_sample_env :: dir_env where
  "evict_sample_env = dir_sample_env\<lparr>hash_scan := \<lambda>h i r.
     sorted_list_of_set {k. h k \<noteq> None \<and> partition_of dir_sample_env k = i}\<rparr>"

lemma evict_sample_scan_ok: "scan_ok evict_sample_env"
proof -
  have "partition_of evict_sample_env = partition_of dir_sample_env"
    by (simp add: fun_eq_iff partition_of_def dir_path_hash_def evict_sample_env_def)
  moreover have "finite {k. h k \<noteq> None \<and> partition_of dir_sample_env k = i}" if "finite (dom h)" for h :: dir_hash and i
    using that by (rule rev_finite_subset) auto
  ultimately show ?thesis by (simp add: scan_ok_def evict_sample_env_def)
qed

definition evict_sample :: "(dir_key, u64) pg_alist dir_state" where
  "evict_sample = dir_sample\<lparr>PathDirHash := [DirKey 0 ''/'' \<mapsto> \<lparr>item_inodeId = 7, usageCount = 5\<rparr>],
     PathDirHashEntryCount := (\<lambda>_. 13)\<rparr>"

theorem EliminateDirPathHashByLRU_correct_witness:
  "\<exists>t. EliminateDirPathHashByLRU evict_sample_env 0 evict_sample = Some (True, t) \<and>
    PathDirHash t (DirKey 0 ''/'') = None \<and> PathDirHashEntryCount t 0 = 12"
proof -
  have p: "partition_of evict_sample_env k = 0" for k
    by (simp add: partition_of_def DIR_PATH_HASH_PARTITION_INDEX_def dir_path_hash_def evict_sample_env_def dir_sample_env_def)
  have "item_destroyable evict_sample k" for k
    by (simp add: item_destroyable_def evict_sample_def dir_sample_def DirPathHashToCommitClear_def DirPathShmemInit_def
        RWLockCheckDestroyable_def)
  with EliminateDirPathHashByLRU_correct [OF evict_sample_scan_ok, of evict_sample 0] p show ?thesis
    by (auto simp: evict_sample_def split: if_splits)
qed

end
