(* ===== verification/Path_Parse.thy ===== *)
theory Path_Parse
  imports Dir_Path_Hash Meta_Ids "HOL-Library.AList"
begin

text \<open>
  Path resolution (\<open>falcon/utils/path_parse.c\<close>).  A path is cut into its first character and the
  names between the slashes after it.  \<open>PathParseTreeInsert\<close> walks down all names but the last,
  takes a shared lock on every directory it passes, and remembers what it has seen and locked in
  a tree that lives as long as the transaction.  What it does with the last name depends on its
  flags.

  The red-black tree of children is an association list by name.  All callers pass a null root,
  so that the tree is always the one of the transaction.  Pointers for results that may be null
  are \<open>option\<close>s: \<open>None\<close> is a null pointer going in and a result not written coming out.
\<close>

subsection \<open>Data\<close>

definition PATH_PARSE_FLAG_NOT_ROOT :: u16 where "PATH_PARSE_FLAG_NOT_ROOT = 1"
definition PATH_PARSE_FLAG_TARGET_IS_DIRECTORY :: u16 where "PATH_PARSE_FLAG_TARGET_IS_DIRECTORY = 2"
definition PATH_PARSE_FLAG_TARGET_TO_BE_CREATED :: u16 where "PATH_PARSE_FLAG_TARGET_TO_BE_CREATED = 4"
definition PATH_PARSE_FLAG_INODE_ID_FOR_INPUT :: u16 where "PATH_PARSE_FLAG_INODE_ID_FOR_INPUT = 8"
definition PATH_PARSE_FLAG_TARGET_TO_BE_DELETED :: u16 where "PATH_PARSE_FLAG_TARGET_TO_BE_DELETED = 16"

definition PATH_PARSE_FLAG_ALLOW_OPERATION_UNDER_CREATED_DIRECTORY :: u16 where
  "PATH_PARSE_FLAG_ALLOW_OPERATION_UNDER_CREATED_DIRECTORY = 32"

definition PATH_PARSE_FLAG_ACQUIRE_SHARED_LOCK_IF_TARGET_IS_DIRECTORY :: u16 where
  "PATH_PARSE_FLAG_ACQUIRE_SHARED_LOCK_IF_TARGET_IS_DIRECTORY = 64"

definition has_flag :: "u16 \<Rightarrow> u16 \<Rightarrow> bool" where
  "has_flag flag f \<longleftrightarrow> flag AND f \<noteq> 0"

datatype PPLockMode = PP_NONE | PP_SHARED | PP_EXCLUSIVE | PP_EXCLUSIVE_FOR_CREATE

datatype PathParseRBTreeNode =
  PPNode (pp_inodeId: u64) (lockAcquired: PPLockMode) (pp_children: "(string \<times> PathParseRBTreeNode) list")

record PathParseResult =
  pp_error :: FalconErrorCode
  pp_parentId :: "u64 option"
  pp_fileName :: "string option"
  pp_inodeId_out :: "u64 option"

record ('d, 'q) path_env =
  env_dir :: dir_env
  directory_ops :: "('d, dir_key, u64) pg_ops"
  nextval_oid :: "'q \<Rightarrow> u64 \<times> 'q"

record ('d, 'q) path_state = "'d dir_state" +
  TransactionLevelPathParseRoot :: "PathParseRBTreeNode option"
  sequence_cache :: seq_cache
  sequence_state :: 'q
  LocalServerId :: int

subsection \<open>Names of a path\<close>

fun split_path :: "string \<Rightarrow> string list" where
  "split_path [] = [[]]"
| "split_path (c # cs) =
    (if c = CHR ''/'' then [] # split_path cs
     else case split_path cs of n # ns \<Rightarrow> (c # n) # ns)"

definition path_components :: "string \<Rightarrow> string list" where
  "path_components path = take 1 path # (if length path \<le> 1 then [] else split_path (drop 1 path))"

subsection \<open>Whether a path names a directory\<close>

primrec check_dirs :: "('d, 'q) path_env \<Rightarrow> string list \<Rightarrow> u64 \<Rightarrow> (('d, 'q, 'm) path_state_scheme, u64) proc" where
  "check_dirs env [] parentId = return parentId"
| "check_dirs env (name # names) parentId =
    bindM (SearchDirectoryByDirectoryHashTable (env_dir env) (directory_ops env) (DirKey parentId name) DIR_LOCK_NONE) (\<lambda>inodeId.
    if inodeId = DIR_HASH_TABLE_PATH_NOT_EXIST then return DIR_HASH_TABLE_PATH_NOT_EXIST
    else check_dirs env names inodeId)"

definition CheckWhetherPathExistsInDirectoryTable :: "('d, 'q) path_env \<Rightarrow> string \<Rightarrow>
    (('d, 'q, 'm) path_state_scheme, u64) proc" where
  "CheckWhetherPathExistsInDirectoryTable env path =
    bindM (require (path \<noteq> []) ARGUMENT_ERROR) (\<lambda>_.
    bindM (require (hd path = CHR ''/'') ARGUMENT_ERROR) (\<lambda>_.
    let names = path_components path in
    check_dirs env (if 1 < length names \<and> last names = [] then butlast names else names) 0))"

subsection \<open>The tree of the transaction\<close>

definition PathParseTreeInit :: PathParseRBTreeNode where
  "PathParseTreeInit = PPNode 0 PP_NONE []"

definition TransactionLevelPathParseReset :: "('d, 'q, 'm) path_state_scheme \<Rightarrow> ('d, 'q, 'm) path_state_scheme" where
  "TransactionLevelPathParseReset s = s\<lparr>TransactionLevelPathParseRoot := None\<rparr>"

definition rbt_find :: "PathParseRBTreeNode \<Rightarrow> string \<Rightarrow> PathParseRBTreeNode option" where
  "rbt_find node name = map_of (pp_children node) name"

definition rbt_insert :: "string \<Rightarrow> PathParseRBTreeNode \<Rightarrow> PathParseRBTreeNode \<Rightarrow> PathParseRBTreeNode" where
  "rbt_insert name child node =
    PPNode (pp_inodeId node) (lockAcquired node) (AList.update name child (pp_children node))"

definition set_lock :: "PPLockMode \<Rightarrow> PathParseRBTreeNode \<Rightarrow> PathParseRBTreeNode" where
  "set_lock m node = PPNode (pp_inodeId node) m (pp_children node)"

definition search_dir :: "('d, 'q) path_env \<Rightarrow> u64 \<Rightarrow> string \<Rightarrow> DirPathLockMode \<Rightarrow>
    (('d, 'q, 'm) path_state_scheme, u64) proc" where
  "search_dir env parentId name lockMode =
    SearchDirectoryByDirectoryHashTable (env_dir env) (directory_ops env) (DirKey parentId name) lockMode"

definition next_inode_id :: "('d, 'q) path_env \<Rightarrow> (('d, 'q, 'm) path_state_scheme, u64) proc" where
  "next_inode_id env s =
    (let (v, c, q) = GetNextSequenceNum (nextval_oid env) (sequence_cache s) (sequence_state s) in
     return (GenerateInodeIdBySeqAndNodeId v (word_of_int (LocalServerId s)))
       (s\<lparr>sequence_cache := c, sequence_state := q\<rparr>))"

definition failed :: "FalconErrorCode \<Rightarrow> PathParseResult" where
  "failed e = \<lparr>pp_error = e, pp_parentId = None, pp_fileName = None, pp_inodeId_out = None\<rparr>"

text \<open>
  The loop over the directories of the path.  A directory that the tree does not have is searched
  under a shared lock and entered; the children found below it are kept also when the walk ends
  in an error.  At the last directory \<open>target\<close> decides about the last name.
\<close>

primrec path_walk :: "('d, 'q) path_env \<Rightarrow>
    (PathParseRBTreeNode \<Rightarrow> (('d, 'q, 'm) path_state_scheme, PathParseResult \<times> PathParseRBTreeNode) proc) \<Rightarrow>
    string list \<Rightarrow> PathParseRBTreeNode \<Rightarrow> (('d, 'q, 'm) path_state_scheme, PathParseResult \<times> PathParseRBTreeNode) proc" where
  "path_walk env target [] currentNode = target currentNode"
| "path_walk env target (name # names) currentNode =
    (let descend = (\<lambda>node. bindM (path_walk env target names node) (\<lambda>(res, node').
                      return (res, rbt_insert name node' currentNode))) in
     case rbt_find currentNode name of
       Some node \<Rightarrow>
        if lockAcquired node = PP_EXCLUSIVE then return (failed PATH_LOCK_CONFLICT, currentNode)
        else if lockAcquired node = PP_NONE then
          bindM (search_dir env (pp_inodeId node) name DIR_LOCK_SHARED) (\<lambda>_. descend (set_lock PP_SHARED node))
        else descend node
     | None \<Rightarrow>
        bindM (search_dir env (pp_inodeId currentNode) name DIR_LOCK_SHARED) (\<lambda>currentDirectoryId.
        if currentDirectoryId = - 1 then return (failed PATH_IS_INVALID, currentNode)
        else descend (PPNode currentDirectoryId PP_SHARED [])))"

subsection \<open>The last name of the path\<close>

text \<open>The result when the walk has reached the parent of the target.\<close>

definition reached :: "PathParseRBTreeNode \<Rightarrow> string \<Rightarrow> FalconErrorCode \<Rightarrow> u64 option \<Rightarrow> PathParseResult" where
  "reached currentNode name e inodeId =
    \<lparr>pp_error = e, pp_parentId = Some (pp_inodeId currentNode), pp_fileName = Some name, pp_inodeId_out = inodeId\<rparr>"

definition target_created :: "('d, 'q) path_env \<Rightarrow> u16 \<Rightarrow> u64 option \<Rightarrow> string \<Rightarrow> PathParseRBTreeNode \<Rightarrow>
    (('d, 'q, 'm) path_state_scheme, PathParseResult \<times> PathParseRBTreeNode) proc" where
  "target_created env flag inodeId name currentNode =
    bindM (require (inodeId \<noteq> None) PROGRAM_ERROR) (\<lambda>_.
    if has_flag flag PATH_PARSE_FLAG_TARGET_IS_DIRECTORY then
      if rbt_find currentNode name \<noteq> None then return (reached currentNode name PATH_EXISTS inodeId, currentNode)
      else
        bindM (search_dir env (pp_inodeId currentNode) name DIR_LOCK_EXCLUSIVE) (\<lambda>targetInodeId.
        bindM (if has_flag flag PATH_PARSE_FLAG_INODE_ID_FOR_INPUT then return (the inodeId)
               else if targetInodeId \<noteq> DIR_HASH_TABLE_PATH_NOT_EXIST then return targetInodeId
               else next_inode_id env) (\<lambda>newId.
        return (reached currentNode name
            (if targetInodeId \<noteq> DIR_HASH_TABLE_PATH_NOT_EXIST then PATH_EXISTS else SUCCESS) (Some newId),
          rbt_insert name (PPNode newId
            (if has_flag flag PATH_PARSE_FLAG_ALLOW_OPERATION_UNDER_CREATED_DIRECTORY
             then PP_EXCLUSIVE_FOR_CREATE else PP_EXCLUSIVE) []) currentNode)))
    else
      bindM (if has_flag flag PATH_PARSE_FLAG_INODE_ID_FOR_INPUT then return (the inodeId)
             else next_inode_id env) (\<lambda>newId.
      return (reached currentNode name SUCCESS (Some newId), currentNode)))"

definition target_deleted :: "('d, 'q) path_env \<Rightarrow> u64 option \<Rightarrow> string \<Rightarrow> PathParseRBTreeNode \<Rightarrow>
    (('d, 'q, 'm) path_state_scheme, PathParseResult \<times> PathParseRBTreeNode) proc" where
  "target_deleted env inodeId name currentNode =
    bindM (require (inodeId \<noteq> None) PROGRAM_ERROR) (\<lambda>_.
    case rbt_find currentNode name of
      Some node \<Rightarrow>
        if lockAcquired node \<noteq> PP_NONE then return (reached currentNode name PATH_LOCK_CONFLICT inodeId, currentNode)
        else
          bindM (search_dir env (pp_inodeId currentNode) name DIR_LOCK_EXCLUSIVE) (\<lambda>found.
          if found = DIR_HASH_TABLE_PATH_NOT_EXIST then return (reached currentNode name PATH_NOT_EXISTS (Some found), currentNode)
          else return (reached currentNode name SUCCESS (Some found),
            rbt_insert name (set_lock PP_EXCLUSIVE node) currentNode))
    | None \<Rightarrow>
        bindM (search_dir env (pp_inodeId currentNode) name DIR_LOCK_EXCLUSIVE) (\<lambda>found.
        if found = DIR_HASH_TABLE_PATH_NOT_EXIST then return (reached currentNode name PATH_NOT_EXISTS (Some found), currentNode)
        else return (reached currentNode name SUCCESS (Some found),
          rbt_insert name (PPNode found PP_EXCLUSIVE []) currentNode)))"

definition release_last_lock :: "(('d, 'q, 'm) path_state_scheme, unit) proc" where
  "release_last_lock =
    bindM (gets DirectoryHashTableLastAcquiredLock) (\<lambda>l.
    case l of None \<Rightarrow> raise PROGRAM_ERROR | Some k \<Rightarrow> on_rwlocks (of_falcon (RWLockRelease k)))"

definition target_shared :: "('d, 'q) path_env \<Rightarrow> u16 \<Rightarrow> u64 option \<Rightarrow> string \<Rightarrow> PathParseRBTreeNode \<Rightarrow>
    (('d, 'q, 'm) path_state_scheme, PathParseResult \<times> PathParseRBTreeNode) proc" where
  "target_shared env flag inodeId name currentNode =
    (let done = (\<lambda>node. return (reached currentNode name SUCCESS (map_option (\<lambda>_. pp_inodeId node) inodeId),
                   rbt_insert name node currentNode)) in
     case rbt_find currentNode name of
       Some node \<Rightarrow>
        if lockAcquired node = PP_EXCLUSIVE then return (reached currentNode name PATH_LOCK_CONFLICT inodeId, currentNode)
        else if pp_inodeId node \<noteq> DIR_HASH_TABLE_PATH_NOT_EXIST \<and> lockAcquired node = PP_NONE then
          bindM (search_dir env (pp_inodeId node) name DIR_LOCK_SHARED) (\<lambda>_. done (set_lock PP_SHARED node))
        else done node
     | None \<Rightarrow>
        bindM (search_dir env (pp_inodeId currentNode) name DIR_LOCK_SHARED) (\<lambda>found.
        if found = DIR_HASH_TABLE_PATH_NOT_EXIST \<and> has_flag flag PATH_PARSE_FLAG_TARGET_IS_DIRECTORY
        then return (reached currentNode name PATH_NOT_EXISTS inodeId, currentNode)
        else if found = DIR_HASH_TABLE_PATH_NOT_EXIST
        then bindM release_last_lock (\<lambda>_. done (PPNode found PP_NONE []))
        else done (PPNode found PP_SHARED [])))"

definition path_target :: "('d, 'q) path_env \<Rightarrow> u16 \<Rightarrow> u64 option \<Rightarrow> string \<Rightarrow> PathParseRBTreeNode \<Rightarrow>
    (('d, 'q, 'm) path_state_scheme, PathParseResult \<times> PathParseRBTreeNode) proc" where
  "path_target env flag inodeId name currentNode =
    (if has_flag flag PATH_PARSE_FLAG_TARGET_TO_BE_CREATED then target_created env flag inodeId name currentNode
     else if has_flag flag PATH_PARSE_FLAG_TARGET_TO_BE_DELETED \<and> has_flag flag PATH_PARSE_FLAG_TARGET_IS_DIRECTORY
     then target_deleted env inodeId name currentNode
     else if has_flag flag PATH_PARSE_FLAG_ACQUIRE_SHARED_LOCK_IF_TARGET_IS_DIRECTORY
     then target_shared env flag inodeId name currentNode
     else return (reached currentNode name SUCCESS inodeId, currentNode))"

definition PathParseTreeInsert :: "('d, 'q) path_env \<Rightarrow> string \<Rightarrow> u16 \<Rightarrow> u64 option \<Rightarrow>
    (('d, 'q, 'm) path_state_scheme, PathParseResult) proc" where
  "PathParseTreeInsert env path flag inodeId =
    (if path = ''/'' \<and> has_flag flag PATH_PARSE_FLAG_NOT_ROOT then return (failed PATH_IS_ROOT)
     else
       bindM (gets (\<lambda>s. case TransactionLevelPathParseRoot s of None \<Rightarrow> PathParseTreeInit | Some root \<Rightarrow> root)) (\<lambda>root.
       let names = path_components path in
       bindM (path_walk env (path_target env flag inodeId (last names)) (butlast names) root) (\<lambda>(res, root').
       bindM (modify (\<lambda>s. s\<lparr>TransactionLevelPathParseRoot := Some root'\<rparr>)) (\<lambda>_.
       return res))))"

subsection \<open>What a walk finds\<close>

text \<open>
  The reference: follow the names through the committed table, and the keys of the directories
  passed on the way.
\<close>

fun resolve :: "(dir_key \<Rightarrow> u64) \<Rightarrow> u64 \<Rightarrow> string list \<Rightarrow> u64 option" where
  "resolve base parentId [] = Some parentId"
| "resolve base parentId (name # names) =
    (let inodeId = base (DirKey parentId name) in
     if inodeId = DIR_HASH_TABLE_PATH_NOT_EXIST then None else resolve base inodeId names)"

fun path_keys :: "(dir_key \<Rightarrow> u64) \<Rightarrow> u64 \<Rightarrow> string list \<Rightarrow> dir_key list" where
  "path_keys base parentId [] = []"
| "path_keys base parentId (name # names) =
    DirKey parentId name # path_keys base (base (DirKey parentId name)) names"

text \<open>
  A tree left by walks of file operations: every node has the number of its directory in the
  table and is locked in shared mode.
\<close>

inductive tree_ok :: "(dir_key \<Rightarrow> u64) \<Rightarrow> dir_key set \<Rightarrow> PathParseRBTreeNode \<Rightarrow> bool" for base H where
  node: "(\<And>name child. (name, child) \<in> set children \<Longrightarrow>
      pp_inodeId child = base (DirKey inodeId name) \<and> pp_inodeId child \<noteq> DIR_HASH_TABLE_PATH_NOT_EXIST \<and>
      lockAcquired child = PP_SHARED \<and> DirKey inodeId name \<in> H \<and> tree_ok base H child) \<Longrightarrow>
    tree_ok base H (PPNode inodeId m children)"

lemma tree_ok_leaf [simp]: "tree_ok base H (PPNode inodeId m [])"
  by (rule tree_ok.node) simp

lemma tree_ok_mono: "tree_ok base H node \<Longrightarrow> H \<subseteq> H' \<Longrightarrow> tree_ok base H' node"
proof (induction rule: tree_ok.induct)
  case (node children inodeId m)
  then show ?case by (intro tree_ok.node) blast
qed

inductive_cases tree_ok_nodeE: "tree_ok base H (PPNode inodeId m children)"

lemma tree_ok_child:
  assumes "tree_ok base H node" and "(name, child) \<in> set (pp_children node)"
  shows "pp_inodeId child = base (DirKey (pp_inodeId node) name) \<and> pp_inodeId child \<noteq> DIR_HASH_TABLE_PATH_NOT_EXIST \<and>
    lockAcquired child = PP_SHARED \<and> DirKey (pp_inodeId node) name \<in> H \<and> tree_ok base H child"
proof (cases node)
  case (PPNode inodeId m children)
  with assms show ?thesis by (auto elim!: tree_ok_nodeE)
qed

lemma tree_ok_find:
  assumes "tree_ok base H node" and "rbt_find node name = Some child"
  shows "pp_inodeId child = base (DirKey (pp_inodeId node) name)" "pp_inodeId child \<noteq> DIR_HASH_TABLE_PATH_NOT_EXIST"
    "lockAcquired child = PP_SHARED" "DirKey (pp_inodeId node) name \<in> H" "tree_ok base H child"
proof -
  have "(name, child) \<in> set (pp_children node)" using assms(2) by (auto simp: rbt_find_def dest: map_of_SomeD)
  note c = tree_ok_child [OF assms(1) this]
  then show "pp_inodeId child \<noteq> DIR_HASH_TABLE_PATH_NOT_EXIST" by blast
  from c show "pp_inodeId child = base (DirKey (pp_inodeId node) name)"
    "lockAcquired child = PP_SHARED" "DirKey (pp_inodeId node) name \<in> H" "tree_ok base H child"
    by simp_all
qed

lemma AList_update_member: "(n, c) \<in> set (AList.update name child xs) \<Longrightarrow> (n, c) = (name, child) \<or> (n, c) \<in> set xs"
  by (induction xs) (auto split: if_splits)

lemma tree_ok_insert:
  assumes "tree_ok base H node" and "tree_ok base H child" and "pp_inodeId child = base (DirKey (pp_inodeId node) name)"
    and "pp_inodeId child \<noteq> DIR_HASH_TABLE_PATH_NOT_EXIST" and "lockAcquired child = PP_SHARED"
    and "DirKey (pp_inodeId node) name \<in> H"
  shows "tree_ok base H (rbt_insert name child node)"
  unfolding rbt_insert_def
proof (rule tree_ok.node)
  fix n c assume "(n, c) \<in> set (AList.update name child (pp_children node))"
  then have "(n, c) = (name, child) \<or> (n, c) \<in> set (pp_children node)" by (rule AList_update_member)
  then show "pp_inodeId c = base (DirKey (pp_inodeId node) n) \<and> pp_inodeId c \<noteq> DIR_HASH_TABLE_PATH_NOT_EXIST \<and>
      lockAcquired c = PP_SHARED \<and> DirKey (pp_inodeId node) n \<in> H \<and> tree_ok base H c"
    using assms tree_ok_child [OF assms(1), of n c] by auto
qed

definition held_keys :: "('d, 'm) dir_state_scheme \<Rightarrow> dir_key set" where
  "held_keys s = {k. holds (rwlocks s) k}"

text \<open>What holds between the path lookups of a transaction that changes no directory.\<close>

definition walk_ok :: "nat \<Rightarrow> ('d, 'q) path_env \<Rightarrow> (dir_key \<Rightarrow> u64) \<Rightarrow> ('d, 'm) dir_state_scheme \<Rightarrow> bool" where
  "walk_ok N env base s \<longleftrightarrow> hash_ok N base s \<and> tx_ok (directory_ops env) base s \<and> updated (DirPathHashToCommit s) = {}"

lemma search_dir_ok:
  assumes "walk_ok N env base s" and "search_dir env parentId name lockMode s = Some (r, t)"
  shows "walk_ok N env base t" and "held_keys s \<subseteq> held_keys t" and "dir_state.more t = dir_state.more s"
    and "directory_db t = directory_db s"
    and "r = Inr inodeId \<Longrightarrow> inodeId = base (DirKey parentId name)"
    and "r = Inr inodeId \<Longrightarrow> lockMode \<noteq> DIR_LOCK_NONE \<Longrightarrow> DirKey parentId name \<in> held_keys t"
proof -
  from assms have h: "hash_ok N base s" and x: "tx_ok (directory_ops env) base s"
    and u: "DirKey parentId name \<notin> updated (DirPathHashToCommit s)"
    and run: "SearchDirectoryByDirectoryHashTable (env_dir env) (directory_ops env) (DirKey parentId name) lockMode s = Some (r, t)"
    by (auto simp: walk_ok_def search_dir_def)
  note ok = Search_ok [OF h x u run]
  show "walk_ok N env base t" using ok(1-3) assms(1) by (simp add: walk_ok_def same_tx_def)
  show "held_keys s \<subseteq> held_keys t" and "dir_state.more t = dir_state.more s" and "directory_db t = directory_db s"
    using ok(3) by (auto simp: held_keys_def same_tx_def)
  show "r = Inr inodeId \<Longrightarrow> inodeId = base (DirKey parentId name)" by (rule ok(4))
  assume "r = Inr inodeId" and "lockMode \<noteq> DIR_LOCK_NONE"
  with ok(5) show "DirKey parentId name \<in> held_keys t"
    by (cases lockMode) (auto simp: held_keys_def holds_def lock_handle_def)
qed

text \<open>
  The walk: it reaches the directory the reference finds, or reports that the path is invalid,
  and it holds a lock on every directory it has passed.
\<close>

lemma path_walk_ok:
  assumes "walk_ok N env base s" and "tree_ok base (held_keys s) cur"
    and "path_walk env target names cur s = Some (Inr (res, cur'), t)"
    and target: "\<And>cur s res cur' t. walk_ok N env base s \<Longrightarrow> tree_ok base (held_keys s) cur \<Longrightarrow>
      target cur s = Some (Inr (res, cur'), t) \<Longrightarrow> walk_ok N env base t \<and> tree_ok base (held_keys t) cur' \<and>
      pp_inodeId cur' = pp_inodeId cur \<and> lockAcquired cur' = lockAcquired cur \<and> held_keys s \<subseteq> held_keys t \<and>
      P (pp_inodeId cur) res"
  shows "walk_ok N env base t \<and> tree_ok base (held_keys t) cur' \<and> pp_inodeId cur' = pp_inodeId cur \<and>
    lockAcquired cur' = lockAcquired cur \<and> held_keys s \<subseteq> held_keys t \<and>
    (case resolve base (pp_inodeId cur) names of
       None \<Rightarrow> res = failed PATH_IS_INVALID
     | Some parentId \<Rightarrow> P parentId res \<and> set (path_keys base (pp_inodeId cur) names) \<subseteq> held_keys t)"
  using assms(1-3)
proof (induction names arbitrary: s cur res cur' t)
  case Nil
  with target [of s cur res cur' t] show ?case by simp
next
  case (Cons name names)
  let ?key = "DirKey (pp_inodeId cur) name"
  have descend: ?case if u: "walk_ok N env base u" "tree_ok base (held_keys u) node" "held_keys s \<subseteq> held_keys u"
      "pp_inodeId node = base ?key" "pp_inodeId node \<noteq> DIR_HASH_TABLE_PATH_NOT_EXIST" "lockAcquired node = PP_SHARED"
      "?key \<in> held_keys u"
    and run: "path_walk env target names node u = Some (Inr (res, node'), t)" "cur' = rbt_insert name node' cur" for u node node'
  proof -
    note ih = Cons.IH [OF u(1,2) run(1)]
    from ih have "held_keys s \<subseteq> held_keys t" using u(3) by blast
    with ih u have "tree_ok base (held_keys t) (rbt_insert name node' cur)"
      by (intro tree_ok_insert tree_ok_mono [OF Cons.prems(2)]) auto
    with ih u run(2) \<open>held_keys s \<subseteq> held_keys t\<close> show ?thesis
      by (auto simp: rbt_insert_def Let_def split: option.splits)
  qed
  show ?case
  proof (cases "rbt_find cur name")
    case (Some node)
    note node = tree_ok_find [OF Cons.prems(2) Some]
    from Cons.prems(3) Some node(3) obtain node' where
      "path_walk env target names node s = Some (Inr (res, node'), t)" "cur' = rbt_insert name node' cur"
      by (auto elim!: bindM_Inr_E simp: return_def split: if_splits)
    then show ?thesis using node Cons.prems(1) by (intro descend [of s node]) simp_all
  next
    case None
    let ?rest = "\<lambda>inodeId. if inodeId = - 1 then return (failed PATH_IS_INVALID, cur)
        else bindM (path_walk env target names (PPNode inodeId PP_SHARED [])) (\<lambda>(res, node'). return (res, rbt_insert name node' cur))"
    from Cons.prems(3) None have "bindM (search_dir env (pp_inodeId cur) name DIR_LOCK_SHARED) ?rest s = Some (Inr (res, cur'), t)"
      by simp
    then obtain inodeId u where run: "search_dir env (pp_inodeId cur) name DIR_LOCK_SHARED s = Some (Inr inodeId, u)"
      and rest: "?rest inodeId u = Some (Inr (res, cur'), t)" by (rule bindM_Inr_E)
    note sd = search_dir_ok [OF Cons.prems(1) run]
    have id: "inodeId = base ?key" and key: "?key \<in> held_keys u" using sd(5,6) by auto
    show ?thesis
    proof (cases "inodeId = - 1")
      case True
      with rest have "res = failed PATH_IS_INVALID" and "cur' = cur" and "t = u" by (auto simp: return_def)
      with True id sd(1,2) Cons.prems(2) show ?thesis
        by (auto simp: DIR_HASH_TABLE_PATH_NOT_EXIST_def intro: tree_ok_mono)
    next
      case False
      with rest obtain node' where "path_walk env target names (PPNode inodeId PP_SHARED []) u = Some (Inr (res, node'), t)"
        and "cur' = rbt_insert name node' cur" by (auto elim!: bindM_Inr_E simp: return_def)
      with False id key sd(1,2) show ?thesis
        by (intro descend [of u "PPNode inodeId PP_SHARED []"]) (simp_all add: DIR_HASH_TABLE_PATH_NOT_EXIST_def)
    qed
  qed
qed

subsection \<open>Paths of files\<close>

text \<open>The tree of the transaction, or the empty one.\<close>

definition tree_of :: "('d, 'q, 'm) path_state_scheme \<Rightarrow> PathParseRBTreeNode" where
  "tree_of s = (case TransactionLevelPathParseRoot s of None \<Rightarrow> PathParseTreeInit | Some root \<Rightarrow> root)"

definition parse_ok :: "nat \<Rightarrow> ('d, 'q) path_env \<Rightarrow> (dir_key \<Rightarrow> u64) \<Rightarrow> ('d, 'q, 'm) path_state_scheme \<Rightarrow> bool" where
  "parse_ok N env base s \<longleftrightarrow> walk_ok N env base s \<and> tree_ok base (held_keys s) (tree_of s) \<and> pp_inodeId (tree_of s) = 0"

lemma walk_ok_more:
  "walk_ok N env base (s\<lparr>TransactionLevelPathParseRoot := x\<rparr>) = walk_ok N env base s"
  "walk_ok N env base (s\<lparr>sequence_cache := c, sequence_state := q\<rparr>) = walk_ok N env base s"
  "held_keys (s\<lparr>TransactionLevelPathParseRoot := x\<rparr>) = held_keys s"
  "held_keys (s\<lparr>sequence_cache := c, sequence_state := q\<rparr>) = held_keys s"
  by (simp_all add: walk_ok_def hash_ok_def tx_ok_def held_keys_def)

text \<open>Flags for which the last name is not searched: the file operations.\<close>

definition file_flag :: "u16 \<Rightarrow> bool" where
  "file_flag flag \<longleftrightarrow> \<not> has_flag flag PATH_PARSE_FLAG_TARGET_IS_DIRECTORY \<and>
     \<not> has_flag flag PATH_PARSE_FLAG_ACQUIRE_SHARED_LOCK_IF_TARGET_IS_DIRECTORY"

lemma file_target_ok:
  assumes "file_flag flag" and "walk_ok N env base s" and "tree_ok base (held_keys s) cur"
    and "path_target env flag inodeId name cur s = Some (Inr (res, cur'), t)"
  shows "walk_ok N env base t \<and> tree_ok base (held_keys t) cur' \<and> pp_inodeId cur' = pp_inodeId cur \<and>
    lockAcquired cur' = lockAcquired cur \<and> held_keys s \<subseteq> held_keys t \<and>
    pp_error res = SUCCESS \<and> pp_parentId res = Some (pp_inodeId cur) \<and> pp_fileName res = Some name"
  using assms
  by (auto simp: file_flag_def path_target_def target_created_def reached_def return_def raise_def next_inode_id_def
      require_def Let_def walk_ok_more elim!: bindM_Inr_E split: if_splits prod.splits)

lemma PathParseTreeInsert_file_ok:
  assumes "parse_ok N env base s" and "file_flag flag"
    and "\<not> (path = ''/'' \<and> has_flag flag PATH_PARSE_FLAG_NOT_ROOT)"
    and "PathParseTreeInsert env path flag inodeId s = Some (Inr res, t)"
  shows "parse_ok N env base t \<and> held_keys s \<subseteq> held_keys t \<and>
    (case resolve base 0 (butlast (path_components path)) of
       None \<Rightarrow> res = failed PATH_IS_INVALID
     | Some parentId \<Rightarrow> pp_error res = SUCCESS \<and> pp_parentId res = Some parentId \<and>
        pp_fileName res = Some (last (path_components path)) \<and>
        set (path_keys base 0 (butlast (path_components path))) \<subseteq> held_keys t)"
proof -
  let ?names = "path_components path"
  from assms(3,4) obtain root' u where run:
      "path_walk env (path_target env flag inodeId (last ?names)) (butlast ?names) (tree_of s) s = Some (Inr (res, root'), u)"
    and t: "t = u\<lparr>TransactionLevelPathParseRoot := Some root'\<rparr>"
    by (auto simp: PathParseTreeInsert_def tree_of_def Let_def return_def modify_def elim!: bindM_Inr_E split: if_splits)
  have ok: "walk_ok N env base s" "tree_ok base (held_keys s) (tree_of s)" "pp_inodeId (tree_of s) = 0"
    using assms(1) by (simp_all add: parse_ok_def)
  have "walk_ok N env base u \<and> tree_ok base (held_keys u) root' \<and> pp_inodeId root' = pp_inodeId (tree_of s) \<and>
    lockAcquired root' = lockAcquired (tree_of s) \<and> held_keys s \<subseteq> held_keys u \<and>
    (case resolve base (pp_inodeId (tree_of s)) (butlast ?names) of
       None \<Rightarrow> res = failed PATH_IS_INVALID
     | Some parentId \<Rightarrow> (pp_error res = SUCCESS \<and> pp_parentId res = Some parentId \<and> pp_fileName res = Some (last ?names)) \<and>
        set (path_keys base (pp_inodeId (tree_of s)) (butlast ?names)) \<subseteq> held_keys u)"
    using ok(1,2) run
    by (rule path_walk_ok [where P = "\<lambda>parentId res. pp_error res = SUCCESS \<and> pp_parentId res = Some parentId \<and>
        pp_fileName res = Some (last ?names)"]) (rule file_target_ok [OF assms(2)])
  with ok(3) show ?thesis
    by (auto simp: t parse_ok_def walk_ok_more tree_of_def split: option.splits)
qed


text \<open>A state of the next transaction.\<close>

lemma parse_ok_start:
  assumes "hash_ok N base s" and "tx_ok (directory_ops env) base s" and "DirPathHashToCommit s = []"
  shows "parse_ok N env base (TransactionLevelPathParseReset s)"
  using assms by (simp add: parse_ok_def walk_ok_def TransactionLevelPathParseReset_def tree_of_def PathParseTreeInit_def
      hash_ok_def tx_ok_def)

definition path_sample_env :: "((dir_key, u64) pg_alist, u64) path_env" where
  "path_sample_env = \<lparr>env_dir = dir_sample_env, directory_ops = pg_alist_ops, nextval_oid = (\<lambda>q. (q, q + 32))\<rparr>"

definition path_sample :: "((dir_key, u64) pg_alist, u64) path_state" where
  "path_sample = TransactionLevelPathParseReset (dir_state.extend (dir_state.truncate dir_sample)
     \<lparr>TransactionLevelPathParseRoot = None, sequence_cache = seq_cache_init, sequence_state = 64, LocalServerId = 1\<rparr>)"

lemma path_sample_ok:
  "parse_ok 0 path_sample_env (\<lambda>k. id_of (pg_vis pg_alist_ops dir_sample_db k)) path_sample"
proof -
  note ok = dir_run_ok [OF dir_sample_run pg_alist_ok]
  let ?s = "dir_state.extend (dir_state.truncate dir_sample)
     \<lparr>TransactionLevelPathParseRoot = None, sequence_cache = seq_cache_init, sequence_state = 64 :: u64, LocalServerId = 1\<rparr>"
  have "hash_ok 0 (\<lambda>k. id_of (pg_vis pg_alist_ops dir_sample_db k)) ?s"
    and "tx_ok (directory_ops path_sample_env) (\<lambda>k. id_of (pg_vis pg_alist_ops dir_sample_db k)) ?s"
    using ok by (simp_all add: hash_ok_def tx_ok_def dir_state.defs path_sample_env_def)
  then show ?thesis
    unfolding path_sample_def
    by (rule parse_ok_start) (simp add: dir_state.defs dir_sample_def DirPathHashToCommitClear_def)
qed


end
