(* ===== verification/Inode_Table.thy ===== *)
theory Inode_Table
  imports Path_Parse Shard_Table
begin

text \<open>
  The state of a metadata server as its handlers see it, and the inode tables
  (\<open>falcon/include/metadb/inode_table.h\<close>, \<open>falcon/metadb/meta_handle_helper.c\<close>, and
  \<open>InsertIntoInodeTable\<close> of \<open>falcon/metadb/meta_handle.c\<close>).

  A server has one inode table per shard, with a unique index on parent and name.  The name
  of a shard's table is its number (\<open>GetInodeShardName\<close>).  The columns of a row that are not part
  of the key are the record \<open>inode_row\<close>; timestamps and sizes are \<open>int\<close>, because nothing is computed
  with them.
\<close>

subsection \<open>Data\<close>

text \<open>The index orders the first column as the signed \<open>bigint\<close> it is.\<close>

datatype inode_key = InodeKey (key_parentid_partid: u64) (key_name: string)

instantiation inode_key :: linorder
begin

definition less_eq_inode_key :: "inode_key \<Rightarrow> inode_key \<Rightarrow> bool" where
  "less_eq_inode_key a b \<longleftrightarrow> sint (key_parentid_partid a) < sint (key_parentid_partid b) \<or>
     sint (key_parentid_partid a) = sint (key_parentid_partid b) \<and> key_name a \<le> key_name b"

definition less_inode_key :: "inode_key \<Rightarrow> inode_key \<Rightarrow> bool" where
  "less_inode_key a b \<longleftrightarrow> sint (key_parentid_partid a) < sint (key_parentid_partid b) \<or>
     sint (key_parentid_partid a) = sint (key_parentid_partid b) \<and> key_name a < key_name b"

instance
  by standard (auto simp: less_eq_inode_key_def less_inode_key_def intro!: inode_key.expand signed_word_eqI)

end

record inode_row =
  st_ino :: u64
  st_dev :: u64
  st_mode :: u32
  st_nlink :: u64
  st_uid :: u32
  st_gid :: u32
  st_rdev :: u64
  st_size :: int
  st_blksize :: int
  st_blocks :: int
  st_atim :: int
  st_mtim :: int
  st_ctim :: int
  etag :: string
  update_version :: u64
  primary_nodeid :: int
  backup_nodeid :: int

record ('d, 'q, 'i, 'h) meta_env =
  env_path :: "('d, 'q) path_env"
  inode_ops :: "('i, inode_key, inode_row) pg_ops"
  shard_ops :: "('h, int, int) pg_ops"
  hash_bytes_uint32 :: "u32 \<Rightarrow> u32"
  timestamp :: "nat \<Rightarrow> int"

record ('d, 'q, 'i, 'h) meta_state = "('d, 'q) path_state" +
  inode_db :: "int \<Rightarrow> 'i"
  shard_map :: "'h shard_state"
  clock_reads :: nat

definition S_ISREG :: "u32 \<Rightarrow> bool" where
  "S_ISREG m \<longleftrightarrow> m AND 0xF000 = 0x8000"

definition S_ISDIR :: "u32 \<Rightarrow> bool" where
  "S_ISDIR m \<longleftrightarrow> m AND 0xF000 = 0x4000"

datatype ModeCheckType = MODE_CHECK_NONE | MODE_CHECK_MUST_BE_FILE | MODE_CHECK_MUST_BE_DIRECTORY

subsection \<open>What the handlers use of PostgreSQL\<close>

definition CommandCounterIncrement :: "('d, 'q, 'i, 'h) meta_env \<Rightarrow> (('d, 'q, 'i, 'h, 'm) meta_state_scheme, unit) proc" where
  "CommandCounterIncrement env = modify (\<lambda>s. s\<lparr>
     directory_db := pg_cci (directory_ops (env_path env)) (directory_db s),
     inode_db := (\<lambda>shard. pg_cci (inode_ops env) (inode_db s shard))\<rparr>)"

definition GetCurrentTimestamp :: "('d, 'q, 'i, 'h) meta_env \<Rightarrow> (('d, 'q, 'i, 'h, 'm) meta_state_scheme, int) proc" where
  "GetCurrentTimestamp env s = return (timestamp env (clock_reads s)) (s\<lparr>clock_reads := Suc (clock_reads s)\<rparr>)"

text \<open>The shard and the server of an inode-table key.\<close>

definition shard_of_key :: "('d, 'q, 'i, 'h) meta_env \<Rightarrow> u64 \<Rightarrow> (('d, 'q, 'i, 'h, 'm) meta_state_scheme, int \<times> int) proc" where
  "shard_of_key env parentId_partId =
    zoom shard_map (\<lambda>h s. s\<lparr>shard_map := h\<rparr>)
      (of_falcon_value (SearchShardInfoByShardValue (hash_bytes_uint32 env) (shard_ops env) parentId_partId))"

definition table_change :: "int \<Rightarrow> 'i option \<Rightarrow> (('d, 'q, 'i, 'h, 'm) meta_state_scheme, unit) proc" where
  "table_change shard changed s = (case changed of
     None \<Rightarrow> raise UNKNOWN s
   | Some db \<Rightarrow> return () (s\<lparr>inode_db := (inode_db s)(shard := db)\<rparr>))"

definition inode_lookup :: "('d, 'q, 'i, 'h) meta_env \<Rightarrow> int \<Rightarrow> inode_key \<Rightarrow>
    ('d, 'q, 'i, 'h, 'm) meta_state_scheme \<Rightarrow> inode_row option" where
  "inode_lookup env shard k s = pg_vis (inode_ops env) (inode_db s shard) k"

subsection \<open>Insertion\<close>

definition InsertIntoInodeTable :: "('d, 'q, 'i, 'h) meta_env \<Rightarrow> int \<Rightarrow> inode_key \<Rightarrow> inode_row \<Rightarrow>
    (('d, 'q, 'i, 'h, 'm) meta_state_scheme, unit) proc" where
  "InsertIntoInodeTable env shard k row =
    bindM (gets (\<lambda>s. pg_insert (inode_ops env) (inode_db s shard) k row)) (\<lambda>changed.
    bindM (table_change shard changed) (\<lambda>_.
    CommandCounterIncrement env))"

subsection \<open>Search and update\<close>

text \<open>
  The arguments of \<open>SearchAndUpdateInodeTableInfo\<close> that say what to change; a null pointer is
  \<open>None\<close>, and a pointer that is written through only is a \<open>bool\<close>.
\<close>

record InodeUpdate =
  doUpdate :: bool
  newSize :: "int option"
  wantVersion :: bool
  wantNlink :: bool
  nlinkChangeNum :: int
  wantMode :: bool
  newExecMode :: "u32 option"
  modeCheckType :: ModeCheckType
  newUid :: "u32 option"
  newGid :: "u32 option"
  newEtag :: "string option"
  newAtime :: "int option"
  newMtime :: "int option"
  newPrimaryNodeId :: "int option"

definition inode_read :: InodeUpdate where
  "inode_read = \<lparr>doUpdate = False, newSize = None, wantVersion = False, wantNlink = False, nlinkChangeNum = 0,
     wantMode = False, newExecMode = None, modeCheckType = MODE_CHECK_NONE, newUid = None, newGid = None,
     newEtag = None, newAtime = None, newMtime = None, newPrimaryNodeId = None\<rparr>"

text \<open>The columns that are set before and after the type of the file is checked.\<close>

definition early_columns :: "InodeUpdate \<Rightarrow> inode_row \<Rightarrow> inode_row" where
  "early_columns u row =
    (let row = (case newSize u of None \<Rightarrow> row | Some v \<Rightarrow> row\<lparr>st_size := v\<rparr>);
         row = (if wantVersion u then row\<lparr>update_version := update_version row + 1\<rparr> else row) in
     if wantNlink u \<and> st_nlink row + of_int (nlinkChangeNum u) \<noteq> 0
     then row\<lparr>st_nlink := st_nlink row + of_int (nlinkChangeNum u)\<rparr> else row)"

definition late_columns :: "InodeUpdate \<Rightarrow> inode_row \<Rightarrow> inode_row" where
  "late_columns u row =
    (let row = (case newUid u of None \<Rightarrow> row | Some v \<Rightarrow> row\<lparr>st_uid := v\<rparr>);
         row = (case newGid u of None \<Rightarrow> row | Some v \<Rightarrow> row\<lparr>st_gid := v\<rparr>);
         row = (case newExecMode u of None \<Rightarrow> row | Some v \<Rightarrow> row\<lparr>st_mode := st_mode row AND NOT 0x1FF OR v\<rparr>);
         row = (case newEtag u of None \<Rightarrow> row | Some v \<Rightarrow> row\<lparr>etag := v\<rparr>);
         row = (case newAtime u of None \<Rightarrow> row | Some v \<Rightarrow> row\<lparr>st_atim := v\<rparr>);
         row = (case newMtime u of None \<Rightarrow> row | Some v \<Rightarrow> row\<lparr>st_mtim := v\<rparr>) in
     case newPrimaryNodeId u of None \<Rightarrow> row | Some v \<Rightarrow> row\<lparr>primary_nodeid := v\<rparr>)"

definition need_update :: "InodeUpdate \<Rightarrow> inode_row \<Rightarrow> bool" where
  "need_update u row \<longleftrightarrow> newSize u \<noteq> None \<or> wantVersion u \<or>
     wantNlink u \<and> st_nlink row + of_int (nlinkChangeNum u) \<noteq> 0 \<or> newUid u \<noteq> None \<or> newGid u \<noteq> None \<or>
     newExecMode u \<noteq> None \<or> newEtag u \<noteq> None \<or> newAtime u \<noteq> None \<or> newMtime u \<noteq> None \<or> newPrimaryNodeId u \<noteq> None"

definition wrong_type :: "InodeUpdate \<Rightarrow> inode_row \<Rightarrow> bool" where
  "wrong_type u row \<longleftrightarrow> wantMode u \<and>
     (modeCheckType u = MODE_CHECK_MUST_BE_FILE \<and> \<not> S_ISREG (st_mode row) \<or>
      modeCheckType u = MODE_CHECK_MUST_BE_DIRECTORY \<and> \<not> S_ISDIR (st_mode row))"

text \<open>
  The result is \<open>None\<close> when there is no row, and otherwise the row that was read, from which the
  callers take what they have asked for, and whether the call has passed the check of the type:
  the server ids are written after it.  The removal at a link count of zero comes before the
  check.
\<close>

definition SearchAndUpdateInodeTableInfo :: "('d, 'q, 'i, 'h) meta_env \<Rightarrow> int \<Rightarrow> inode_key \<Rightarrow> InodeUpdate \<Rightarrow>
    (('d, 'q, 'i, 'h, 'm) meta_state_scheme, (inode_row \<times> bool) option) proc" where
  "SearchAndUpdateInodeTableInfo env shard k u =
    bindM (gets (inode_lookup env shard k)) (\<lambda>found.
    case found of
      None \<Rightarrow> return None
    | Some row \<Rightarrow>
        bindM (if wantNlink u \<and> doUpdate u \<and> st_nlink row + of_int (nlinkChangeNum u) = 0
               then bindM (gets (\<lambda>s. pg_delete (inode_ops env) (inode_db s shard) k)) (\<lambda>changed.
                    bindM (table_change shard changed) (\<lambda>_. CommandCounterIncrement env))
               else return ()) (\<lambda>_.
        if wrong_type u row then return (Some (row, False))
        else
          bindM (if doUpdate u \<and> need_update u row
                 then bindM (gets (\<lambda>s. pg_update (inode_ops env) (inode_db s shard) k (late_columns u (early_columns u row)))) (\<lambda>changed.
                      bindM (table_change shard changed) (\<lambda>_. CommandCounterIncrement env))
                 else return ()) (\<lambda>_.
          return (Some (row, True)))))"

subsection \<open>Between commands\<close>

definition inodes_clean :: "('d, 'q, 'i, 'h) meta_env \<Rightarrow> ('d, 'q, 'i, 'h, 'm) meta_state_scheme \<Rightarrow> bool" where
  "inodes_clean env s \<longleftrightarrow> (\<forall>shard. pg_clean (inode_ops env) (inode_db s shard))"

text \<open>A change of one inode table followed by an increment of the command counter.\<close>

definition changed_table :: "('d, 'q, 'i, 'h) meta_env \<Rightarrow> int \<Rightarrow> 'i \<Rightarrow>
    ('d, 'q, 'i, 'h, 'm) meta_state_scheme \<Rightarrow> ('d, 'q, 'i, 'h, 'm) meta_state_scheme" where
  "changed_table env shard db s = s\<lparr>
     directory_db := pg_cci (directory_ops (env_path env)) (directory_db s),
     inode_db := (\<lambda>j. pg_cci (inode_ops env) (if j = shard then db else inode_db s j))\<rparr>"

lemma table_change_then_increment:
  "bindM (table_change shard changed) (\<lambda>_. CommandCounterIncrement env) s =
    (case changed of None \<Rightarrow> Some (Inl UNKNOWN, s) | Some db \<Rightarrow> Some (Inr (), changed_table env shard db s))"
  by (cases changed) (simp_all add: table_change_def bindM_def raise_def return_def CommandCounterIncrement_def
      modify_def changed_table_def fun_upd_def if_distrib cong: if_cong)

lemma inodes_clean_increment:
  assumes "pg_ok (inode_ops env)"
  shows "inodes_clean env (s\<lparr>directory_db := d, inode_db := (\<lambda>j. pg_cci (inode_ops env) (f j))\<rparr>)"
  using pg_cci_laws(3) [OF assms] by (simp add: inodes_clean_def)

lemma changed_table_clean: "pg_ok (inode_ops env) \<Longrightarrow> inodes_clean env (changed_table env shard db s)"
  by (simp add: changed_table_def inodes_clean_increment)

lemma changed_table_lookup:
  assumes "pg_ok (inode_ops env)" and "inodes_clean env s"
  shows "inode_lookup env j k (changed_table env shard db s) =
    (if j = shard then pg_cur (inode_ops env) db k else inode_lookup env j k s)"
proof -
  have "pg_cur (inode_ops env) (inode_db s j) = pg_vis (inode_ops env) (inode_db s j)"
    using assms by (intro pg_clean_cur) (auto simp: inodes_clean_def)
  then show ?thesis using assms(1) by (simp add: inode_lookup_def changed_table_def pg_cci_laws)
qed

lemma InsertIntoInodeTable_result:
  assumes "pg_ok (inode_ops env)" and "inodes_clean env s"
  shows "InsertIntoInodeTable env shard k row s =
    (case pg_insert (inode_ops env) (inode_db s shard) k row of
       None \<Rightarrow> Some (Inl UNKNOWN, s)
     | Some db \<Rightarrow> Some (Inr (), changed_table env shard db s))"
  by (simp add: InsertIntoInodeTable_def table_change_then_increment)

lemma insert_fails_iff:
  assumes "pg_ok (inode_ops env)" and "inodes_clean env s"
  shows "pg_insert (inode_ops env) (inode_db s shard) k row = None \<longleftrightarrow> inode_lookup env shard k s \<noteq> None"
proof -
  have "pg_cur (inode_ops env) (inode_db s shard) = pg_vis (inode_ops env) (inode_db s shard)"
    using assms by (intro pg_clean_cur) (auto simp: inodes_clean_def)
  then show ?thesis using assms(1) by (simp add: pg_insert_None inode_lookup_def)
qed

lemma insert_lookup:
  assumes "pg_ok (inode_ops env)" and "inodes_clean env s" and "pg_insert (inode_ops env) (inode_db s shard) k row = Some db"
  shows "inode_lookup env j k' (changed_table env shard db s) =
    (if j = shard \<and> k' = k then Some row else inode_lookup env j k' s)"
proof -
  have "pg_cur (inode_ops env) (inode_db s shard) = pg_vis (inode_ops env) (inode_db s shard)"
    using assms(1,2) by (intro pg_clean_cur) (auto simp: inodes_clean_def)
  with pg_insert_Some(1) [OF assms(1,3)] changed_table_lookup [OF assms(1,2), of j k' shard db]
  show ?thesis by (simp add: inode_lookup_def)
qed

subsection \<open>A sample server\<close>

definition meta_sample_env :: "((dir_key, u64) pg_alist, u64, (inode_key, inode_row) pg_alist, (int, int) pg_alist) meta_env" where
  "meta_sample_env = \<lparr>env_path = path_sample_env, inode_ops = pg_alist_ops, shard_ops = pg_alist_ops,
     hash_bytes_uint32 = (\<lambda>_. 0), timestamp = int\<rparr>"

definition meta_sample :: "((dir_key, u64) pg_alist, u64, (inode_key, inode_row) pg_alist, (int, int) pg_alist) meta_state" where
  "meta_sample = path_state.extend (path_state.truncate path_sample)
     \<lparr>inode_db = (\<lambda>_. ([], [], [])), shard_map = shard_sample, clock_reads = 0\<rparr>"

lemma meta_sample_clean [simp]:
  "pg_ok (inode_ops meta_sample_env)" "inodes_clean meta_sample_env meta_sample"
  by (simp add: meta_sample_env_def pg_alist_ok)
    (simp add: meta_sample_env_def inodes_clean_def pg_clean_def meta_sample_def path_state.defs pg_alist_ops_def)

end
