(* ===== verification/Meta_Handle.thy ===== *)
theory Meta_Handle
  imports Inode_Table
begin

text \<open>
  The handlers of the metadata operations that run on one server
  (\<open>falcon/metadb/meta_handle.c\<close>), in the order of the source.

  A batch is a list of requests; a pointer to a request is its index in the list.  The handlers
  of batches first check all paths, then walk through the requests in the order of the paths,
  resolve them and collect them by shard, and then work shard by shard.  \<open>pg_qsort\<close> and the order
  in which a hash table is scanned are parameters (\<open>batch_env\<close>).  Latency counters and log output
  are left out.
\<close>

subsection \<open>Requests\<close>

record MetaProcessInfo =
  path :: string
  info_parentId :: u64
  readDirMaxReadCount :: int
  info_inodeId :: u64
  info_parentId_partId :: u64
  info_name :: "string option"
  info_st_dev :: u64
  info_st_mode :: u32
  info_st_nlink :: u64
  info_st_uid :: u32
  info_st_gid :: u32
  info_st_rdev :: u64
  info_st_size :: int
  info_st_blksize :: int
  info_st_blocks :: int
  info_st_atim :: int
  info_st_mtim :: int
  info_st_ctim :: int
  info_etag :: string
  node_id :: int
  readDirLastShardIndex :: int
  readDirLastFileName :: "string option"
  readDirResultList :: "(string \<times> u32) list"
  dstPath :: string
  dstParentId :: u64
  dstParentIdPartId :: u64
  dstName :: "string option"
  targetIsDirectory :: bool
  srcLockOrder :: int
  errorCode :: FalconErrorCode

type_synonym groups = "(int \<times> nat list) list"

record batch_env =
  pg_qsort :: "string list \<Rightarrow> nat list"
  hash_seq :: "groups \<Rightarrow> groups"

definition BATCH_OPERATION_GROUP_SIZE :: nat where
  "BATCH_OPERATION_GROUP_SIZE = 8"

definition S_IFDIR :: u32 where "S_IFDIR = 0x4000"
definition S_IFREG :: u32 where "S_IFREG = 0x8000"

text \<open>\<open>pg_qsort\<close> with \<open>pg_qsort_meta_process_info_by_path_cmp\<close>.\<close>

definition sort_by_path :: "batch_env \<Rightarrow> MetaProcessInfo list \<Rightarrow> nat list" where
  "sort_by_path benv infos = pg_qsort benv (map path infos)"

subsection \<open>The common parts of the handlers of batches\<close>

definition verify_info :: "u32 \<Rightarrow> MetaProcessInfo \<Rightarrow> MetaProcessInfo" where
  "verify_info requirement info = info\<lparr>errorCode := fst (VerifyPathValidity (Some (path info)) requirement)\<rparr>"

definition store_path :: "PathParseResult \<Rightarrow> MetaProcessInfo \<Rightarrow> MetaProcessInfo" where
  "store_path res info = info\<lparr>
     info_parentId := (case pp_parentId res of None \<Rightarrow> info_parentId info | Some p \<Rightarrow> p),
     info_name := (case pp_fileName res of None \<Rightarrow> info_name info | Some n \<Rightarrow> Some n),
     info_inodeId := (case pp_inodeId_out res of None \<Rightarrow> info_inodeId info | Some i \<Rightarrow> i),
     errorCode := pp_error res\<rparr>"

definition set_partition :: "MetaProcessInfo \<Rightarrow> MetaProcessInfo" where
  "set_partition info = info\<lparr>info_parentId_partId :=
     CombineParentIdWithPartId (info_parentId info) (HashPartId (the (info_name info)))\<rparr>"

definition add_to_group :: "int \<Rightarrow> nat \<Rightarrow> groups \<Rightarrow> groups" where
  "add_to_group shardId i gs = (case map_of gs shardId of
     None \<Rightarrow> gs @ [(shardId, [i])]
   | Some is \<Rightarrow> AList.update shardId (is @ [i]) gs)"

definition GetLocalServerId :: "(('d, 'q, 'i, 'h, 'm) meta_state_scheme, int) proc" where
  "GetLocalServerId = gets LocalServerId"

text \<open>One turn of the second loop: resolve the path, set the key, find the shard, collect.\<close>

definition route_info :: "('d, 'q, 'i, 'h) meta_env \<Rightarrow> u16 \<Rightarrow> bool \<Rightarrow>
    (MetaProcessInfo \<Rightarrow> (('d, 'q, 'i, 'h, 'm) meta_state_scheme, MetaProcessInfo) proc) \<Rightarrow> nat \<Rightarrow>
    MetaProcessInfo list \<times> groups \<Rightarrow> (('d, 'q, 'i, 'h, 'm) meta_state_scheme, MetaProcessInfo list \<times> groups) proc" where
  "route_info env flag withInode prepare i acc =
    (let (infos, gs) = acc; info = infos ! i in
     if errorCode info \<noteq> SUCCESS then return (infos, gs)
     else
       bindM (PathParseTreeInsert (env_path env) (path info) flag (if withInode then Some (info_inodeId info) else None)) (\<lambda>res.
       let info = store_path res info in
       if pp_error res \<noteq> SUCCESS then return (infos[i := info], gs)
       else
         bindM (prepare (set_partition info)) (\<lambda>info.
         bindM (shard_of_key env (info_parentId_partId info)) (\<lambda>(shardId, workerId).
         bindM GetLocalServerId (\<lambda>local.
         if workerId \<noteq> local then return (infos[i := info\<lparr>errorCode := WRONG_WORKER\<rparr>], gs)
         else return (infos[i := info], add_to_group shardId i gs))))))"

definition shard_table_size :: "('d, 'q, 'i, 'h) meta_env \<Rightarrow> (('d, 'q, 'i, 'h, 'm) meta_state_scheme, nat) proc" where
  "shard_table_size env =
    zoom shard_map (\<lambda>h s. s\<lparr>shard_map := h\<rparr>) (of_falcon_value (GetShardTableSize (shard_ops env)))"

definition shard_table_data :: "('d, 'q, 'i, 'h) meta_env \<Rightarrow> (('d, 'q, 'i, 'h, 'm) meta_state_scheme, (int \<times> int) list) proc" where
  "shard_table_data env =
    zoom shard_map (\<lambda>h s. s\<lparr>shard_map := h\<rparr>) (of_falcon_value (GetShardTableData (shard_ops env)))"

definition route_batch :: "('d, 'q, 'i, 'h) meta_env \<Rightarrow> batch_env \<Rightarrow> u32 \<Rightarrow> u16 \<Rightarrow> bool \<Rightarrow>
    (MetaProcessInfo \<Rightarrow> (('d, 'q, 'i, 'h, 'm) meta_state_scheme, MetaProcessInfo) proc) \<Rightarrow>
    MetaProcessInfo list \<Rightarrow> (('d, 'q, 'i, 'h, 'm) meta_state_scheme, MetaProcessInfo list \<times> groups) proc" where
  "route_batch env benv requirement flag withInode prepare infos =
    (let infos = map (verify_info requirement) infos in
     bindM (shard_table_size env) (\<lambda>_.
     foldM (route_info env flag withInode prepare) (sort_by_path benv infos) (infos, [])))"

text \<open>The third loop: shard by shard, one step per request.\<close>

definition for_each_grouped :: "batch_env \<Rightarrow>
    (int \<Rightarrow> MetaProcessInfo \<Rightarrow> (('d, 'q, 'i, 'h, 'm) meta_state_scheme, MetaProcessInfo) proc) \<Rightarrow>
    MetaProcessInfo list \<times> groups \<Rightarrow> (('d, 'q, 'i, 'h, 'm) meta_state_scheme, MetaProcessInfo list) proc" where
  "for_each_grouped benv step acc =
    foldM (\<lambda>(shardId, is) infos. foldM (\<lambda>i infos.
        bindM (step shardId (infos ! i)) (\<lambda>info. return (infos[i := info]))) is infos)
      (hash_seq benv (snd acc)) (fst acc)"

definition inode_key_of :: "MetaProcessInfo \<Rightarrow> inode_key" where
  "inode_key_of info = InodeKey (info_parentId_partId info) (the (info_name info))"

subsection \<open>mkdir on the servers\<close>

definition FalconMkdirSubMkdirHandle :: "('d, 'q, 'i, 'h) meta_env \<Rightarrow> MetaProcessInfo list \<Rightarrow>
    (('d, 'q, 'i, 'h, 'm) meta_state_scheme, MetaProcessInfo list) proc" where
  "FalconMkdirSubMkdirHandle env infos =
    mapM (\<lambda>info.
      bindM (require (\<not> (info_parentId info = - 1 \<or> info_name info = None)) ARGUMENT_ERROR) (\<lambda>_.
      bindM (InsertDirectoryByDirectoryHashTable (env_dir (env_path env)) (directory_ops (env_path env))
        (DirKey (info_parentId info) (the (info_name info))) (info_inodeId info) DIR_LOCK_EXCLUSIVE) (\<lambda>_.
      return (info\<lparr>errorCode := SUCCESS\<rparr>)))) infos"

definition directory_row :: "MetaProcessInfo \<Rightarrow> inode_row" where
  "directory_row info = \<lparr>st_ino = info_inodeId info, st_dev = 0, st_mode = info_st_mode info, st_nlink = 2,
     st_uid = 0, st_gid = 0, st_rdev = 0, st_size = info_st_size info, st_blksize = 0, st_blocks = 0,
     st_atim = info_st_mtim info, st_mtim = info_st_mtim info, st_ctim = info_st_mtim info,
     etag = '''', update_version = 0, primary_nodeid = - 1, backup_nodeid = - 1\<rparr>"

definition FalconMkdirSubCreateHandle :: "('d, 'q, 'i, 'h) meta_env \<Rightarrow> batch_env \<Rightarrow> MetaProcessInfo list \<Rightarrow>
    (('d, 'q, 'i, 'h, 'm) meta_state_scheme, MetaProcessInfo list) proc" where
  "FalconMkdirSubCreateHandle env benv infos =
    bindM (shard_table_size env) (\<lambda>_.
    bindM (foldM (\<lambda>i gs.
        let info = infos ! i in
        bindM (require (\<not> (info_inodeId info = - 1 \<or> info_parentId_partId info = - 1 \<or> info_name info = None)) ARGUMENT_ERROR) (\<lambda>_.
        bindM (shard_of_key env (info_parentId_partId info)) (\<lambda>(shardId, workerId).
        bindM GetLocalServerId (\<lambda>local.
        bindM (require (workerId = local) ARGUMENT_ERROR) (\<lambda>_.
        return (add_to_group shardId i gs)))))) [0..<length infos] []) (\<lambda>gs.
    for_each_grouped benv (\<lambda>shardId info.
        bindM (InsertIntoInodeTable env shardId (inode_key_of info) (directory_row info)) (\<lambda>_.
        return (info\<lparr>info_etag := '''', errorCode := SUCCESS\<rparr>))) (infos, gs)))"

subsection \<open>create\<close>

definition create_prepare :: "('d, 'q, 'i, 'h) meta_env \<Rightarrow> MetaProcessInfo \<Rightarrow>
    (('d, 'q, 'i, 'h, 'm) meta_state_scheme, MetaProcessInfo) proc" where
  "create_prepare env info =
    bindM (GetCurrentTimestamp env) (\<lambda>now.
    bindM GetLocalServerId (\<lambda>local.
    return (info\<lparr>info_st_mode := S_IFREG OR 0x1A4, info_st_mtim := now, info_st_atim := now, info_st_ctim := now,
      info_st_size := 0, node_id := local, info_st_nlink := 1, info_etag := '''', info_st_dev := 0, info_st_uid := 0,
      info_st_gid := 0, info_st_rdev := 0, info_st_blksize := 0, info_st_blocks := 0\<rparr>)))"

definition file_row :: "MetaProcessInfo \<Rightarrow> inode_row" where
  "file_row info = \<lparr>st_ino = info_inodeId info, st_dev = 0, st_mode = info_st_mode info, st_nlink = 1,
     st_uid = 0, st_gid = 0, st_rdev = 0, st_size = info_st_size info, st_blksize = 0, st_blocks = 0,
     st_atim = info_st_atim info, st_mtim = info_st_mtim info, st_ctim = info_st_ctim info,
     etag = info_etag info, update_version = 0, primary_nodeid = node_id info, backup_nodeid = - 1\<rparr>"

text \<open>The attributes that \<open>create\<close> and \<open>open\<close> read from the row of an existing file.\<close>

definition open_search :: InodeUpdate where
  "open_search = inode_read\<lparr>wantNlink := True, wantMode := True\<rparr>"

definition read_attributes :: "(inode_row \<times> bool) option \<Rightarrow> MetaProcessInfo \<Rightarrow> MetaProcessInfo" where
  "read_attributes found info = (case found of
     None \<Rightarrow> info
   | Some (row, complete) \<Rightarrow>
      let info = info\<lparr>info_inodeId := st_ino row, info_st_size := st_size row, info_st_nlink := st_nlink row,
        info_st_mode := st_mode row\<rparr> in
      if complete then info\<lparr>node_id := primary_nodeid row\<rparr> else info)"

text \<open>
  The block that runs inside a subtransaction: requests are taken from the list until eight rows
  are inserted.  It gives the rest of the list, or the request at which an error was raised.
\<close>

fun create_group :: "('d, 'q, 'i, 'h) meta_env \<Rightarrow> int \<Rightarrow> nat \<Rightarrow> nat list \<Rightarrow> MetaProcessInfo list \<Rightarrow>
    ('d, 'q, 'i, 'h, 'm) meta_state_scheme \<Rightarrow>
    ((nat + nat list) \<times> MetaProcessInfo list \<times> ('d, 'q, 'i, 'h, 'm) meta_state_scheme) option" where
  "create_group env shardId n [] infos s = Some (Inr [], infos, s)"
| "create_group env shardId n (i # is) infos s =
    (if n = 0 then Some (Inr (i # is), infos, s)
     else
       (let info = infos ! i in
        if errorCode info \<noteq> SUCCESS then
          if errorCode info = FILE_EXISTS then
            (case SearchAndUpdateInodeTableInfo env shardId (inode_key_of info) open_search s of
               None \<Rightarrow> None
             | Some (Inl e, s') \<Rightarrow> Some (Inl i, infos, s')
             | Some (Inr found, s') \<Rightarrow> create_group env shardId n is (infos[i := read_attributes found info]) s')
          else create_group env shardId n is infos s
        else
          (case InsertIntoInodeTable env shardId (inode_key_of info) (file_row info) s of
             None \<Rightarrow> None
           | Some (Inl e, s') \<Rightarrow> Some (Inl i, infos, s')
           | Some (Inr _, s') \<Rightarrow> create_group env shardId (n - 1) is infos s')))"

text \<open>What a rolled back subtransaction undoes: the changes of the tables.\<close>

definition rollback_to :: "('d, 'q, 'i, 'h, 'm) meta_state_scheme \<Rightarrow> ('d, 'q, 'i, 'h, 'm) meta_state_scheme \<Rightarrow>
    ('d, 'q, 'i, 'h, 'm) meta_state_scheme" where
  "rollback_to s t = t\<lparr>directory_db := directory_db s, inode_db := inode_db s\<rparr>"

partial_function (option) create_shard :: "('d, 'q, 'i, 'h) meta_env \<Rightarrow> bool \<Rightarrow> int \<Rightarrow> nat list \<Rightarrow> MetaProcessInfo list \<Rightarrow>
    ('d, 'q, 'i, 'h, 'm) meta_state_scheme \<Rightarrow>
    (MetaProcessInfo list falcon \<times> ('d, 'q, 'i, 'h, 'm) meta_state_scheme) option" where
  "create_shard env updateExisted shardId toHandle infos s =
    (if toHandle = [] then Some (Inr infos, s)
     else Option.bind (create_group env shardId BATCH_OPERATION_GROUP_SIZE toHandle infos s) (\<lambda>(r, infos, t).
       case r of
         Inr rest \<Rightarrow> create_shard env updateExisted shardId rest infos t
       | Inl i \<Rightarrow>
          let t = rollback_to s t; info = infos ! i in
          if updateExisted then
            (case SearchAndUpdateInodeTableInfo env shardId (inode_key_of info)
                (inode_read\<lparr>doUpdate := True, newSize := Some (info_st_size info), newEtag := Some (info_etag info),
                   newMtime := Some (info_st_mtim info)\<rparr>) t of
               None \<Rightarrow> None
             | Some (Inl e, t) \<Rightarrow> Some (Inl e, t)
             | Some (Inr _, t) \<Rightarrow> create_shard env updateExisted shardId toHandle infos t)
          else create_shard env updateExisted shardId toHandle (infos[i := info\<lparr>errorCode := FILE_EXISTS\<rparr>]) t))"

definition FalconCreateHandle :: "('d, 'q, 'i, 'h) meta_env \<Rightarrow> batch_env \<Rightarrow> MetaProcessInfo list \<Rightarrow> bool \<Rightarrow>
    (('d, 'q, 'i, 'h, 'm) meta_state_scheme, MetaProcessInfo list) proc" where
  "FalconCreateHandle env benv infos updateExisted =
    bindM (route_batch env benv VERIFY_PATH_VALIDITY_REQUIREMENT_MUST_BE_FILE
      (PATH_PARSE_FLAG_NOT_ROOT OR PATH_PARSE_FLAG_TARGET_TO_BE_CREATED) True (create_prepare env) infos) (\<lambda>(infos, gs).
    foldM (\<lambda>(shardId, is) infos.
        create_shard env updateExisted shardId (filter (\<lambda>i. errorCode (infos ! i) = SUCCESS) is) infos)
      (hash_seq benv gs) infos)"

subsection \<open>stat, open, close and unlink\<close>

definition read_row :: "inode_row \<Rightarrow> MetaProcessInfo \<Rightarrow> MetaProcessInfo" where
  "read_row row info = info\<lparr>info_inodeId := st_ino row, info_st_dev := st_dev row, info_st_mode := st_mode row,
     info_st_nlink := st_nlink row, info_st_uid := st_uid row, info_st_gid := st_gid row, info_st_rdev := st_rdev row,
     info_st_size := st_size row, info_st_blksize := st_blksize row, info_st_blocks := st_blocks row,
     info_st_atim := st_atim row, info_st_mtim := st_mtim row, info_st_ctim := st_ctim row,
     info_etag := etag row, node_id := primary_nodeid row\<rparr>"

definition stat_step :: "('d, 'q, 'i, 'h) meta_env \<Rightarrow> int \<Rightarrow> MetaProcessInfo \<Rightarrow>
    (('d, 'q, 'i, 'h, 'm) meta_state_scheme, MetaProcessInfo) proc" where
  "stat_step env shardId info =
    bindM (gets (inode_lookup env shardId (inode_key_of info))) (\<lambda>found.
    return (case found of
      None \<Rightarrow> info\<lparr>errorCode := FILE_NOT_EXISTS\<rparr>
    | Some row \<Rightarrow> read_row row info))"

definition FalconStatHandle :: "('d, 'q, 'i, 'h) meta_env \<Rightarrow> batch_env \<Rightarrow> MetaProcessInfo list \<Rightarrow>
    (('d, 'q, 'i, 'h, 'm) meta_state_scheme, MetaProcessInfo list) proc" where
  "FalconStatHandle env benv infos =
    bindM (route_batch env benv 0 0 False return infos) (for_each_grouped benv (stat_step env))"

definition open_step :: "('d, 'q, 'i, 'h) meta_env \<Rightarrow> int \<Rightarrow> MetaProcessInfo \<Rightarrow>
    (('d, 'q, 'i, 'h, 'm) meta_state_scheme, MetaProcessInfo) proc" where
  "open_step env shardId info =
    (if errorCode info \<noteq> SUCCESS then return info
     else bindM (SearchAndUpdateInodeTableInfo env shardId (inode_key_of info) open_search) (\<lambda>found.
       return ((read_attributes found info)\<lparr>info_st_dev := 0, info_st_uid := 0, info_st_gid := 0, info_st_rdev := 0,
         info_st_blksize := 0, info_st_blocks := 0, info_st_atim := 0, info_st_mtim := 0, info_st_ctim := 0,
         info_etag := '''', errorCode := (if found = None then FILE_NOT_EXISTS else SUCCESS)\<rparr>)))"

definition FalconOpenHandle :: "('d, 'q, 'i, 'h) meta_env \<Rightarrow> batch_env \<Rightarrow> MetaProcessInfo list \<Rightarrow>
    (('d, 'q, 'i, 'h, 'm) meta_state_scheme, MetaProcessInfo list) proc" where
  "FalconOpenHandle env benv infos =
    bindM (route_batch env benv 0 0 False return infos) (for_each_grouped benv (open_step env))"

definition close_update :: "MetaProcessInfo \<Rightarrow> int \<Rightarrow> InodeUpdate" where
  "close_update info mtime = inode_read\<lparr>doUpdate := True, newSize := Some (info_st_size info),
     newMtime := Some mtime, newPrimaryNodeId := Some (node_id info)\<rparr>"

definition close_step :: "('d, 'q, 'i, 'h) meta_env \<Rightarrow> int \<Rightarrow> MetaProcessInfo \<Rightarrow>
    (('d, 'q, 'i, 'h, 'm) meta_state_scheme, MetaProcessInfo) proc" where
  "close_step env shardId info =
    (if errorCode info \<noteq> SUCCESS then return info
     else bindM (GetCurrentTimestamp env) (\<lambda>mtime.
       bindM (SearchAndUpdateInodeTableInfo env shardId (inode_key_of info) (close_update info mtime)) (\<lambda>found.
       return (info\<lparr>errorCode := (if found = None then FILE_NOT_EXISTS else SUCCESS)\<rparr>))))"

definition FalconCloseHandle :: "('d, 'q, 'i, 'h) meta_env \<Rightarrow> batch_env \<Rightarrow> MetaProcessInfo list \<Rightarrow>
    (('d, 'q, 'i, 'h, 'm) meta_state_scheme, MetaProcessInfo list) proc" where
  "FalconCloseHandle env benv infos =
    bindM (route_batch env benv 0 0 False return infos) (for_each_grouped benv (close_step env))"

definition unlink_update :: InodeUpdate where
  "unlink_update = inode_read\<lparr>doUpdate := True, wantNlink := True, nlinkChangeNum := - 1, wantMode := True,
     modeCheckType := MODE_CHECK_MUST_BE_FILE\<rparr>"

definition unlink_step :: "('d, 'q, 'i, 'h) meta_env \<Rightarrow> int \<Rightarrow> MetaProcessInfo \<Rightarrow>
    (('d, 'q, 'i, 'h, 'm) meta_state_scheme, MetaProcessInfo) proc" where
  "unlink_step env shardId info =
    (if errorCode info \<noteq> SUCCESS then return info
     else bindM (SearchAndUpdateInodeTableInfo env shardId (inode_key_of info) unlink_update) (\<lambda>found.
       case found of
         None \<Rightarrow> return (info\<lparr>errorCode := FILE_NOT_EXISTS\<rparr>)
       | Some (row, complete) \<Rightarrow>
           let info = info\<lparr>info_inodeId := st_ino row, info_st_size := st_size row\<rparr>;
               info = (if complete then info\<lparr>node_id := primary_nodeid row\<rparr> else info) in
           return (info\<lparr>errorCode :=
             (if \<not> S_ISREG (st_mode row) then PATH_VERIFY_FAILED
              else if st_nlink row \<noteq> 1 then PROGRAM_ERROR else SUCCESS)\<rparr>)))"

definition FalconUnlinkHandle :: "('d, 'q, 'i, 'h) meta_env \<Rightarrow> batch_env \<Rightarrow> MetaProcessInfo list \<Rightarrow>
    (('d, 'q, 'i, 'h, 'm) meta_state_scheme, MetaProcessInfo list) proc" where
  "FalconUnlinkHandle env benv infos =
    bindM (route_batch env benv VERIFY_PATH_VALIDITY_REQUIREMENT_MUST_BE_FILE 0 False return infos)
      (for_each_grouped benv (unlink_step env))"

subsection \<open>readdir and opendir\<close>

datatype StreamSearchState = SAME_ID_GREATER_NAME | GREATER_ID | NEW_SHARD

text \<open>The rows that the scan keys of a state select; the columns compare as signed numbers.\<close>

definition in_scan :: "StreamSearchState \<Rightarrow> u64 \<Rightarrow> string \<Rightarrow> inode_key \<Rightarrow> bool" where
  "in_scan st directoryId lastFileName k =
    (let lowerId = CombineParentIdWithPartId directoryId 0;
         upperId = CombineParentIdWithPartId directoryId PART_ID_MASK;
         lastId = CombineParentIdWithPartId directoryId (HashPartId lastFileName) in
     case st of
       SAME_ID_GREATER_NAME \<Rightarrow> key_parentid_partid k = lastId \<and> lastFileName < key_name k
     | GREATER_ID \<Rightarrow> sint lastId < sint (key_parentid_partid k) \<and> sint (key_parentid_partid k) \<le> sint upperId
     | NEW_SHARD \<Rightarrow> sint lowerId \<le> sint (key_parentid_partid k) \<and> sint (key_parentid_partid k) \<le> sint upperId)"

definition scan_shard :: "('d, 'q, 'i, 'h) meta_env \<Rightarrow> int \<Rightarrow> (inode_key \<Rightarrow> bool) \<Rightarrow>
    ('d, 'q, 'i, 'h, 'm) meta_state_scheme \<Rightarrow> (inode_key \<times> inode_row) list" where
  "scan_shard env shardId P s = filter (\<lambda>(k, _). P k) (pg_rows (inode_ops env) (inode_db s shardId))"

text \<open>The loop over the rows of one scan: it ends as soon as the page is full.\<close>

fun fetch_rows :: "int \<Rightarrow> (inode_key \<times> inode_row) list \<Rightarrow> (string \<times> u32) list \<Rightarrow> (string \<times> u32) list" where
  "fetch_rows maxReadCount [] resultList = resultList"
| "fetch_rows maxReadCount ((k, row) # rows) resultList =
    (let resultList = resultList @ [(key_name k, st_mode row)] in
     if int (length resultList) \<ge> maxReadCount then resultList
     else fetch_rows maxReadCount rows resultList)"

definition state_rank :: "StreamSearchState \<Rightarrow> nat" where
  "state_rank st = (case st of SAME_ID_GREATER_NAME \<Rightarrow> 2 | GREATER_ID \<Rightarrow> 1 | NEW_SHARD \<Rightarrow> 0)"

definition state_after :: "StreamSearchState \<Rightarrow> StreamSearchState" where
  "state_after st = (case st of SAME_ID_GREATER_NAME \<Rightarrow> GREATER_ID | GREATER_ID \<Rightarrow> NEW_SHARD | NEW_SHARD \<Rightarrow> NEW_SHARD)"

text \<open>The loop over the shards; \<open>shards\<close> is what is left of the shard table from \<open>shardIndex\<close> on.\<close>

function read_shards :: "('d, 'q, 'i, 'h) meta_env \<Rightarrow> u64 \<Rightarrow> string \<Rightarrow> int \<Rightarrow> (int \<times> int) list \<Rightarrow>
    StreamSearchState \<Rightarrow> int \<Rightarrow> (string \<times> u32) list \<Rightarrow> ('d, 'q, 'i, 'h, 'm) meta_state_scheme \<Rightarrow>
    int \<times> (string \<times> u32) list" where
  "read_shards env directoryId lastFileName maxReadCount [] st shardIndex resultList s = (shardIndex, resultList)"
| "read_shards env directoryId lastFileName maxReadCount ((shardId, workerId) # shards) st shardIndex resultList s =
    (if workerId \<noteq> LocalServerId s
     then read_shards env directoryId lastFileName maxReadCount shards st (shardIndex + 1) resultList s
     else
       (let resultList = fetch_rows maxReadCount (scan_shard env shardId (in_scan st directoryId lastFileName) s) resultList in
        if int (length resultList) \<ge> maxReadCount then (shardIndex, resultList)
        else if state_after st = NEW_SHARD
        then read_shards env directoryId lastFileName maxReadCount shards NEW_SHARD (shardIndex + 1) resultList s
        else read_shards env directoryId lastFileName maxReadCount ((shardId, workerId) # shards) (state_after st)
          shardIndex resultList s))"
  by pat_completeness auto
termination
  by (relation "measures [\<lambda>(_, _, _, _, shards, _). length shards, \<lambda>(_, _, _, _, _, st, _). state_rank st]")
    (auto simp: state_rank_def state_after_def split: StreamSearchState.splits)

definition INT32_MAX :: int where "INT32_MAX = 2 ^ 31 - 1"

definition parse_or_raise :: "('d, 'q, 'i, 'h) meta_env \<Rightarrow> string \<Rightarrow> u16 \<Rightarrow> u64 option \<Rightarrow>
    (('d, 'q, 'i, 'h, 'm) meta_state_scheme, PathParseResult) proc" where
  "parse_or_raise env p flag inodeId =
    bindM (PathParseTreeInsert (env_path env) p flag inodeId) (\<lambda>res.
    bindM (require (pp_error res = SUCCESS) (pp_error res)) (\<lambda>_. return res))"

definition directory_flag :: u16 where
  "directory_flag = PATH_PARSE_FLAG_ACQUIRE_SHARED_LOCK_IF_TARGET_IS_DIRECTORY OR PATH_PARSE_FLAG_TARGET_IS_DIRECTORY"

text \<open>
  A page that is full without holding a name cannot be continued: the last cell of an empty list
  is taken, which does not return.
\<close>

definition FalconReadDirHandle :: "('d, 'q, 'i, 'h) meta_env \<Rightarrow> MetaProcessInfo \<Rightarrow>
    (('d, 'q, 'i, 'h, 'm) meta_state_scheme, MetaProcessInfo) proc" where
  "FalconReadDirHandle env info =
    (let maxReadCount = (if readDirMaxReadCount info = - 1 then INT32_MAX else readDirMaxReadCount info);
         firstCall = (readDirLastShardIndex info = - 1);
         start = (if firstCall then 0 else readDirLastShardIndex info) in
     bindM (parse_or_raise env (path info) directory_flag (Some 0)) (\<lambda>res.
     bindM (shard_table_data env) (\<lambda>shards.
     bindM (gets (read_shards env (the (pp_inodeId_out res)) (the (readDirLastFileName info)) maxReadCount
       (drop (nat start) shards) (if firstCall then NEW_SHARD else SAME_ID_GREATER_NAME) start [])) (\<lambda>(shardIndex, resultList).
     if int (length resultList) < maxReadCount
     then return (info\<lparr>readDirLastShardIndex := - 1, readDirLastFileName := None, readDirResultList := resultList,
       errorCode := SUCCESS\<rparr>)
     else if resultList = [] then (\<lambda>s. None)
     else return (info\<lparr>readDirLastShardIndex := shardIndex, readDirLastFileName := Some (fst (last resultList)),
       readDirResultList := resultList, errorCode := SUCCESS\<rparr>)))))"

definition FalconOpenDirHandle :: "('d, 'q, 'i, 'h) meta_env \<Rightarrow> MetaProcessInfo \<Rightarrow>
    (('d, 'q, 'i, 'h, 'm) meta_state_scheme, MetaProcessInfo) proc" where
  "FalconOpenDirHandle env info =
    bindM (parse_or_raise env (path info) directory_flag (Some 0)) (\<lambda>res.
    return (info\<lparr>info_inodeId := the (pp_inodeId_out res), errorCode := SUCCESS\<rparr>))"

subsection \<open>rmdir and rename on the servers\<close>

definition FalconRmdirSubRmdirHandle :: "('d, 'q, 'i, 'h) meta_env \<Rightarrow> MetaProcessInfo \<Rightarrow>
    (('d, 'q, 'i, 'h, 'm) meta_state_scheme, MetaProcessInfo) proc" where
  "FalconRmdirSubRmdirHandle env info =
    (let k = DirKey (info_parentId info) (the (info_name info)) in
     bindM (SearchDirectoryByDirectoryHashTable (env_dir (env_path env)) (directory_ops (env_path env)) k DIR_LOCK_EXCLUSIVE) (\<lambda>directoryId.
     bindM (require (directoryId \<noteq> DIR_HASH_TABLE_PATH_NOT_EXIST) FILE_NOT_EXISTS) (\<lambda>_.
     bindM (DeleteDirectoryByDirectoryHashTable (env_dir (env_path env)) (directory_ops (env_path env)) k DIR_LOCK_NONE) (\<lambda>_.
     bindM (shard_table_data env) (\<lambda>shards.
     bindM (gets (\<lambda>s. list_all (\<lambda>(shardId, workerId).
         workerId \<noteq> LocalServerId s \<or> scan_shard env shardId (in_scan NEW_SHARD directoryId '''') s = []) shards)) (\<lambda>empty.
     bindM (require empty ARGUMENT_ERROR) (\<lambda>_.
     return (info\<lparr>errorCode := SUCCESS\<rparr>))))))))"

definition rmdir_update :: InodeUpdate where
  "rmdir_update = inode_read\<lparr>doUpdate := True, wantNlink := True, nlinkChangeNum := - 2\<rparr>"

definition local_shard :: "('d, 'q, 'i, 'h) meta_env \<Rightarrow> u64 \<Rightarrow> FalconErrorCode \<Rightarrow>
    (('d, 'q, 'i, 'h, 'm) meta_state_scheme, int) proc" where
  "local_shard env parentId_partId e =
    bindM (shard_of_key env parentId_partId) (\<lambda>(shardId, workerId).
    bindM GetLocalServerId (\<lambda>local.
    bindM (require (workerId = local) e) (\<lambda>_. return shardId)))"

definition FalconRmdirSubUnlinkHandle :: "('d, 'q, 'i, 'h) meta_env \<Rightarrow> MetaProcessInfo \<Rightarrow>
    (('d, 'q, 'i, 'h, 'm) meta_state_scheme, MetaProcessInfo) proc" where
  "FalconRmdirSubUnlinkHandle env info =
    bindM (local_shard env (info_parentId_partId info) ARGUMENT_ERROR) (\<lambda>shardId.
    bindM (SearchAndUpdateInodeTableInfo env shardId (inode_key_of info) rmdir_update) (\<lambda>found.
    case found of
      None \<Rightarrow> raise FILE_NOT_EXISTS
    | Some (row, _) \<Rightarrow>
        bindM (require (st_nlink row = 2) PROGRAM_ERROR) (\<lambda>_. return (info\<lparr>errorCode := SUCCESS\<rparr>))))"

definition rename_directory :: "('d, 'q, 'i, 'h) meta_env \<Rightarrow> MetaProcessInfo \<Rightarrow>
    (('d, 'q, 'i, 'h, 'm) meta_state_scheme, unit) proc" where
  "rename_directory env info =
    bindM (require (\<not> (srcLockOrder info < 0 \<or> srcLockOrder info > 1)) ARGUMENT_ERROR) (\<lambda>_.
    foldM (\<lambda>i _.
      bindM (if i = srcLockOrder info
             then DeleteDirectoryByDirectoryHashTable (env_dir (env_path env)) (directory_ops (env_path env))
               (DirKey (info_parentId info) (the (info_name info))) DIR_LOCK_EXCLUSIVE
             else InsertDirectoryByDirectoryHashTable (env_dir (env_path env)) (directory_ops (env_path env))
               (DirKey (dstParentId info) (the (dstName info))) (info_inodeId info) DIR_LOCK_EXCLUSIVE) (\<lambda>_.
      CommandCounterIncrement env)) [0, 1] ())"

text \<open>The attributes that go back to the coordinator when the file moves to another server.\<close>

definition moved_row :: "inode_row \<Rightarrow> MetaProcessInfo \<Rightarrow> MetaProcessInfo" where
  "moved_row row info = info\<lparr>info_inodeId := st_ino row, info_st_dev := st_dev row, info_st_mode := st_mode row,
     info_st_nlink := st_nlink row, info_st_uid := st_uid row, info_st_gid := st_gid row, info_st_rdev := st_rdev row,
     info_st_size := st_size row, info_st_blksize := st_blksize row, info_st_blocks := st_blocks row,
     info_st_atim := st_atim row, info_st_mtim := st_mtim row, info_st_ctim := st_ctim row,
     node_id := primary_nodeid row\<rparr>"

definition FalconRenameSubRenameLocallyHandle :: "('d, 'q, 'i, 'h) meta_env \<Rightarrow> MetaProcessInfo \<Rightarrow>
    (('d, 'q, 'i, 'h, 'm) meta_state_scheme, MetaProcessInfo) proc" where
  "FalconRenameSubRenameLocallyHandle env info =
    bindM (if targetIsDirectory info then rename_directory env info else return ()) (\<lambda>_.
    if info_parentId_partId info = 0 then return (info\<lparr>errorCode := SUCCESS\<rparr>)
    else
      bindM (local_shard env (info_parentId_partId info) WRONG_WORKER) (\<lambda>srcShardId.
      bindM (gets (inode_lookup env srcShardId (inode_key_of info))) (\<lambda>found.
      case found of
        None \<Rightarrow> raise FILE_NOT_EXISTS
      | Some row \<Rightarrow>
          bindM (gets (\<lambda>s. pg_delete (inode_ops env) (inode_db s srcShardId) (inode_key_of info))) (\<lambda>changed.
          bindM (table_change srcShardId changed) (\<lambda>_.
          bindM (CommandCounterIncrement env) (\<lambda>_.
          if dstParentIdPartId info \<noteq> 0 then
            bindM (local_shard env (dstParentIdPartId info) WRONG_WORKER) (\<lambda>dstShardId.
            bindM (InsertIntoInodeTable env dstShardId (InodeKey (dstParentIdPartId info) (the (dstName info))) row) (\<lambda>_.
            return (info\<lparr>errorCode := SUCCESS\<rparr>)))
          else return ((moved_row row info)\<lparr>errorCode := SUCCESS\<rparr>)))))))"

definition renamed_row :: "MetaProcessInfo \<Rightarrow> inode_row" where
  "renamed_row info = \<lparr>st_ino = info_inodeId info, st_dev = info_st_dev info, st_mode = info_st_mode info,
     st_nlink = info_st_nlink info, st_uid = info_st_uid info, st_gid = info_st_gid info, st_rdev = info_st_rdev info,
     st_size = info_st_size info, st_blksize = info_st_blksize info, st_blocks = info_st_blocks info,
     st_atim = info_st_atim info, st_mtim = info_st_mtim info, st_ctim = info_st_ctim info,
     etag = '''', update_version = 0, primary_nodeid = node_id info, backup_nodeid = - 1\<rparr>"

definition FalconRenameSubCreateHandle :: "('d, 'q, 'i, 'h) meta_env \<Rightarrow> MetaProcessInfo \<Rightarrow>
    (('d, 'q, 'i, 'h, 'm) meta_state_scheme, MetaProcessInfo) proc" where
  "FalconRenameSubCreateHandle env info =
    bindM (local_shard env (info_parentId_partId info) WRONG_WORKER) (\<lambda>shardId.
    bindM (InsertIntoInodeTable env shardId (inode_key_of info) (renamed_row info)) (\<lambda>_.
    return (info\<lparr>errorCode := SUCCESS\<rparr>)))"

subsection \<open>utimens, chown and chmod\<close>

definition change_attributes :: "('d, 'q, 'i, 'h) meta_env \<Rightarrow> MetaProcessInfo \<Rightarrow> InodeUpdate \<Rightarrow>
    (('d, 'q, 'i, 'h, 'm) meta_state_scheme, MetaProcessInfo) proc" where
  "change_attributes env info u =
    bindM (parse_or_raise env (path info) PATH_PARSE_FLAG_ACQUIRE_SHARED_LOCK_IF_TARGET_IS_DIRECTORY None) (\<lambda>res.
    let name = the (pp_fileName res);
        parentId_partId = CombineParentIdWithPartId (the (pp_parentId res)) (HashPartId name) in
    bindM (local_shard env parentId_partId WRONG_WORKER) (\<lambda>shardId.
    bindM (SearchAndUpdateInodeTableInfo env shardId (InodeKey parentId_partId name) u) (\<lambda>found.
    bindM (require (found \<noteq> None) FILE_NOT_EXISTS) (\<lambda>_.
    return (info\<lparr>errorCode := SUCCESS\<rparr>)))))"

definition FalconUtimeNsHandle :: "('d, 'q, 'i, 'h) meta_env \<Rightarrow> MetaProcessInfo \<Rightarrow>
    (('d, 'q, 'i, 'h, 'm) meta_state_scheme, MetaProcessInfo) proc" where
  "FalconUtimeNsHandle env info =
    bindM (if info_st_atim info = - 1 \<or> info_st_mtim info = - 1
           then bindM (GetCurrentTimestamp env) (\<lambda>a. bindM (GetCurrentTimestamp env) (\<lambda>m. return (a, m)))
           else return (info_st_atim info, info_st_mtim info)) (\<lambda>(accessTime, modifyTime).
    change_attributes env info
      (inode_read\<lparr>doUpdate := True, newAtime := Some accessTime, newMtime := Some modifyTime\<rparr>))"

definition FalconChownHandle :: "('d, 'q, 'i, 'h) meta_env \<Rightarrow> MetaProcessInfo \<Rightarrow>
    (('d, 'q, 'i, 'h, 'm) meta_state_scheme, MetaProcessInfo) proc" where
  "FalconChownHandle env info = change_attributes env info
    (inode_read\<lparr>doUpdate := True, newUid := Some (info_st_uid info), newGid := Some (info_st_gid info)\<rparr>)"

definition FalconChmodHandle :: "('d, 'q, 'i, 'h) meta_env \<Rightarrow> MetaProcessInfo \<Rightarrow>
    (('d, 'q, 'i, 'h, 'm) meta_state_scheme, MetaProcessInfo) proc" where
  "FalconChmodHandle env info = change_attributes env info
    (inode_read\<lparr>doUpdate := True, newExecMode := Some (info_st_mode info AND 0x1FF)\<rparr>)"

end
