(* ===== verification/Meta_Create.thy ===== *)
theory Meta_Create
  imports Meta_Handle
begin

text \<open>
  The loop of \<open>FalconCreateHandle\<close> over the requests of one shard.  It inserts up to eight rows in
  a subtransaction, and when one insertion fails it rolls all of them back, marks the request and
  starts over.  The reference inserts the requests one by one.
\<close>

subsection \<open>The reference\<close>

definition existing :: "inode_row \<Rightarrow> MetaProcessInfo \<Rightarrow> MetaProcessInfo" where
  "existing row info = read_attributes (Some (row, True)) (info\<lparr>errorCode := FILE_EXISTS\<rparr>)"

fun create_one_by_one :: "nat list \<Rightarrow> MetaProcessInfo list \<Rightarrow> (inode_key \<Rightarrow> inode_row option) \<Rightarrow>
    MetaProcessInfo list \<times> (inode_key \<Rightarrow> inode_row option)" where
  "create_one_by_one [] infos rows = (infos, rows)"
| "create_one_by_one (i # is) infos rows = (case rows (inode_key_of (infos ! i)) of
     None \<Rightarrow> create_one_by_one is infos (rows(inode_key_of (infos ! i) \<mapsto> file_row (infos ! i)))
   | Some row \<Rightarrow> create_one_by_one is (infos[i := existing row (infos ! i)]) rows)"

subsection \<open>Reading and inserting\<close>

lemma existing_simps [simp]:
  "errorCode (existing row info) = FILE_EXISTS"
  "inode_key_of (existing row info) = inode_key_of info"
  "inode_key_of (info\<lparr>errorCode := e\<rparr>) = inode_key_of info"
  by (simp_all add: existing_def read_attributes_def inode_key_of_def Let_def)

lemma read_existing [simp]:
  "read_attributes (Some (row, True)) (existing row info) = existing row info"
  "read_attributes (Some (row, True)) (info\<lparr>errorCode := FILE_EXISTS\<rparr>) = existing row info"
  by (simp_all add: existing_def read_attributes_def Let_def)

lemma open_search_result:
  "SearchAndUpdateInodeTableInfo env shard k open_search s =
    Some (Inr (map_option (\<lambda>row. (row, True)) (inode_lookup env shard k s)), s)"
  by (cases "inode_lookup env shard k s")
    (simp_all add: SearchAndUpdateInodeTableInfo_def open_search_def inode_read_def wrong_type_def return_def)

text \<open>What a sequence of changes of the inode tables leaves of the rest of the state.\<close>

definition tables_only :: "('d, 'q, 'i, 'h) meta_env \<Rightarrow> ('d, 'q, 'i, 'h, 'm) meta_state_scheme \<Rightarrow>
    ('d, 'q, 'i, 'h, 'm) meta_state_scheme \<Rightarrow> bool" where
  "tables_only env s t \<longleftrightarrow> t = s\<lparr>directory_db := directory_db t, inode_db := inode_db t\<rparr> \<and>
     (pg_ok (directory_ops (env_path env)) \<longrightarrow> pg_clean (directory_ops (env_path env)) (directory_db s) \<longrightarrow>
        pg_clean (directory_ops (env_path env)) (directory_db t) \<and>
        pg_vis (directory_ops (env_path env)) (directory_db t) = pg_vis (directory_ops (env_path env)) (directory_db s))"

lemma tables_only_refl [simp]: "tables_only env s s"
  by (simp add: tables_only_def)

lemma tables_only_trans:
  assumes "tables_only env s t" and "tables_only env t u"
  shows "tables_only env s u"
proof -
  have "u = t\<lparr>directory_db := directory_db u, inode_db := inode_db u\<rparr>" using assms(2) by (simp add: tables_only_def)
  moreover have "t = s\<lparr>directory_db := directory_db t, inode_db := inode_db t\<rparr>" using assms(1) by (simp add: tables_only_def)
  ultimately have "u = s\<lparr>directory_db := directory_db t, inode_db := inode_db t,
      directory_db := directory_db u, inode_db := inode_db u\<rparr>" by metis
  then have "u = s\<lparr>directory_db := directory_db u, inode_db := inode_db u\<rparr>" by simp
  with assms show ?thesis by (simp add: tables_only_def)
qed

lemma changed_table_only [simp]: "tables_only env s (changed_table env shard db s)"
  by (simp add: tables_only_def changed_table_def pg_cci_laws pg_clean_cur)

lemma rollback_lookup [simp]:
  "inode_lookup env j k (rollback_to s t) = inode_lookup env j k s"
  "inodes_clean env (rollback_to s t) = inodes_clean env s"
  by (simp_all add: rollback_to_def inode_lookup_def inodes_clean_def)

lemma tables_only_rollback:
  assumes "tables_only env s t"
  shows "rollback_to s t = s"
proof -
  have "t = s\<lparr>directory_db := directory_db t, inode_db := inode_db t\<rparr>" using assms by (simp add: tables_only_def)
  then have "rollback_to s t = s\<lparr>directory_db := directory_db t, inode_db := inode_db t,
      directory_db := directory_db s, inode_db := inode_db s\<rparr>" by (metis rollback_to_def)
  then show ?thesis by simp
qed

subsection \<open>One group\<close>

text \<open>
  \<open>marks_ok\<close>: the requests that are marked are ones the reference finds existing.  The last
  argument says whether all of those have to be marked and read already.
\<close>

fun marks_ok :: "bool \<Rightarrow> nat list \<Rightarrow> MetaProcessInfo list \<Rightarrow> MetaProcessInfo list \<Rightarrow>
    (inode_key \<Rightarrow> inode_row option) \<Rightarrow> bool" where
  "marks_ok all [] infos0 infos rows = True"
| "marks_ok all (i # is) infos0 infos rows = (case rows (inode_key_of (infos0 ! i)) of
     None \<Rightarrow> infos ! i = infos0 ! i \<and>
       marks_ok all is infos0 infos (rows(inode_key_of (infos0 ! i) \<mapsto> file_row (infos0 ! i)))
   | Some row \<Rightarrow> (infos ! i = existing row (infos0 ! i) \<or>
       \<not> all \<and> (infos ! i = infos0 ! i \<or> infos ! i = (infos0 ! i)\<lparr>errorCode := FILE_EXISTS\<rparr>)) \<and>
       marks_ok all is infos0 infos rows)"

definition rows_after :: "nat list \<Rightarrow> MetaProcessInfo list \<Rightarrow> (inode_key \<Rightarrow> inode_row option) \<Rightarrow>
    inode_key \<Rightarrow> inode_row option" where
  "rows_after is infos rows = snd (create_one_by_one is infos rows)"

lemma create_one_by_one_update:
  "i \<notin> set is \<Longrightarrow> create_one_by_one is (infos[i := x]) rows =
    ((fst (create_one_by_one is infos rows))[i := x], snd (create_one_by_one is infos rows))"
proof (induction "is" arbitrary: infos rows)
  case (Cons j "is")
  then have "infos[i := x, j := y] = infos[j := y, i := x]" for y by (simp add: list_update_swap)
  with Cons show ?case by (auto split: option.split)
qed simp

lemma rows_after_Cons [simp]:
  assumes "i \<notin> set is"
  shows "rows_after (i # is) infos rows = (case rows (inode_key_of (infos ! i)) of
     None \<Rightarrow> rows_after is infos (rows(inode_key_of (infos ! i) \<mapsto> file_row (infos ! i)))
   | Some row \<Rightarrow> rows_after is infos rows)"
  using assms by (simp add: rows_after_def create_one_by_one_update split: option.split)

lemma rows_after_Nil [simp]: "rows_after [] infos rows = rows"
  by (simp add: rows_after_def)

lemma marks_ok_cong:
  "(\<And>i. i \<in> set is \<Longrightarrow> infos ! i = infos' ! i) \<Longrightarrow> marks_ok all is infos0 infos rows = marks_ok all is infos0 infos' rows"
  by (induction "is" arbitrary: rows) (auto split: option.split)

lemma marks_ok_start:
  "marks_ok False is infos infos rows"
  by (induction "is" arbitrary: rows) (auto split: option.split)

text \<open>What is left to show for a group: the marks stay right, and the tables follow the reference.\<close>

definition group_ok :: "('d, 'q, 'i, 'h) meta_env \<Rightarrow> int \<Rightarrow> nat list \<Rightarrow> MetaProcessInfo list \<Rightarrow> MetaProcessInfo list \<Rightarrow>
    ('d, 'q, 'i, 'h, 'm) meta_state_scheme \<Rightarrow> nat + nat list \<Rightarrow> MetaProcessInfo list \<Rightarrow>
    ('d, 'q, 'i, 'h, 'm) meta_state_scheme \<Rightarrow> bool" where
  "group_ok env shard is infos0 infos s r infos' t \<longleftrightarrow>
    tables_only env s t \<and> length infos' = length infos \<and> (\<forall>j. j \<notin> set is \<longrightarrow> infos' ! j = infos ! j) \<and>
    (case r of
       Inl i \<Rightarrow> i \<in> set is \<and> infos ! i = infos0 ! i \<and>
         (\<forall>j\<in>set is. errorCode (infos' ! j) = errorCode (infos ! j)) \<and>
         marks_ok False is infos0 (infos'[i := (infos' ! i)\<lparr>errorCode := FILE_EXISTS\<rparr>]) (\<lambda>k. inode_lookup env shard k s)
     | Inr rest \<Rightarrow> inodes_clean env t \<and> (\<exists>pre. is = pre @ rest \<and>
         marks_ok True pre infos0 infos' (\<lambda>k. inode_lookup env shard k s) \<and>
         (\<forall>j k. inode_lookup env j k t =
           (if j = shard then rows_after pre infos0 (\<lambda>k. inode_lookup env shard k s) k else inode_lookup env j k s)) \<and>
         (\<forall>j. j \<notin> set pre \<longrightarrow> infos' ! j = infos ! j) \<and>
         marks_ok False rest infos0 infos' (\<lambda>k. inode_lookup env shard k t)))"

lemma group_ok_skip:
  assumes "group_ok env shard is infos0 (infos[i := existing row (infos0 ! i)]) s r infos' t"
    and "inode_lookup env shard (inode_key_of (infos0 ! i)) s = Some row" and "i < length infos" and "i \<notin> set is"
    and "errorCode (infos ! i) = FILE_EXISTS"
  shows "group_ok env shard (i # is) infos0 infos s r infos' t"
proof (cases r)
  case (Inl j)
  with assms have "j \<noteq> i" by (auto simp: group_ok_def)
  with Inl assms show ?thesis by (auto simp: group_ok_def nth_list_update)
next
  case (Inr rest)
  with assms(1) obtain pre where pre: "is = pre @ rest"
      "marks_ok True pre infos0 infos' (\<lambda>k. inode_lookup env shard k s)"
      "\<forall>j k. inode_lookup env j k t =
           (if j = shard then rows_after pre infos0 (\<lambda>k. inode_lookup env shard k s) k else inode_lookup env j k s)"
      "\<forall>j. j \<notin> set pre \<longrightarrow> infos' ! j = infos[i := existing row (infos0 ! i)] ! j"
      "marks_ok False rest infos0 infos' (\<lambda>k. inode_lookup env shard k t)"
    by (auto simp: group_ok_def)
  have "i \<notin> set pre" using assms(4) pre(1) by simp
  with assms Inr pre show ?thesis
    by (auto simp: group_ok_def nth_list_update intro!: exI [of _ "i # pre"])
qed

lemma group_ok_insert:
  assumes "group_ok env shard is infos0 infos (changed_table env shard db s) r infos' t"
    and "pg_ok (inode_ops env)" and "inodes_clean env s"
    and "pg_insert (inode_ops env) (inode_db s shard) (inode_key_of (infos0 ! i)) (file_row (infos0 ! i)) = Some db"
    and "i < length infos" and "i \<notin> set is" and "infos ! i = infos0 ! i"
  shows "group_ok env shard (i # is) infos0 infos s r infos' t"
proof -
  have none: "inode_lookup env shard (inode_key_of (infos0 ! i)) s = None"
    using insert_fails_iff [OF assms(2,3), of shard "inode_key_of (infos0 ! i)" "file_row (infos0 ! i)"] assms(4) by auto
  note look = insert_lookup [OF assms(2,3,4)]
  have rows: "(\<lambda>k. inode_lookup env shard k (changed_table env shard db s)) =
      (\<lambda>k. inode_lookup env shard k s)(inode_key_of (infos0 ! i) \<mapsto> file_row (infos0 ! i))"
    by (auto simp: look)
  have frame: "tables_only env s t" using assms(1) by (auto simp: group_ok_def intro: tables_only_trans changed_table_only)
  show ?thesis
  proof (cases r)
    case (Inl j)
    with assms have "j \<noteq> i" by (auto simp: group_ok_def)
    with Inl assms none frame rows show ?thesis by (auto simp: group_ok_def)
  next
    case (Inr rest)
    with assms(1) rows obtain pre where pre: "is = pre @ rest"
        "marks_ok True pre infos0 infos' ((\<lambda>k. inode_lookup env shard k s)(inode_key_of (infos0 ! i) \<mapsto> file_row (infos0 ! i)))"
        "\<forall>j k. inode_lookup env j k t = (if j = shard then rows_after pre infos0
            ((\<lambda>k. inode_lookup env shard k s)(inode_key_of (infos0 ! i) \<mapsto> file_row (infos0 ! i))) k
            else inode_lookup env j k (changed_table env shard db s))"
        "\<forall>j. j \<notin> set pre \<longrightarrow> infos' ! j = infos ! j"
        "marks_ok False rest infos0 infos' (\<lambda>k. inode_lookup env shard k t)"
      by (auto simp: group_ok_def)
    have "i \<notin> set pre" using assms(6) pre(1) by simp
    moreover have "inode_lookup env j k (changed_table env shard db s) = inode_lookup env j k s" if "j \<noteq> shard" for j k
      using that by (simp add: look)
    moreover have "length infos' = length infos" "inodes_clean env t" "\<forall>j. j \<notin> set is \<longrightarrow> infos' ! j = infos ! j"
      using assms(1) Inr by (simp_all add: group_ok_def)
    ultimately show ?thesis using assms(2-) Inr pre none frame
      by (auto simp: group_ok_def intro!: exI [of _ "i # pre"])
  qed
qed

text \<open>A group always returns, and it goes right.\<close>

lemma create_group_ok:
  assumes "pg_ok (inode_ops env)"
  shows "inodes_clean env s \<Longrightarrow> distinct is \<Longrightarrow> \<forall>i\<in>set is. i < length infos \<and> errorCode (infos0 ! i) = SUCCESS \<Longrightarrow>
    marks_ok False is infos0 infos (\<lambda>k. inode_lookup env shard k s) \<Longrightarrow>
    \<exists>r infos' t. create_group env shard n is infos s = Some (r, infos', t) \<and> group_ok env shard is infos0 infos s r infos' t \<and>
      (n > 0 \<longrightarrow> is \<noteq> [] \<longrightarrow> r \<noteq> Inr is)"
proof (induction "is" arbitrary: n infos s)
  case Nil
  then show ?case by (auto simp: group_ok_def)
next
  case (Cons i "is")
  let ?k = "inode_key_of (infos0 ! i)"
  have i: "i < length infos" "errorCode (infos0 ! i) = SUCCESS" "i \<notin> set is" using Cons.prems by simp_all
  show ?case
  proof (cases "n = 0")
    case True
    with Cons.prems show ?thesis by (auto simp: group_ok_def intro!: exI [of _ "[]"])
  next
    case n: False
    show ?thesis
    proof (cases "inode_lookup env shard ?k s")
      case None
      then have "infos ! i = infos0 ! i" using Cons.prems(4) by simp
      from None insert_fails_iff [OF assms Cons.prems(1), of shard ?k "file_row (infos0 ! i)"] obtain db where
        db: "pg_insert (inode_ops env) (inode_db s shard) ?k (file_row (infos0 ! i)) = Some db" by auto
      let ?u = "changed_table env shard db s"
      have "(\<lambda>k. inode_lookup env shard k ?u) = (\<lambda>k. inode_lookup env shard k s)(?k \<mapsto> file_row (infos0 ! i))"
        using insert_lookup [OF assms Cons.prems(1) db] by auto
      then have "marks_ok False is infos0 infos (\<lambda>k. inode_lookup env shard k ?u)" using Cons.prems(4) None by simp
      from Cons.IH [OF changed_table_clean [OF assms] _ _ this, of "n - 1"] Cons.prems obtain r infos' t where
        "create_group env shard (n - 1) is infos ?u = Some (r, infos', t)" "group_ok env shard is infos0 infos ?u r infos' t"
        by auto
      moreover from group_ok_insert [OF this(2) assms Cons.prems(1) db i(1,3)] \<open>infos ! i = infos0 ! i\<close>
      have ok: "group_ok env shard (i # is) infos0 infos s r infos' t" .
      moreover have "r \<noteq> Inr (i # is)" using calculation(2) by (auto simp: group_ok_def)
      ultimately show ?thesis
        using n i \<open>infos ! i = infos0 ! i\<close> db
        by (simp add: InsertIntoInodeTable_result [OF assms Cons.prems(1)] Let_def)
    next
      case (Some row)
      show ?thesis
      proof (cases "infos ! i = infos0 ! i")
        case True
        with Some insert_fails_iff [OF assms Cons.prems(1), of shard ?k "file_row (infos0 ! i)"]
        have "create_group env shard n (i # is) infos s = Some (Inl i, infos, s)"
          using n i by (simp add: InsertIntoInodeTable_result [OF assms Cons.prems(1)] Let_def)
        moreover have "group_ok env shard (i # is) infos0 infos s (Inl i) infos s"
        proof -
          have "marks_ok False is infos0 (infos[i := (infos ! i)\<lparr>errorCode := FILE_EXISTS\<rparr>]) (\<lambda>k. inode_lookup env shard k s) =
              marks_ok False is infos0 infos (\<lambda>k. inode_lookup env shard k s)"
            using i(3) by (intro marks_ok_cong) (metis nth_list_update_neq)
          then show ?thesis using True Some i Cons.prems(4) by (simp add: group_ok_def)
        qed
        ultimately show ?thesis by auto
      next
        case False
        then have mark: "errorCode (infos ! i) = FILE_EXISTS" "inode_key_of (infos ! i) = ?k"
          "read_attributes (Some (row, True)) (infos ! i) = existing row (infos0 ! i)"
          using Cons.prems(4) Some by auto
        let ?infos = "infos[i := existing row (infos0 ! i)]"
        have "marks_ok False is infos0 ?infos (\<lambda>k. inode_lookup env shard k s) =
            marks_ok False is infos0 infos (\<lambda>k. inode_lookup env shard k s)"
          using i(3) by (intro marks_ok_cong) (metis nth_list_update_neq)
        with Cons.IH [of s ?infos n] Cons.prems Some obtain r infos' t where
          "create_group env shard n is ?infos s = Some (r, infos', t)" "group_ok env shard is infos0 ?infos s r infos' t"
          by auto
        moreover from group_ok_skip [OF this(2) Some i(1,3) mark(1)] have "group_ok env shard (i # is) infos0 infos s r infos' t" .
        moreover have "r \<noteq> Inr (i # is)" using calculation(2) by (auto simp: group_ok_def)
        ultimately show ?thesis using n mark Some by (simp add: open_search_result Let_def)
      qed
    qed
  qed
qed

subsection \<open>The loop\<close>

lemma marks_ok_append:
  assumes "distinct (is @ js)"
  shows "marks_ok all (is @ js) infos0 infos rows \<longleftrightarrow>
    marks_ok all is infos0 infos rows \<and> marks_ok all js infos0 infos (rows_after is infos0 rows)"
  using assms by (induction "is" arbitrary: rows) (auto split: option.split)

lemma rows_after_append:
  assumes "distinct (is @ js)"
  shows "rows_after (is @ js) infos rows = rows_after js infos (rows_after is infos rows)"
  using assms by (induction "is" arbitrary: rows) (auto split: option.split)

text \<open>With all marks set, the requests are those of the reference.\<close>

lemma marks_ok_all:
  assumes "marks_ok True is infos0 infos rows" and "distinct is" and "\<forall>i\<in>set is. i < length infos0"
    and "length infos = length infos0" and "\<forall>j. j \<notin> set is \<longrightarrow> infos ! j = infos0 ! j"
  shows "infos = fst (create_one_by_one is infos0 rows)"
  using assms
proof (induction "is" arbitrary: infos rows)
  case Nil
  then show ?case by (simp add: list_eq_iff_nth_eq)
next
  case (Cons i "is")
  let ?infos = "infos[i := infos0 ! i]"
  have "marks_ok True is infos0 infos rows' = marks_ok True is infos0 ?infos rows'" for rows'
    using Cons.prems(2) by (intro marks_ok_cong) (metis distinct.simps(2) nth_list_update_neq)
  moreover have "\<forall>j. j \<notin> set is \<longrightarrow> ?infos ! j = infos0 ! j"
    using Cons.prems by (auto simp: nth_list_update)
  ultimately have IH: "?infos = fst (create_one_by_one is infos0 rows')" if "marks_ok True is infos0 infos rows'" for rows'
    using Cons.IH [of ?infos rows'] Cons.prems that by simp
  have "infos = ?infos[i := infos ! i]" by simp
  also have "\<dots> = fst (create_one_by_one (i # is) infos0 rows)"
  proof (cases "rows (inode_key_of (infos0 ! i))")
    case None
    with Cons.prems have "?infos[i := infos ! i] = ?infos" by simp
    also have "\<dots> = fst (create_one_by_one is infos0 (rows(inode_key_of (infos0 ! i) \<mapsto> file_row (infos0 ! i))))"
      using None Cons.prems(1) by (intro IH) simp
    finally show ?thesis using None by simp
  next
    case (Some row)
    with IH [of rows] Cons.prems(1,2) show ?thesis by (simp add: create_one_by_one_update)
  qed
  finally show ?case .
qed

definition unmarked :: "nat list \<Rightarrow> MetaProcessInfo list \<Rightarrow> nat" where
  "unmarked is infos = length (filter (\<lambda>i. errorCode (infos ! i) = SUCCESS) is)"

lemma unmarked_less:
  assumes "i \<in> set is" and "errorCode (infos ! i) = SUCCESS" and "errorCode (infos' ! i) \<noteq> SUCCESS"
    and "\<And>j. j \<in> set is \<Longrightarrow> j \<noteq> i \<Longrightarrow> errorCode (infos' ! j) = errorCode (infos ! j)"
  shows "unmarked is infos' < unmarked is infos"
  using assms
proof (induction "is")
  case (Cons j "is")
  show ?case
  proof (cases "i \<in> set is")
    case True
    with Cons have "unmarked is infos' < unmarked is infos" by simp
    moreover have "errorCode (infos' ! j) = SUCCESS \<Longrightarrow> errorCode (infos ! j) = SUCCESS"
      using Cons.prems(2,3) Cons.prems(4) [of j] by (cases "j = i") auto
    ultimately show ?thesis by (auto simp: unmarked_def)
  next
    case False
    then have "errorCode (infos' ! x) = errorCode (infos ! x)" if "x \<in> set is" for x
      using Cons.prems(4) [of x] that by auto
    then have "filter (\<lambda>i. errorCode (infos' ! i) = SUCCESS) is = filter (\<lambda>i. errorCode (infos ! i) = SUCCESS) is"
      by (intro filter_cong) auto
    with Cons.prems False show ?thesis by (auto simp: unmarked_def)
  qed
qed simp

lemma create_shard_result:
  assumes "pg_ok (inode_ops env)"
  shows "inodes_clean env s \<Longrightarrow> distinct is \<Longrightarrow> \<forall>i\<in>set is. i < length infos \<and> errorCode (infos0 ! i) = SUCCESS \<Longrightarrow>
    marks_ok False is infos0 infos (\<lambda>k. inode_lookup env shard k s) \<Longrightarrow>
    \<exists>infos' t. create_shard env False shard is infos s = Some (Inr infos', t) \<and> tables_only env s t \<and>
      inodes_clean env t \<and> length infos' = length infos \<and> (\<forall>j. j \<notin> set is \<longrightarrow> infos' ! j = infos ! j) \<and>
      marks_ok True is infos0 infos' (\<lambda>k. inode_lookup env shard k s) \<and>
      (\<forall>j k. inode_lookup env j k t =
        (if j = shard then rows_after is infos0 (\<lambda>k. inode_lookup env shard k s) k else inode_lookup env j k s))"
proof (induction "length is + unmarked is infos" arbitrary: "is" infos s rule: less_induct)
  case less
  show ?case
  proof (cases "is = []")
    case True
    with less.prems show ?thesis by (simp add: create_shard.simps)
  next
    case False
    from create_group_ok [OF assms less.prems, of BATCH_OPERATION_GROUP_SIZE] False obtain r infos1 t where
      run: "create_group env shard BATCH_OPERATION_GROUP_SIZE is infos s = Some (r, infos1, t)" and
      ok: "group_ok env shard is infos0 infos s r infos1 t" and r: "r \<noteq> Inr is"
      by (auto simp: BATCH_OPERATION_GROUP_SIZE_def)
    show ?thesis
    proof (cases r)
      case (Inl i)
      let ?infos = "infos1[i := (infos1 ! i)\<lparr>errorCode := FILE_EXISTS\<rparr>]"
      have t: "rollback_to s t = s" using ok by (intro tables_only_rollback [of env]) (simp add: group_ok_def)
      have i: "i \<in> set is" "infos ! i = infos0 ! i" "i < length infos1" using ok Inl less.prems(3) by (auto simp: group_ok_def)
      then have "unmarked is ?infos < unmarked is infos"
        using ok Inl less.prems(3) by (intro unmarked_less [of i]) (auto simp: group_ok_def)
      then have "\<exists>infos' t. create_shard env False shard is ?infos s = Some (Inr infos', t) \<and> tables_only env s t \<and>
          inodes_clean env t \<and> length infos' = length ?infos \<and> (\<forall>j. j \<notin> set is \<longrightarrow> infos' ! j = ?infos ! j) \<and>
          marks_ok True is infos0 infos' (\<lambda>k. inode_lookup env shard k s) \<and>
          (\<forall>j k. inode_lookup env j k t =
            (if j = shard then rows_after is infos0 (\<lambda>k. inode_lookup env shard k s) k else inode_lookup env j k s))"
        using less.prems ok Inl by (intro less.hyps) (auto simp: group_ok_def)
      moreover have "create_shard env False shard is infos s = create_shard env False shard is ?infos s"
        using False run Inl t by (subst create_shard.simps) (simp add: Let_def)
      moreover have "?infos ! j = infos ! j" if "j \<notin> set is" for j
        using that i ok by (auto simp: group_ok_def nth_list_update)
      ultimately show ?thesis using ok by (auto simp: group_ok_def)
    next
      case (Inr rest)
      with ok obtain pre where pre: "is = pre @ rest"
          "marks_ok True pre infos0 infos1 (\<lambda>k. inode_lookup env shard k s)"
          "\<forall>j k. inode_lookup env j k t =
             (if j = shard then rows_after pre infos0 (\<lambda>k. inode_lookup env shard k s) k else inode_lookup env j k s)"
          "\<forall>j. j \<notin> set pre \<longrightarrow> infos1 ! j = infos ! j"
          "marks_ok False rest infos0 infos1 (\<lambda>k. inode_lookup env shard k t)"
        and t: "tables_only env s t" "inodes_clean env t" "length infos1 = length infos"
        by (auto simp: group_ok_def)
      have "filter (\<lambda>i. errorCode (infos1 ! i) = SUCCESS) rest = filter (\<lambda>i. errorCode (infos ! i) = SUCCESS) rest"
        using pre(1,4) less.prems(2) by (intro filter_cong) auto
      then have "length rest + unmarked rest infos1 < length is + unmarked is infos"
        using r Inr pre(1) by (cases pre) (auto simp: unmarked_def)
      from less.hyps [OF this t(2) _ _ pre(5)] less.prems pre(1) t(3) obtain infos' u where
        u: "create_shard env False shard rest infos1 t = Some (Inr infos', u)" "tables_only env t u"
          "inodes_clean env u" "length infos' = length infos1" "\<forall>j. j \<notin> set rest \<longrightarrow> infos' ! j = infos1 ! j"
          "marks_ok True rest infos0 infos' (\<lambda>k. inode_lookup env shard k t)"
          "\<forall>j k. inode_lookup env j k u =
             (if j = shard then rows_after rest infos0 (\<lambda>k. inode_lookup env shard k t) k else inode_lookup env j k t)"
        by auto
      have look: "(\<lambda>k. inode_lookup env shard k t) = rows_after pre infos0 (\<lambda>k. inode_lookup env shard k s)"
        using pre(3) by auto
      have "infos' ! j = infos1 ! j" if "j \<in> set pre" for j using that u(5) less.prems(2) pre(1) by auto
      then have "marks_ok True pre infos0 infos' (\<lambda>k. inode_lookup env shard k s)"
        using pre(2) marks_ok_cong [of pre infos' infos1] by simp
      then have "marks_ok True is infos0 infos' (\<lambda>k. inode_lookup env shard k s)"
        using u(6) look less.prems(2) unfolding pre(1) by (simp add: marks_ok_append)
      moreover have "rows_after is infos0 (\<lambda>k. inode_lookup env shard k s) = rows_after rest infos0 (\<lambda>k. inode_lookup env shard k t)"
        using less.prems(2) look unfolding pre(1) by (simp add: rows_after_append)
      moreover have "create_shard env False shard is infos s = Some (Inr infos', u)"
        using False run Inr u(1) by (subst create_shard.simps) simp
      ultimately show ?thesis
        using u t pre tables_only_trans [OF t(1) u(2)] by auto
    qed
  qed
qed

text \<open>
  C3. Creation in groups is creation one by one.  For any list of requests of one shard, the
  loop ends, and the requests and the rows of all shards are those that result when the requests
  are treated one after the other: a request whose key has no row inserts it, and a request whose
  key has a row, be it an old one or one of an earlier request of the same batch, is answered
  with \<open>FILE_EXISTS\<close> and the attributes of that row.  Nothing but the tables has changed.
\<close>

theorem create_shard_one_by_one:
  assumes "pg_ok (inode_ops env)" and "inodes_clean env s" and "distinct toHandle"
    and "\<forall>i\<in>set toHandle. i < length infos \<and> errorCode (infos ! i) = SUCCESS"
  shows "\<exists>t. create_shard env False shardId toHandle infos s =
      Some (Inr (fst (create_one_by_one toHandle infos (\<lambda>k. inode_lookup env shardId k s))), t) \<and>
    (\<forall>j k. inode_lookup env j k t =
      (if j = shardId then snd (create_one_by_one toHandle infos (\<lambda>k. inode_lookup env shardId k s)) k
       else inode_lookup env j k s)) \<and>
    inodes_clean env t \<and> t = s\<lparr>directory_db := directory_db t, inode_db := inode_db t\<rparr>"
proof -
  from create_shard_result [OF assms marks_ok_start] obtain infos' t where
    "create_shard env False shardId toHandle infos s = Some (Inr infos', t)" "tables_only env s t" "inodes_clean env t"
    "length infos' = length infos" "\<forall>j. j \<notin> set toHandle \<longrightarrow> infos' ! j = infos ! j"
    "marks_ok True toHandle infos infos' (\<lambda>k. inode_lookup env shardId k s)"
    "\<forall>j k. inode_lookup env j k t =
      (if j = shardId then rows_after toHandle infos (\<lambda>k. inode_lookup env shardId k s) k else inode_lookup env j k s)"
    by blast
  moreover from this marks_ok_all [OF this(6) assms(3) _ this(4,5)] assms(4)
  have "infos' = fst (create_one_by_one toHandle infos (\<lambda>k. inode_lookup env shardId k s))" by simp
  ultimately show ?thesis by (auto simp: rows_after_def tables_only_def)
qed

definition request :: "string \<Rightarrow> MetaProcessInfo" where
  "request p = \<lparr>path = p, info_parentId = 0, readDirMaxReadCount = - 1, info_inodeId = 0, info_parentId_partId = 0,
     info_name = None, info_st_dev = 0, info_st_mode = 0, info_st_nlink = 0, info_st_uid = 0, info_st_gid = 0,
     info_st_rdev = 0, info_st_size = 0, info_st_blksize = 0, info_st_blocks = 0, info_st_atim = 0, info_st_mtim = 0,
     info_st_ctim = 0, info_etag = '''', node_id = 0, readDirLastShardIndex = - 1, readDirLastFileName = None,
     readDirResultList = [], dstPath = '''', dstParentId = 0, dstParentIdPartId = 0, dstName = None,
     targetIsDirectory = False, srcLockOrder = 0, errorCode = SUCCESS\<rparr>"

theorem create_shard_one_by_one_witness:
  "\<exists>infos t. create_shard meta_sample_env False 1000 [1, 0] [(request ''/f'')\<lparr>info_name := Some ''f''\<rparr>,
      (request ''/f'')\<lparr>info_name := Some ''f'', info_inodeId := 9\<rparr>] meta_sample = Some (Inr infos, t) \<and>
    map errorCode infos = [FILE_EXISTS, SUCCESS] \<and> map info_inodeId infos = [9, 9]"
proof -
  let ?infos = "[(request ''/f'')\<lparr>info_name := Some ''f''\<rparr>, (request ''/f'')\<lparr>info_name := Some ''f'', info_inodeId := 9\<rparr>]"
  let ?res = "fst (create_one_by_one [1, 0] ?infos (\<lambda>k. inode_lookup meta_sample_env 1000 k meta_sample))"
  have "map errorCode ?res = [FILE_EXISTS, SUCCESS] \<and> map info_inodeId ?res = [9, 9]"
    by (simp add: inode_lookup_def meta_sample_env_def meta_sample_def path_state.defs pg_alist_ops_def request_def
        inode_key_of_def existing_def read_attributes_def file_row_def)
  then show ?thesis
    using create_shard_one_by_one [OF meta_sample_clean, of "[1, 0]" ?infos 1000] by (auto simp: request_def)
qed

end
