(* ===== verification/Meta_Route.thy ===== *)
theory Meta_Route
  imports Meta_Create "HOL-Library.Multiset"
begin

text \<open>
  How the handlers of batches route their requests: which parent, key, shard and server a path
  has, and what the routing loop leaves in the requests and in the groups, whatever order the
  sort and the hash table give.
\<close>

subsection \<open>A server between two calls\<close>

definition env_ok :: "('d, 'q, 'i, 'h) meta_env \<Rightarrow> bool" where
  "env_ok env \<longleftrightarrow> pg_ok (directory_ops (env_path env)) \<and> pg_ok (inode_ops env) \<and> pg_ok (shard_ops env)"

text \<open>
  \<open>base\<close> is the committed directory table, \<open>rows\<close> the shard map.
\<close>

definition server_ok :: "nat \<Rightarrow> ('d, 'q, 'i, 'h) meta_env \<Rightarrow> (dir_key \<Rightarrow> u64) \<Rightarrow> (int \<times> int) list \<Rightarrow>
    ('d, 'q, 'i, 'h, 'm) meta_state_scheme \<Rightarrow> bool" where
  "server_ok N env base rows s \<longleftrightarrow> parse_ok N (env_path env) base s \<and> inodes_clean env s \<and>
     shard_map_ok (shard_ops env) (shard_map s) \<and> pg_rows (shard_ops env) (shard_db (shard_map s)) = rows"

text \<open>The row of the shard map for a key: the first whose range point is not below the hash.\<close>

definition shard_row :: "('d, 'q, 'i, 'h) meta_env \<Rightarrow> (int \<times> int) list \<Rightarrow> u64 \<Rightarrow> int \<times> int" where
  "shard_row env rows key = hd (filter (\<lambda>r. HashShard (hash_bytes_uint32 env) key \<le> fst r) rows)"

lemma hd_filter_nth:
  assumes "k < length xs" and "P (xs ! k)" and "\<And>i. i < k \<Longrightarrow> \<not> P (xs ! i)"
  shows "hd (filter P xs) = xs ! k"
proof -
  have "filter P (take k xs) = []"
    using assms(1,3) by (auto simp: filter_empty_conv in_set_conv_nth)
  moreover have "xs = take k xs @ xs ! k # drop (Suc k) xs" using assms(1) by (rule id_take_nth_drop)
  ultimately have "filter P xs = xs ! k # filter P (drop (Suc k) xs)"
    using assms(2) by (metis append_Nil filter.simps(2) filter_append)
  then show ?thesis by simp
qed

lemma SearchShardInfoByShardValue_row:
  assumes "pg_ok (shard_ops env)" and "shard_map_ok (shard_ops env) h"
  obtains h' where "SearchShardInfoByShardValue (hash_bytes_uint32 env) (shard_ops env) key h =
      Inr (shard_row env (pg_rows (shard_ops env) (shard_db h)) key, h')"
    and "shard_map_ok (shard_ops env) h'" and "pg_rows (shard_ops env) (shard_db h') = pg_rows (shard_ops env) (shard_db h)"
proof -
  let ?rows = "pg_rows (shard_ops env) (shard_db h)" and ?h = "HashShard (hash_bytes_uint32 env) key"
  let ?k = "shard_bsearch ?rows ?h 0 (length ?rows)"
  from assms(2) have ne: "?rows \<noteq> []" and coh: "shard_cache.coherent (shard_ops env) h"
    and len: "length ?rows \<le> SHARD_COUNT_MAX" and last: "?h \<le> fst (last ?rows)"
    using HashShard_range [of "hash_bytes_uint32 env" key] by (auto simp: shard_map_ok_def SHARD_TABLE_RANGE_MAX_def)
  obtain h' where h': "ReloadShardTableShmemCache (shard_ops env) h = Inr h'" "ShardTableShmemCache h' = ?rows"
    using ReloadShardTableShmemCache_fresh [OF coh len] by blast
  note k = search_in_cache [OF pg_rowsD(1) [OF assms(1)] ne last]
  have "shard_row env ?rows key = ?rows ! ?k"
    unfolding shard_row_def using k by (intro hd_filter_nth) fastforce+
  with h' k(1) have "SearchShardInfoByShardValue (hash_bytes_uint32 env) (shard_ops env) key h = Inr (shard_row env ?rows key, h')"
    by (simp add: SearchShardInfoByShardValue_def SearchShardInfoByHashValue_def Let_def)
  moreover note shard_cache.coherent_reload [OF coh h'(1)] shard_cache.reload_fresh(3) [OF coh h'(1)]
  ultimately show ?thesis using assms(2) by (intro that [of h']) (simp_all add: shard_map_ok_def)
qed

text \<open>What the calls between the requests leave alone.\<close>

definition same_files :: "('d, 'q, 'i, 'h, 'm) meta_state_scheme \<Rightarrow> ('d, 'q, 'i, 'h, 'm) meta_state_scheme \<Rightarrow> bool" where
  "same_files s t \<longleftrightarrow> inode_db t = inode_db s \<and> LocalServerId t = LocalServerId s"

lemma same_files_refl [simp]: "same_files s s"
  and same_files_trans: "same_files s t \<Longrightarrow> same_files t u \<Longrightarrow> same_files s u"
  by (simp_all add: same_files_def)

lemma same_files_lookup: "same_files s t \<Longrightarrow> inode_lookup env shard k t = inode_lookup env shard k s"
  by (simp add: same_files_def inode_lookup_def)

lemma parse_ok_shard_map [simp]:
  "parse_ok N penv base (s\<lparr>shard_map := h\<rparr>) = parse_ok N penv base s"
  "parse_ok N penv base (s\<lparr>clock_reads := c\<rparr>) = parse_ok N penv base s"
  by (simp_all add: parse_ok_def walk_ok_def hash_ok_def tx_ok_def held_keys_def tree_of_def)

lemma inodes_clean_shard_map [simp]:
  "inodes_clean env (s\<lparr>shard_map := h\<rparr>) = inodes_clean env s"
  "inodes_clean env (s\<lparr>clock_reads := c\<rparr>) = inodes_clean env s"
  by (simp_all add: inodes_clean_def)

lemma shard_of_key_ok:
  assumes "env_ok env" and "server_ok N env base rows s"
  obtains t where "shard_of_key env key s = Some (Inr (shard_row env rows key), t)" and "server_ok N env base rows t"
    and "same_files s t"
proof -
  from assms have "pg_ok (shard_ops env)" "shard_map_ok (shard_ops env) (shard_map s)"
    "pg_rows (shard_ops env) (shard_db (shard_map s)) = rows" by (simp_all add: env_ok_def server_ok_def)
  from SearchShardInfoByShardValue_row [OF this(1,2)] this(3) obtain h where
    "SearchShardInfoByShardValue (hash_bytes_uint32 env) (shard_ops env) key (shard_map s) = Inr (shard_row env rows key, h)"
    "shard_map_ok (shard_ops env) h" "pg_rows (shard_ops env) (shard_db h) = rows" by metis
  with assms(2) show ?thesis
    by (intro that [of "s\<lparr>shard_map := h\<rparr>"])
      (simp_all add: shard_of_key_def zoom_def of_falcon_value_def server_ok_def same_files_def)
qed

lemma reload_ok:
  assumes "server_ok N env base rows s"
  obtains h where "ReloadShardTableShmemCache (shard_ops env) (shard_map s) = Inr h" and "ShardTableShmemCache h = rows"
    and "server_ok N env base rows (s\<lparr>shard_map := h\<rparr>)"
proof -
  from assms have ok: "shard_map_ok (shard_ops env) (shard_map s)" by (simp add: server_ok_def)
  then have coh: "shard_cache.coherent (shard_ops env) (shard_map s)" by (simp add: shard_map_ok_def)
  obtain h where h: "ReloadShardTableShmemCache (shard_ops env) (shard_map s) = Inr h"
    "ShardTableShmemCache h = pg_rows (shard_ops env) (shard_db (shard_map s))"
    using ReloadShardTableShmemCache_fresh [OF coh] ok by (auto simp: shard_map_ok_def)
  note shard_cache.coherent_reload [OF coh h(1)] shard_cache.reload_fresh(3) [OF coh h(1)]
  with assms h ok show ?thesis by (intro that [of h]) (simp_all add: server_ok_def shard_map_ok_def)
qed

lemma shard_table_size_ok:
  assumes "server_ok N env base rows s"
  obtains t where "shard_table_size env s = Some (Inr (length rows), t)" and "server_ok N env base rows t" and "same_files s t"
proof -
  from reload_ok [OF assms] obtain h where "ReloadShardTableShmemCache (shard_ops env) (shard_map s) = Inr h"
    "ShardTableShmemCache h = rows" "server_ok N env base rows (s\<lparr>shard_map := h\<rparr>)" .
  then show ?thesis
    by (intro that [of "s\<lparr>shard_map := h\<rparr>"])
      (simp_all add: shard_table_size_def zoom_def of_falcon_value_def GetShardTableSize_def same_files_def)
qed

lemma shard_table_data_ok:
  assumes "server_ok N env base rows s"
  obtains t where "shard_table_data env s = Some (Inr rows, t)" and "server_ok N env base rows t" and "same_files s t"
proof -
  from reload_ok [OF assms] obtain h where "ReloadShardTableShmemCache (shard_ops env) (shard_map s) = Inr h"
    "ShardTableShmemCache h = rows" "server_ok N env base rows (s\<lparr>shard_map := h\<rparr>)" .
  then show ?thesis
    by (intro that [of "s\<lparr>shard_map := h\<rparr>"])
      (simp_all add: shard_table_data_def zoom_def of_falcon_value_def GetShardTableData_def same_files_def)
qed

subsection \<open>The path lookups leave the files alone\<close>

definition beyond :: "('d, 'q, 'm) path_state_scheme \<Rightarrow> int \<times> 'm \<times> 'd" where
  "beyond s = (LocalServerId s, path_state.more s, directory_db s)"

lemma beyond_more:
  "dir_state.more t = dir_state.more s \<Longrightarrow> directory_db t = directory_db s \<Longrightarrow> beyond t = beyond s"
  by (cases s; cases t) (simp add: beyond_def)

lemma search_dir_beyond:
  "keeps (\<lambda>s. walk_ok N env base s \<and> beyond s = c) (search_dir env parentId name lockMode)"
  by (rule keepsI) (use search_dir_ok beyond_more in metis)

lemma beyond_simps [simp]:
  "beyond (s\<lparr>TransactionLevelPathParseRoot := x\<rparr>) = beyond s"
  "beyond (s\<lparr>sequence_cache := q, sequence_state := r\<rparr>) = beyond s"
  by (simp_all add: beyond_def)

lemma next_inode_id_beyond: "keeps (\<lambda>s. walk_ok N env base s \<and> beyond s = c) (next_inode_id env')"
  by (rule keepsI) (auto simp: next_inode_id_def return_def walk_ok_more split: prod.splits)

lemma file_target_beyond:
  assumes "file_flag flag"
  shows "keeps (\<lambda>s. walk_ok N env base s \<and> beyond s = c) (path_target env flag inodeId name cur)"
  using assms
  by (auto simp: file_flag_def path_target_def target_created_def Let_def
      intro!: keeps_bindM next_inode_id_beyond split: prod.splits)

lemma path_walk_beyond:
  assumes "\<And>cur. keeps (\<lambda>s. walk_ok N env base s \<and> beyond s = c) (target cur)"
  shows "keeps (\<lambda>s. walk_ok N env base s \<and> beyond s = c) (path_walk env target names cur)"
  by (induction names arbitrary: cur)
    (auto simp: Let_def assms split: option.split intro!: keeps_bindM search_dir_beyond)

lemma PathParseTreeInsert_beyond:
  assumes "file_flag flag"
  shows "keeps (\<lambda>s. walk_ok N env base s \<and> beyond s = c) (PathParseTreeInsert env p flag inodeId)"
  unfolding PathParseTreeInsert_def Let_def
  by (auto intro!: keeps_bindM keeps_modify path_walk_beyond file_target_beyond [OF assms] simp: walk_ok_more)

lemma same_files_more:
  "path_state.more t = path_state.more s \<Longrightarrow> inode_db t = inode_db s \<and> shard_map t = shard_map s \<and> clock_reads t = clock_reads s"
  by (cases s; cases t) simp

lemma parse_file_ok:
  assumes "server_ok N env base rows s" and "file_flag flag" and "\<not> (p = ''/'' \<and> has_flag flag PATH_PARSE_FLAG_NOT_ROOT)"
    and "PathParseTreeInsert (env_path env) p flag inodeId s = Some (Inr res, t)"
  shows "server_ok N env base rows t" and "same_files s t" and "clock_reads t = clock_reads s"
    and "case resolve base 0 (butlast (path_components p)) of
       None \<Rightarrow> res = failed PATH_IS_INVALID
     | Some parentId \<Rightarrow> pp_error res = SUCCESS \<and> pp_parentId res = Some parentId \<and>
        pp_fileName res = Some (last (path_components p))"
proof -
  have "parse_ok N (env_path env) base s" using assms(1) by (simp add: server_ok_def)
  note ok = PathParseTreeInsert_file_ok [OF this assms(2,3,4)]
  then show "case resolve base 0 (butlast (path_components p)) of
       None \<Rightarrow> res = failed PATH_IS_INVALID
     | Some parentId \<Rightarrow> pp_error res = SUCCESS \<and> pp_parentId res = Some parentId \<and>
        pp_fileName res = Some (last (path_components p))"
    by (simp split: option.splits)
  have "beyond t = beyond s"
    using keepsD [OF PathParseTreeInsert_beyond [OF assms(2), of N "env_path env" base "beyond s"] _ assms(4)]
      \<open>parse_ok N (env_path env) base s\<close> by (simp add: parse_ok_def)
  then have "inode_db t = inode_db s \<and> shard_map t = shard_map s \<and> clock_reads t = clock_reads s" "LocalServerId t = LocalServerId s"
    using same_files_more [of t s] by (simp_all add: beyond_def)
  with ok assms(1) show "server_ok N env base rows t" and "same_files s t" and "clock_reads t = clock_reads s"
    by (simp_all add: server_ok_def same_files_def inodes_clean_def)
qed

text \<open>With no flag at all the result is determined.\<close>

lemma parse_plain_inode:
  assumes "path_walk env (path_target env 0 inodeId name) names cur s = Some (Inr (res, cur'), t)"
    and "pp_error res = SUCCESS"
  shows "pp_inodeId_out res = inodeId"
  using assms
proof (induction names arbitrary: cur s cur' t)
  case Nil
  then show ?case by (auto simp: path_target_def has_flag_def reached_def return_def)
next
  case (Cons x names)
  show ?case
    using Cons.prems
    by (auto simp: Let_def failed_def return_def split: option.splits if_splits elim!: bindM_Inr_E dest!: Cons.IH)
qed

lemma PathParseTreeInsert_plain_inode:
  assumes "PathParseTreeInsert env p 0 inodeId s = Some (Inr res, t)" and "pp_error res = SUCCESS"
  shows "pp_inodeId_out res = inodeId"
  using assms
  by (auto simp: PathParseTreeInsert_def Let_def has_flag_def return_def elim!: bindM_Inr_E intro: parse_plain_inode)

subsection \<open>Routing one request\<close>

definition routed :: "('d, 'q, 'i, 'h) meta_env \<Rightarrow> (dir_key \<Rightarrow> u64) \<Rightarrow> (int \<times> int) list \<Rightarrow> int \<Rightarrow> MetaProcessInfo \<Rightarrow>
    MetaProcessInfo \<times> int option" where
  "routed env base rows local info =
    (if errorCode info \<noteq> SUCCESS then (info, None)
     else case resolve base 0 (butlast (path_components (path info))) of
       None \<Rightarrow> (info\<lparr>errorCode := PATH_IS_INVALID\<rparr>, None)
     | Some parentId \<Rightarrow>
        let info = set_partition (info\<lparr>info_parentId := parentId, info_name := Some (last (path_components (path info)))\<rparr>);
            (shardId, workerId) = shard_row env rows (info_parentId_partId info) in
        if workerId \<noteq> local then (info\<lparr>errorCode := WRONG_WORKER\<rparr>, None) else (info, Some shardId))"

lemma file_flag_0 [simp]: "file_flag 0" "\<not> has_flag 0 f"
  by (simp_all add: file_flag_def has_flag_def)

lemma route_info_plain:
  assumes "env_ok env" and "server_ok N env base rows s"
    and "route_info env 0 False return i (infos, gs) s = Some (Inr res, t)"
  shows "server_ok N env base rows t \<and> same_files s t \<and>
    res = (infos[i := fst (routed env base rows (LocalServerId s) (infos ! i))],
      case snd (routed env base rows (LocalServerId s) (infos ! i)) of None \<Rightarrow> gs | Some shardId \<Rightarrow> add_to_group shardId i gs)"
proof (cases "errorCode (infos ! i) = SUCCESS")
  case False
  with assms show ?thesis by (auto simp: route_info_def routed_def return_def Let_def)
next
  case True
  let ?p = "path (infos ! i)"
  from assms(3) True obtain pres u where parse: "PathParseTreeInsert (env_path env) ?p 0 None s = Some (Inr pres, u)"
    and rest: "(let info = store_path pres (infos ! i) in
       if pp_error pres \<noteq> SUCCESS then return (infos[i := info], gs)
       else bindM (return (set_partition info)) (\<lambda>info.
         bindM (shard_of_key env (info_parentId_partId info)) (\<lambda>(shardId, workerId).
         bindM GetLocalServerId (\<lambda>local.
         if workerId \<noteq> local then return (infos[i := info\<lparr>errorCode := WRONG_WORKER\<rparr>], gs)
         else return (infos[i := info], add_to_group shardId i gs))))) u = Some (Inr res, t)"
    by (auto simp: route_info_def Let_def elim!: bindM_Inr_E)
  note ok = parse_file_ok [OF assms(2) _ _ parse]
  have local: "LocalServerId u = LocalServerId s" using ok(2) by (simp add: same_files_def)
  show ?thesis
  proof (cases "resolve base 0 (butlast (path_components ?p))")
    case None
    with ok(4) have "pres = failed PATH_IS_INVALID" by simp
    with rest True None ok(1,2) show ?thesis by (auto simp: failed_def store_path_def return_def routed_def Let_def)
  next
    case (Some parentId)
    with ok(4) have pres: "pp_error pres = SUCCESS" "pp_parentId pres = Some parentId"
      "pp_fileName pres = Some (last (path_components ?p))" by simp_all
    let ?info = "set_partition ((infos ! i)\<lparr>info_parentId := parentId, info_name := Some (last (path_components ?p))\<rparr>)"
    have info: "set_partition (store_path pres (infos ! i)) = ?info"
      using pres PathParseTreeInsert_plain_inode [OF parse] True by (simp add: store_path_def set_partition_def)
    have "server_ok N env base rows u" using ok(1) by simp
    from shard_of_key_ok [OF assms(1) this, of "info_parentId_partId ?info"] obtain v where
      "shard_of_key env (info_parentId_partId ?info) u = Some (Inr (shard_row env rows (info_parentId_partId ?info)), v)"
      "server_ok N env base rows v" "same_files u v" .
    moreover obtain shardId workerId where "shard_row env rows (info_parentId_partId ?info) = (shardId, workerId)"
      by (cases "shard_row env rows (info_parentId_partId ?info)")
    ultimately show ?thesis
      using rest pres info True Some ok(2) local same_files_trans [of s u v]
      by (auto simp: Let_def routed_def bindM_Some GetLocalServerId_def return_def same_files_def split: if_splits)
  qed
qed

subsection \<open>Groups\<close>

text \<open>
  \<open>groups_for f js gs\<close>: the groups hold each index of \<open>js\<close> for which \<open>f\<close> gives a shard once, in
  the group of this shard, and nothing else.
\<close>

definition groups_for :: "(nat \<Rightarrow> int option) \<Rightarrow> nat list \<Rightarrow> groups \<Rightarrow> bool" where
  "groups_for f js gs \<longleftrightarrow> mset (concat (map snd gs)) = mset (filter (\<lambda>i. f i \<noteq> None) js) \<and>
     (\<forall>(shardId, is)\<in>set gs. \<forall>i\<in>set is. f i = Some shardId)"

lemma mset_update_group:
  "map_of gs shardId = Some is \<Longrightarrow>
    mset (concat (map snd (AList.update shardId (is @ [i]) gs))) = add_mset i (mset (concat (map snd gs)))"
  by (induction gs) (auto split: if_splits)

lemma groups_for_add:
  assumes "groups_for f js gs" and "f i = Some shardId"
  shows "groups_for f (js @ [i]) (add_to_group shardId i gs)"
proof (cases "map_of gs shardId")
  case None
  with assms show ?thesis by (auto simp: groups_for_def add_to_group_def)
next
  case (Some "is")
  from assms(1) have mem: "f x = Some shard" if "(shard, xs) \<in> set gs" "x \<in> set xs" for shard xs x
    using that by (fastforce simp: groups_for_def)
  have "f j = Some shard" if "(shard, js) \<in> set (AList.update shardId (is @ [i]) gs)" "j \<in> set js" for shard js j
    using AList_update_member [OF that(1)] that(2) assms(2) map_of_SomeD [OF Some] by (auto dest: mem)
  with assms Some show ?thesis by (auto simp: groups_for_def add_to_group_def mset_update_group)
qed

lemma groups_for_skip: "groups_for f js gs \<Longrightarrow> f i = None \<Longrightarrow> groups_for f (js @ [i]) gs"
  by (simp add: groups_for_def)

lemma mset_concat_snd: "mset (concat (map snd gs)) = sum_mset (image_mset (\<lambda>g. mset (snd g)) (mset gs))"
  by (induction gs) simp_all

lemma groups_for_cong:
  assumes "groups_for f js gs" and "mset gs = mset hs"
  shows "groups_for f js hs"
  using assms mset_eq_setD [OF assms(2)] by (simp add: groups_for_def mset_concat_snd)

lemma groups_for_distinct:
  assumes "groups_for f js gs" and "distinct js"
  shows "distinct (concat (map snd gs))" and "set (concat (map snd gs)) = {i \<in> set js. f i \<noteq> None}"
proof -
  have eq: "mset (concat (map snd gs)) = mset (filter (\<lambda>i. f i \<noteq> None) js)" using assms(1) by (simp add: groups_for_def)
  then show "distinct (concat (map snd gs))" using assms(2) by (metis distinct_filter mset_eq_imp_distinct_iff)
  from eq have "set (concat (map snd gs)) = set (filter (\<lambda>i. f i \<noteq> None) js)" by (rule mset_eq_setD)
  then show "set (concat (map snd gs)) = {i \<in> set js. f i \<noteq> None}" by simp
qed

subsection \<open>Routing a batch\<close>

text \<open>What the handlers rely on: the sort permutes, and a scan of a hash table visits each entry once.\<close>

definition batch_ok :: "batch_env \<Rightarrow> bool" where
  "batch_ok benv \<longleftrightarrow> (\<forall>ps. mset (pg_qsort benv ps) = mset [0..<length ps]) \<and> (\<forall>gs. mset (hash_seq benv gs) = mset gs)"

lemma sort_by_path_perm:
  assumes "batch_ok benv"
  shows "distinct (sort_by_path benv infos)" and "set (sort_by_path benv infos) = {..<length infos}"
proof -
  have eq: "mset (sort_by_path benv infos) = mset [0..<length infos]" using assms by (simp add: batch_ok_def sort_by_path_def)
  show "distinct (sort_by_path benv infos)" using mset_eq_imp_distinct_iff [OF eq] by simp
  show "set (sort_by_path benv infos) = {..<length infos}" using mset_eq_setD [OF eq] by (simp add: atLeast0LessThan)
qed

lemma foldM_route_plain:
  assumes "env_ok env" and "server_ok N env base rows s" and "distinct js"
    and "foldM (route_info env 0 False return) js (infos, gs) s = Some (Inr (infos', gs'), t)"
    and "\<forall>j\<in>set js. j < length infos \<and> infos ! j = infos0 ! j"
    and "groups_for (\<lambda>i. snd (routed env base rows (LocalServerId s) (infos0 ! i))) ks gs"
  shows "server_ok N env base rows t \<and> same_files s t \<and> length infos' = length infos \<and>
    (\<forall>i < length infos. infos' ! i = (if i \<in> set js then fst (routed env base rows (LocalServerId s) (infos0 ! i)) else infos ! i)) \<and>
    groups_for (\<lambda>i. snd (routed env base rows (LocalServerId s) (infos0 ! i))) (ks @ js) gs'"
  using assms(2-)
proof (induction js arbitrary: s infos gs ks)
  case Nil
  then show ?case by (auto simp: return_def)
next
  case (Cons j js)
  from Cons.prems(3) obtain acc u where step: "route_info env 0 False return j (infos, gs) s = Some (Inr acc, u)"
    and rest: "foldM (route_info env 0 False return) js acc u = Some (Inr (infos', gs'), t)" by (auto elim!: bindM_Inr_E)
  let ?r = "routed env base rows (LocalServerId s) (infos0 ! j)"
  let ?infos = "infos[j := fst ?r]" and ?gs = "case snd ?r of None \<Rightarrow> gs | Some shardId \<Rightarrow> add_to_group shardId j gs"
  have j: "infos ! j = infos0 ! j" "j < length infos" using Cons.prems(4) by simp_all
  from route_info_plain [OF assms(1) Cons.prems(1) step] j
  have u: "server_ok N env base rows u" "same_files s u" and acc: "acc = (?infos, ?gs)" by simp_all
  have local: "LocalServerId u = LocalServerId s" using u(2) by (simp add: same_files_def)
  have "groups_for (\<lambda>i. snd (routed env base rows (LocalServerId s) (infos0 ! i))) (ks @ [j]) ?gs"
    using Cons.prems(5) by (cases "snd ?r") (auto intro: groups_for_add groups_for_skip)
  moreover have "\<forall>i\<in>set js. i < length ?infos \<and> ?infos ! i = infos0 ! i"
    using Cons.prems(2,4) by (auto simp: nth_list_update)
  ultimately have "server_ok N env base rows t \<and> same_files u t \<and> length infos' = length ?infos \<and>
      (\<forall>i < length ?infos. infos' ! i = (if i \<in> set js then fst (routed env base rows (LocalServerId s) (infos0 ! i)) else ?infos ! i)) \<and>
      groups_for (\<lambda>i. snd (routed env base rows (LocalServerId s) (infos0 ! i))) ((ks @ [j]) @ js) gs'"
    using Cons.IH [OF u(1) _ rest [unfolded acc], of "ks @ [j]"] Cons.prems(2) unfolding local by simp
  then show ?case using same_files_trans [OF u(2)] j(2) by (auto simp: nth_list_update)
qed

lemma route_batch_plain:
  assumes "env_ok env" and "batch_ok benv" and "server_ok N env base rows s"
    and "route_batch env benv requirement 0 False return infos s = Some (Inr (infos', gs), t)"
  shows "server_ok N env base rows t" and "same_files s t"
    and "infos' = map (\<lambda>info. fst (routed env base rows (LocalServerId s) (verify_info requirement info))) infos"
    and "groups_for (\<lambda>i. snd (routed env base rows (LocalServerId s) (map (verify_info requirement) infos ! i)))
      (sort_by_path benv (map (verify_info requirement) infos)) gs"
proof -
  let ?infos = "map (verify_info requirement) infos"
  let ?js = "sort_by_path benv ?infos"
  from assms(4) obtain n u where size: "shard_table_size env s = Some (Inr n, u)"
    and fold: "foldM (route_info env 0 False return) ?js (?infos, []) u = Some (Inr (infos', gs), t)"
    by (auto simp: route_batch_def Let_def elim!: bindM_Inr_E)
  from shard_table_size_ok [OF assms(3)] size have u: "server_ok N env base rows u" "same_files s u" by auto
  then have local: "LocalServerId u = LocalServerId s" by (simp add: same_files_def)
  note perm = sort_by_path_perm [OF assms(2), of ?infos]
  have "groups_for f [] []" for f by (simp add: groups_for_def)
  note fold_ok = foldM_route_plain [OF assms(1) u(1) perm(1) fold, of ?infos "[]", unfolded local, OF _ this]
  then show "server_ok N env base rows t" and "same_files s t"
    using perm(2) same_files_trans [OF u(2)] by auto
  from fold_ok perm(2) show "infos' = map (\<lambda>info. fst (routed env base rows (LocalServerId s) (verify_info requirement info))) infos"
    by (auto intro!: nth_equalityI)
  show "groups_for (\<lambda>i. snd (routed env base rows (LocalServerId s) (?infos ! i))) ?js gs" using fold_ok perm(2) by auto
qed

end
