(* ===== verification/Meta_Files.thy ===== *)
theory Meta_Files
  imports Meta_Route
begin

text \<open>
  What the handlers of file operations answer: \<open>stat\<close> and \<open>open\<close> on whole batches, and a \<open>create\<close>,
  \<open>close\<close> or \<open>unlink\<close> seen by a later \<open>stat\<close>.
\<close>

subsection \<open>Reading shard by shard\<close>

lemma foldM_read_group:
  assumes "\<And>info. step shardId info s = Some (Inr (g shardId info), s)" and "distinct is"
  shows "\<exists>infos'. foldM (\<lambda>i infos. bindM (step shardId (infos ! i)) (\<lambda>info. return (infos[i := info]))) is infos s =
      Some (Inr infos', s) \<and> length infos' = length infos \<and>
    (\<forall>i < length infos. infos' ! i = (if i \<in> set is then g shardId (infos ! i) else infos ! i))"
  using assms(2)
proof (induction "is" arbitrary: infos)
  case Nil
  then show ?case by (simp add: return_def)
next
  case (Cons i "is")
  from Cons.IH [of "infos[i := g shardId (infos ! i)]"] Cons.prems obtain infos' where
    "foldM (\<lambda>i infos. bindM (step shardId (infos ! i)) (\<lambda>info. return (infos[i := info]))) is
       (infos[i := g shardId (infos ! i)]) s = Some (Inr infos', s)"
    "length infos' = length infos"
    "\<forall>j < length infos. infos' ! j = (if j \<in> set is then g shardId (infos[i := g shardId (infos ! i)] ! j)
       else infos[i := g shardId (infos ! i)] ! j)" by auto
  moreover have "bindM (step shardId (infos ! i)) (\<lambda>info. return (infos[i := info])) s =
      Some (Inr (infos[i := g shardId (infos ! i)]), s)" by (simp add: bindM_def assms(1) return_def)
  moreover have "infos[i := g shardId (infos ! i)] ! j = infos ! j" if "j \<in> set is" for j
    using that Cons.prems by (metis distinct.simps(2) nth_list_update_neq)
  ultimately show ?case using Cons.prems by (auto simp: bindM_Some(1) nth_list_update)
qed

lemma foldM_read_groups:
  assumes "\<And>shardId info. step shardId info s = Some (Inr (g shardId info), s)" and "distinct (concat (map snd gs))"
    and "\<forall>(shardId, is)\<in>set gs. \<forall>i\<in>set is. f i = Some shardId"
  shows "\<exists>infos'. foldM (\<lambda>(shardId, is) infos.
      foldM (\<lambda>i infos. bindM (step shardId (infos ! i)) (\<lambda>info. return (infos[i := info]))) is infos) gs infos s =
      Some (Inr infos', s) \<and> length infos' = length infos \<and>
    (\<forall>i < length infos. infos' ! i = (if i \<in> set (concat (map snd gs)) then g (the (f i)) (infos ! i) else infos ! i))"
  using assms(2,3)
proof (induction gs arbitrary: infos)
  case Nil
  then show ?case by (simp add: return_def)
next
  case (Cons group gs)
  obtain shardId "is" where group: "group = (shardId, is)" by (cases group)
  from foldM_read_group [of step shardId s g "is" infos] assms(1) Cons.prems(1) group obtain infos1 where
    run1: "foldM (\<lambda>i infos. bindM (step shardId (infos ! i)) (\<lambda>info. return (infos[i := info]))) is infos s = Some (Inr infos1, s)"
    and infos1: "length infos1 = length infos"
      "\<forall>i < length infos. infos1 ! i = (if i \<in> set is then g shardId (infos ! i) else infos ! i)" by auto
  from Cons.IH [of infos1] Cons.prems obtain infos' where
    run2: "foldM (\<lambda>(shardId, is) infos.
      foldM (\<lambda>i infos. bindM (step shardId (infos ! i)) (\<lambda>info. return (infos[i := info]))) is infos) gs infos1 s = Some (Inr infos', s)"
    and infos': "length infos' = length infos1"
      "\<forall>i < length infos1. infos' ! i = (if i \<in> set (concat (map snd gs)) then g (the (f i)) (infos1 ! i) else infos1 ! i)"
    by auto
  have disj: "i \<notin> set (concat (map snd gs))" "f i = Some shardId" if "i \<in> set is" for i
    using Cons.prems group that by auto
  have "infos' ! i = (if i \<in> set (concat (map snd (group # gs))) then g (the (f i)) (infos ! i) else infos ! i)"
    if "i < length infos" for i
    using disj [of i] infos1 infos' that group by (cases "i \<in> set is") simp_all
  moreover have "foldM (\<lambda>(shardId, is) infos.
      foldM (\<lambda>i infos. bindM (step shardId (infos ! i)) (\<lambda>info. return (infos[i := info]))) is infos) (group # gs) infos s =
      Some (Inr infos', s)" using run1 run2 group by (simp add: bindM_Some(1))
  ultimately show ?case using infos1(1) infos'(1) by simp
qed

lemma for_each_grouped_read:
  assumes "batch_ok benv" and "groups_for f js gs" and "distinct js" and "set js = {..<length infos}"
    and "\<And>shardId info. step shardId info s = Some (Inr (g shardId info), s)"
  shows "for_each_grouped benv step (infos, gs) s =
    Some (Inr (map (\<lambda>i. case f i of None \<Rightarrow> infos ! i | Some shardId \<Rightarrow> g shardId (infos ! i)) [0..<length infos]), s)"
proof -
  let ?gs = "hash_seq benv gs"
  have gs: "groups_for f js ?gs" using assms(1) by (intro groups_for_cong [OF assms(2)]) (simp add: batch_ok_def)
  note d = groups_for_distinct [OF this assms(3)]
  have "\<forall>(shardId, is)\<in>set ?gs. \<forall>i\<in>set is. f i = Some shardId" using gs by (simp add: groups_for_def)
  from foldM_read_groups [where step = step and g = g and s = s and f = f and infos = infos, OF assms(5) d(1) this]
  obtain infos' where
    run: "for_each_grouped benv step (infos, gs) s = Some (Inr infos', s)" and len: "length infos' = length infos" and
    nth: "\<forall>i < length infos. infos' ! i = (if i \<in> set (concat (map snd ?gs)) then g (the (f i)) (infos ! i) else infos ! i)"
    by (auto simp: for_each_grouped_def)
  have "infos' ! i = (case f i of None \<Rightarrow> infos ! i | Some shardId \<Rightarrow> g shardId (infos ! i))" if "i < length infos" for i
    using nth that assms(4) unfolding d(2) by (auto split: option.split)
  then have "infos' = map (\<lambda>i. case f i of None \<Rightarrow> infos ! i | Some shardId \<Rightarrow> g shardId (infos ! i)) [0..<length infos]"
    using len by (auto intro!: nth_equalityI split: option.split)
  with run show ?thesis by simp
qed

text \<open>Routing followed by a reading step: each answer depends on its own request only.\<close>

definition answer :: "(int \<Rightarrow> MetaProcessInfo \<Rightarrow> MetaProcessInfo) \<Rightarrow> MetaProcessInfo \<times> int option \<Rightarrow> MetaProcessInfo" where
  "answer g r = (case snd r of None \<Rightarrow> fst r | Some shardId \<Rightarrow> g shardId (fst r))"

lemma route_then_read:
  assumes "env_ok env" and "batch_ok benv" and "server_ok N env base rows s"
    and "\<And>shardId info t. same_files s t \<Longrightarrow> step shardId info t = Some (Inr (g shardId info), t)"
    and "bindM (route_batch env benv requirement 0 False return infos) (for_each_grouped benv step) s = Some (Inr infos', t)"
  shows "infos' = map (\<lambda>info. answer g (routed env base rows (LocalServerId s) (verify_info requirement info))) infos"
    and "server_ok N env base rows t" and "same_files s t"
proof -
  from assms(5) obtain infos1 gs u where route: "route_batch env benv requirement 0 False return infos s = Some (Inr (infos1, gs), u)"
    and rest: "for_each_grouped benv step (infos1, gs) u = Some (Inr infos', t)" by (auto elim!: bindM_Inr_E)
  note r = route_batch_plain [OF assms(1-3) route]
  note perm = sort_by_path_perm [OF assms(2), of "map (verify_info requirement) infos"]
  from for_each_grouped_read [where step = step and g = g and s = u, OF assms(2) r(4) perm(1) _ assms(4) [OF r(2)], of infos1]
    rest perm(2) r(3)
  have "t = u" and "infos' = map (\<lambda>i. case snd (routed env base rows (LocalServerId s) (map (verify_info requirement) infos ! i)) of
      None \<Rightarrow> infos1 ! i | Some shardId \<Rightarrow> g shardId (infos1 ! i)) [0..<length infos]" by auto
  with r show "server_ok N env base rows t" and "same_files s t"
    and "infos' = map (\<lambda>info. answer g (routed env base rows (LocalServerId s) (verify_info requirement info))) infos"
    by (auto intro!: nth_equalityI simp: answer_def split: option.split)
qed

subsection \<open>stat and open\<close>

definition stat_answer :: "('d, 'q, 'i, 'h) meta_env \<Rightarrow> ('d, 'q, 'i, 'h, 'm) meta_state_scheme \<Rightarrow> int \<Rightarrow>
    MetaProcessInfo \<Rightarrow> MetaProcessInfo" where
  "stat_answer env s shardId info = (case inode_lookup env shardId (inode_key_of info) s of
     None \<Rightarrow> info\<lparr>errorCode := FILE_NOT_EXISTS\<rparr> | Some row \<Rightarrow> read_row row info)"

definition open_answer :: "('d, 'q, 'i, 'h) meta_env \<Rightarrow> ('d, 'q, 'i, 'h, 'm) meta_state_scheme \<Rightarrow> int \<Rightarrow>
    MetaProcessInfo \<Rightarrow> MetaProcessInfo" where
  "open_answer env s shardId info =
    (if errorCode info \<noteq> SUCCESS then info
     else (let info = info\<lparr>info_st_dev := 0, info_st_uid := 0, info_st_gid := 0, info_st_rdev := 0,
         info_st_blksize := 0, info_st_blocks := 0, info_st_atim := 0, info_st_mtim := 0, info_st_ctim := 0, info_etag := ''''\<rparr> in
       case inode_lookup env shardId (inode_key_of info) s of
         None \<Rightarrow> info\<lparr>errorCode := FILE_NOT_EXISTS\<rparr>
       | Some row \<Rightarrow> info\<lparr>info_inodeId := st_ino row, info_st_size := st_size row, info_st_nlink := st_nlink row,
           info_st_mode := st_mode row, node_id := primary_nodeid row\<rparr>))"

lemma stat_step_answer:
  "same_files s t \<Longrightarrow> stat_step env shardId info t = Some (Inr (stat_answer env s shardId info), t)"
  by (simp add: stat_step_def stat_answer_def same_files_lookup return_def)

lemma open_step_answer:
  assumes "same_files s t"
  shows "open_step env shardId info t = Some (Inr (open_answer env s shardId info), t)"
  by (cases "inode_lookup env shardId (inode_key_of info) s")
    (simp_all add: open_step_def open_answer_def bindM_Some(1) [OF open_search_result] same_files_lookup [OF assms]
      return_def read_attributes_def inode_key_of_def Let_def)

text \<open>
  C7. \<open>stat\<close> and \<open>open\<close> of a batch answer every request by itself.  Whatever order the sort and
  the hash table choose, the answer to a request is determined by its path, the committed
  directories, the shard map and the rows of the inode tables: a path error, \<open>PATH_IS_INVALID\<close>
  when a directory of the path is missing, \<open>WRONG_WORKER\<close> when the shard of the key belongs to
  another server, \<open>FILE_NOT_EXISTS\<close> when the shard has no row for the key, and otherwise the
  attributes of this row.  The inode tables are left as they are.
\<close>

theorem FalconStatHandle_answers:
  assumes "env_ok env" and "batch_ok benv" and "server_ok N env base rows s"
  shows "(FalconStatHandle env benv infos s = Some (Inr infos', t) \<longrightarrow>
      infos' = map (\<lambda>info. answer (stat_answer env s) (routed env base rows (LocalServerId s) (verify_info 0 info))) infos \<and>
      inode_db t = inode_db s) \<and>
    (FalconOpenHandle env benv infos s = Some (Inr infos', t) \<longrightarrow>
      infos' = map (\<lambda>info. answer (open_answer env s) (routed env base rows (LocalServerId s) (verify_info 0 info))) infos \<and>
      inode_db t = inode_db s)"
  using route_then_read [where step = "stat_step env" and g = "stat_answer env s" and requirement = 0 and infos' = infos',
      OF assms stat_step_answer, of infos t]
    route_then_read [where step = "open_step env" and g = "open_answer env s" and requirement = 0 and infos' = infos',
      OF assms open_step_answer, of infos t]
  by (auto simp: FalconStatHandle_def FalconOpenHandle_def same_files_def)

definition batch_sample :: batch_env where
  "batch_sample = \<lparr>pg_qsort = (\<lambda>ps. [0..<length ps]), hash_seq = (\<lambda>gs. gs)\<rparr>"

definition sample_base :: "dir_key \<Rightarrow> u64" where
  "sample_base = (\<lambda>k. id_of (pg_vis pg_alist_ops dir_sample_db k))"

lemma sample_ok:
  "env_ok meta_sample_env" "batch_ok batch_sample"
  "server_ok 0 meta_sample_env sample_base [(1000, 1), (2147483647, 2)] meta_sample"
proof -
  show "env_ok meta_sample_env" by (simp add: env_ok_def meta_sample_env_def path_sample_env_def pg_alist_ok)
  show "batch_ok batch_sample" by (simp add: batch_ok_def batch_sample_def)
  have "parse_ok 0 path_sample_env sample_base meta_sample"
    using path_sample_ok unfolding sample_base_def
    by (simp add: parse_ok_def walk_ok_def hash_ok_def tx_ok_def held_keys_def tree_of_def meta_sample_def path_state.defs)
  then show "server_ok 0 meta_sample_env sample_base [(1000, 1), (2147483647, 2)] meta_sample"
    using meta_sample_clean(2) shard_sample_ok shard_sample_rows
    by (simp add: server_ok_def meta_sample_env_def) (simp add: meta_sample_def path_state.defs)
qed

theorem FalconStatHandle_answers_witness:
  "map_option (map_sum id (map errorCode) \<circ> fst) (FalconStatHandle meta_sample_env batch_sample
     [request ''/f''] meta_sample) = Some (Inr [FILE_NOT_EXISTS]) \<and>
   errorCode (answer (stat_answer meta_sample_env meta_sample) (routed meta_sample_env sample_base
     [(1000, 1), (2147483647, 2)] 1 (verify_info 0 (request ''/f'')))) = FILE_NOT_EXISTS"
proof -
  have run: "map_option (map_sum id (map errorCode) \<circ> fst) (FalconStatHandle meta_sample_env batch_sample
     [request ''/f''] meta_sample) = Some (Inr [FILE_NOT_EXISTS])"
    by code_simp
  then obtain infos t where res: "FalconStatHandle meta_sample_env batch_sample [request ''/f''] meta_sample = Some (Inr infos, t)"
    and codes: "map errorCode infos = [FILE_NOT_EXISTS]"
    by (rule run_valueE)
  have "LocalServerId meta_sample = 1"
    by (simp add: meta_sample_def path_state.defs path_sample_def TransactionLevelPathParseReset_def dir_state.defs)
  with FalconStatHandle_answers [OF sample_ok, of "[request ''/f'']" infos t] res codes run show ?thesis by auto
qed

end
