(* ===== verification/Meta_Readdir.thy ===== *)
theory Meta_Readdir
  imports Meta_Files "HOL-Library.Sublist"
begin

text \<open>
  Directory listings: the pages that \<open>FalconReadDirHandle\<close> hands out, one call after the other,
  are the entries of the directory on this server, each once.
\<close>

subsection \<open>Scans of a sorted table\<close>

lemma filter_split_sorted:
  fixes xs :: "('k::linorder \<times> 'v) list"
  assumes "sorted (map fst xs)" and "\<And>k k'. P k \<Longrightarrow> Q k' \<Longrightarrow> k < k'" and "\<And>k. R k \<longleftrightarrow> P k \<or> Q k"
  shows "filter (\<lambda>r. R (fst r)) xs = filter (\<lambda>r. P (fst r)) xs @ filter (\<lambda>r. Q (fst r)) xs"
  using assms(1)
proof (induction xs)
  case (Cons x xs)
  have "\<not> P (fst y)" if "Q (fst x)" and "y \<in> set xs" for y
    using assms(2) [of "fst y" "fst x"] that Cons.prems by fastforce
  then have "filter (\<lambda>r. P (fst r)) xs = []" if "Q (fst x)" using that by (auto simp: filter_empty_conv)
  moreover have "\<not> (P (fst x) \<and> Q (fst x))" using assms(2) [of "fst x" "fst x"] by auto
  ultimately show ?case using Cons by (auto simp: assms(3))
qed simp

lemma filter_greater_sorted:
  fixes xs :: "('k::linorder \<times> 'v) list"
  assumes "sorted (map fst xs)" and "distinct (map fst xs)" and "q < length xs"
  shows "filter (\<lambda>r. fst (xs ! q) < fst r) xs = drop (Suc q) xs"
  using assms
proof (induction xs arbitrary: q)
  case (Cons x xs)
  have le: "fst x \<le> fst y" "fst x \<noteq> fst y" if "y \<in> set xs" for y using Cons.prems(1,2) that by auto
  show ?case
  proof (cases q)
    case 0
    have "fst x < fst y" if "y \<in> set xs" for y using le [OF that] by simp
    with 0 show ?thesis by (simp add: filter_id_conv)
  next
    case (Suc q')
    then have "fst x \<le> fst (xs ! q')" using Cons.prems(3) by (intro le) simp
    then show ?thesis using Cons Suc by (simp add: not_less)
  qed
qed simp

lemma filter_greater_suffix:
  fixes xs :: "('k::linorder \<times> 'v) list"
  assumes "sorted (map fst xs)" and "distinct (map fst xs)" and "suffix ys xs" and "q < length ys"
  shows "filter (\<lambda>r. fst (ys ! q) < fst r) xs = drop (Suc q) ys"
proof -
  obtain zs where xs: "xs = zs @ ys" using assms(3) by (auto simp: suffix_def)
  then have "filter (\<lambda>r. fst (xs ! (length zs + q)) < fst r) xs = drop (Suc (length zs + q)) xs"
    using assms by (intro filter_greater_sorted) simp_all
  then show ?thesis by (simp add: xs)
qed

lemma filter_greater_is_suffix:
  fixes xs :: "('k::linorder \<times> 'v) list"
  assumes "sorted (map fst xs)"
  shows "suffix (filter (\<lambda>r. K < fst r) xs) xs"
  using assms
proof (induction xs)
  case (Cons x xs)
  then have IH: "suffix (filter (\<lambda>r. K < fst r) xs) xs" by simp
  show ?case
  proof (cases "K < fst x")
    case True
    then have "filter (\<lambda>r. K < fst r) xs = xs" using Cons.prems by (auto simp: filter_id_conv intro: less_le_trans)
    with True show ?thesis by simp
  next
    case False
    with IH show ?thesis by (simp add: suffix_ConsI)
  qed
qed simp

subsection \<open>The three scans of a shard\<close>

definition entry :: "inode_key \<times> inode_row \<Rightarrow> string \<times> u32" where
  "entry r = (key_name (fst r), st_mode (snd r))"

definition dir_key_of :: "u64 \<Rightarrow> string \<Rightarrow> inode_key" where
  "dir_key_of directoryId name = InodeKey (CombineParentIdWithPartId directoryId (HashPartId name)) name"

lemma sint_small: "unat (w :: u64) < 2 ^ 63 \<Longrightarrow> sint w = int (unat w)"
proof -
  assume "unat w < 2 ^ 63"
  then have "int (unat w) < int (2 ^ 63)" by (simp only: of_nat_less_iff)
  then have "uint w < 2 ^ 63" by simp
  moreover have "- (2 ^ 63) \<le> uint w" by (rule order_trans [OF _ uint_ge_0]) simp
  ultimately have "signed_take_bit 63 (uint w) = uint w" by (simp only: signed_take_bit_int_eq_self)
  then show ?thesis by (simp add: sint_uint)
qed

lemma sint_Combine:
  assumes "unat part < 2 ^ 13" and "unat parent < 2 ^ 50"
  shows "sint (CombineParentIdWithPartId parent part) = int (unat parent * 2 ^ 13 + unat part)"
proof -
  have "unat (CombineParentIdWithPartId parent part) = unat parent * 2 ^ 13 + unat part"
    using assms by (intro unat_Combine) simp_all
  moreover have "unat parent * 2 ^ 13 + unat part < 2 ^ 63" using assms by simp
  ultimately show ?thesis using sint_small [of "CombineParentIdWithPartId parent part"] by simp
qed

lemma in_scan_after:
  assumes "unat directoryId < 2 ^ 50"
  shows "in_scan NEW_SHARD directoryId x k \<and> dir_key_of directoryId name < k \<longleftrightarrow>
    in_scan SAME_ID_GREATER_NAME directoryId name k \<or> in_scan GREATER_ID directoryId name k"
proof -
  have mask: "unat (PART_ID_MASK :: u16) = 2 ^ 13 - 1" by (simp add: PART_ID_MASK_def mask_eq_exp_minus_1)
  have hash: "int (unat (HashPartId name)) < int (2 ^ 13)" using unat_HashPartId [of name] by (rule of_nat_less_iff [THEN iffD2])
  have "sint (CombineParentIdWithPartId directoryId 0) \<le> sint (CombineParentIdWithPartId directoryId (HashPartId name))"
    "sint (CombineParentIdWithPartId directoryId (HashPartId name)) \<le> sint (CombineParentIdWithPartId directoryId PART_ID_MASK)"
    using unat_HashPartId [of name] hash assms by (simp_all add: sint_Combine mask)
  moreover have "sint (key_parentid_partid k) = sint (CombineParentIdWithPartId directoryId (HashPartId name)) \<longleftrightarrow>
      key_parentid_partid k = CombineParentIdWithPartId directoryId (HashPartId name)" by (auto intro: signed_word_eqI)
  ultimately show ?thesis by (auto simp: in_scan_def Let_def dir_key_of_def less_inode_key_def)
qed

lemma in_scan_order:
  "in_scan SAME_ID_GREATER_NAME directoryId name k \<Longrightarrow> in_scan GREATER_ID directoryId name k' \<Longrightarrow> k < k'"
  by (auto simp: in_scan_def Let_def less_inode_key_def)

lemma in_scan_NEW: "in_scan NEW_SHARD directoryId x = in_scan NEW_SHARD directoryId y"
  by (simp add: in_scan_def fun_eq_iff)

subsection \<open>One page\<close>

text \<open>What a scan in a given state has still to deliver, in one shard and in the shards from there on.\<close>

definition rest_of :: "('d, 'q, 'i, 'h) meta_env \<Rightarrow> u64 \<Rightarrow> string \<Rightarrow> ('d, 'q, 'i, 'h, 'm) meta_state_scheme \<Rightarrow>
    StreamSearchState \<Rightarrow> int \<Rightarrow> (inode_key \<times> inode_row) list" where
  "rest_of env directoryId name s st shardId =
    (if st = SAME_ID_GREATER_NAME then scan_shard env shardId (in_scan SAME_ID_GREATER_NAME directoryId name) s else []) @
    scan_shard env shardId (in_scan (if st = NEW_SHARD then NEW_SHARD else GREATER_ID) directoryId name) s"

fun remaining :: "('d, 'q, 'i, 'h) meta_env \<Rightarrow> u64 \<Rightarrow> string \<Rightarrow> ('d, 'q, 'i, 'h, 'm) meta_state_scheme \<Rightarrow>
    StreamSearchState \<Rightarrow> (int \<times> int) list \<Rightarrow> (string \<times> u32) list" where
  "remaining env directoryId name s st [] = []"
| "remaining env directoryId name s st ((shardId, workerId) # shards) =
    (if workerId \<noteq> LocalServerId s then remaining env directoryId name s st shards
     else map entry (rest_of env directoryId name s st shardId) @ remaining env directoryId name s NEW_SHARD shards)"

lemma scan_shard_fst: "scan_shard env shardId P s = filter (\<lambda>r. P (fst r)) (pg_rows (inode_ops env) (inode_db s shardId))"
  by (simp add: scan_shard_def case_prod_unfold)

lemma scan_sorted:
  assumes "pg_ok (inode_ops env)"
  shows "sorted (map fst (scan_shard env shardId P s))" and "distinct (map fst (scan_shard env shardId P s))"
  using pg_rowsD(1,2) [OF assms, of "inode_db s shardId"]
  by (simp_all add: scan_shard_fst sorted_filter distinct_map_filter)

lemma rest_after:
  assumes "pg_ok (inode_ops env)" and "unat directoryId < 2 ^ 50"
  shows "rest_of env directoryId name s SAME_ID_GREATER_NAME shardId =
    filter (\<lambda>r. dir_key_of directoryId name < fst r) (scan_shard env shardId (in_scan NEW_SHARD directoryId x) s)"
proof -
  have "filter (\<lambda>r. dir_key_of directoryId name < fst r) (scan_shard env shardId (in_scan NEW_SHARD directoryId x) s) =
      filter (\<lambda>r. in_scan NEW_SHARD directoryId x (fst r) \<and> dir_key_of directoryId name < fst r)
        (pg_rows (inode_ops env) (inode_db s shardId))"
    by (simp add: scan_shard_fst conj_commute)
  also have "\<dots> = rest_of env directoryId name s SAME_ID_GREATER_NAME shardId"
    unfolding rest_of_def scan_shard_fst
    using filter_split_sorted [OF pg_rowsD(1) [OF assms(1), of "inode_db s shardId"], of
        "in_scan SAME_ID_GREATER_NAME directoryId name" "in_scan GREATER_ID directoryId name"
        "\<lambda>k. in_scan NEW_SHARD directoryId x k \<and> dir_key_of directoryId name < k"]
      in_scan_order in_scan_after [OF assms(2)] by simp
  finally show ?thesis ..
qed

lemma rest_suffix:
  assumes "pg_ok (inode_ops env)" and "unat directoryId < 2 ^ 50"
  shows "suffix (rest_of env directoryId name s st shardId) (scan_shard env shardId (in_scan NEW_SHARD directoryId x) s)"
proof -
  let ?all = "scan_shard env shardId (in_scan NEW_SHARD directoryId x) s"
  have same: "suffix (rest_of env directoryId name s SAME_ID_GREATER_NAME shardId) ?all"
    unfolding rest_after [OF assms, of name s shardId x]
    by (rule filter_greater_is_suffix) (rule scan_sorted(1) [OF assms(1)])
  show ?thesis
  proof (cases st)
    case GREATER_ID
    then have "suffix (rest_of env directoryId name s st shardId) (rest_of env directoryId name s SAME_ID_GREATER_NAME shardId)"
      by (auto simp: rest_of_def suffix_def)
    with same show ?thesis by (rule suffix_order.trans [rotated])
  next
    case NEW_SHARD
    then show ?thesis using in_scan_NEW [of directoryId name x] by (simp add: rest_of_def)
  qed (use same in simp)
qed

lemma fetch_rows_take:
  assumes "length acc < m"
  shows "fetch_rows (int m) rows acc = acc @ map entry (take (m - length acc) rows)"
  using assms
proof (induction rows arbitrary: acc)
  case (Cons r rows)
  obtain k row where r: "r = (k, row)" by (cases r)
  show ?case
  proof (cases "Suc (length acc) \<ge> m")
    case True
    then have "m - length acc = 1" using Cons.prems by simp
    with True show ?thesis by (simp add: r entry_def Let_def)
  next
    case False
    then have "m - length acc = Suc (m - Suc (length acc))" by simp
    with False Cons.IH [of "acc @ [entry r]"] show ?thesis by (simp add: r entry_def Let_def)
  qed
qed simp

text \<open>
  Where the next page starts: at the shard and behind the key of the last row of this page.
\<close>

definition page_end :: "('d, 'q, 'i, 'h) meta_env \<Rightarrow> u64 \<Rightarrow> ('d, 'q, 'i, 'h, 'm) meta_state_scheme \<Rightarrow>
    (int \<times> int) list \<Rightarrow> nat \<Rightarrow> string \<times> u32 \<Rightarrow> (string \<times> u32) list \<Rightarrow> bool" where
  "page_end env directoryId s shards j e rest \<longleftrightarrow> j < length shards \<and> snd (shards ! j) = LocalServerId s \<and>
    (\<exists>r\<in>set (scan_shard env (fst (shards ! j)) (in_scan NEW_SHARD directoryId '''') s). e = entry r \<and>
      rest = map entry (filter (\<lambda>r'. fst r < fst r') (scan_shard env (fst (shards ! j)) (in_scan NEW_SHARD directoryId '''') s)) @
        remaining env directoryId '''' s NEW_SHARD (drop (Suc j) shards))"

lemma remaining_NEW: "remaining env directoryId x s NEW_SHARD shards = remaining env directoryId y s NEW_SHARD shards"
  by (induction shards) (auto simp: rest_of_def in_scan_NEW [of directoryId x y])

lemma page_end_Cons [simp]:
  "page_end env directoryId s (x # shards) (Suc j) e rest = page_end env directoryId s shards j e rest"
  by (simp add: page_end_def)

text \<open>The page is filled inside the first shard.\<close>

lemma page_end_here:
  assumes "pg_ok (inode_ops env)" and "unat directoryId < 2 ^ 50"
    and "rest_of env directoryId name s st shardId = rows @ others" and "q < length rows"
  shows "page_end env directoryId s ((shardId, LocalServerId s) # shards) 0 (entry (rows ! q))
    (drop (Suc q) (map entry (rest_of env directoryId name s st shardId) @ remaining env directoryId name s NEW_SHARD shards))"
proof -
  let ?rest = "rest_of env directoryId name s st shardId"
  let ?all = "scan_shard env shardId (in_scan NEW_SHARD directoryId '''') s"
  have suffix: "suffix ?rest ?all" by (rule rest_suffix [OF assms(1,2)])
  have q: "q < length ?rest" "?rest ! q = rows ! q" using assms(3,4) by (simp_all add: nth_append)
  have "rows ! q \<in> set ?all" using suffix q by (metis nth_mem set_mono_suffix subsetD)
  moreover from filter_greater_suffix [OF scan_sorted [OF assms(1)] suffix q(1)]
  have "filter (\<lambda>r. fst (rows ! q) < fst r) ?all = drop (Suc q) ?rest" unfolding q(2) .
  moreover have "drop (Suc q) (map entry ?rest @ remaining env directoryId name s NEW_SHARD shards) =
      map entry (drop (Suc q) ?rest) @ remaining env directoryId '''' s NEW_SHARD shards"
    using q(1) by (simp add: drop_map remaining_NEW [of env directoryId name s shards "''''"])
  ultimately show ?thesis by (auto simp: page_end_def)
qed

text \<open>What a loop from shard \<open>i\<close> on, with \<open>acc\<close> read already, has to deliver of \<open>rest\<close>.\<close>

definition page_ok :: "('d, 'q, 'i, 'h) meta_env \<Rightarrow> u64 \<Rightarrow> ('d, 'q, 'i, 'h, 'm) meta_state_scheme \<Rightarrow>
    (int \<times> int) list \<Rightarrow> int \<Rightarrow> nat \<Rightarrow> (string \<times> u32) list \<Rightarrow> (string \<times> u32) list \<Rightarrow> int \<times> (string \<times> u32) list \<Rightarrow> bool" where
  "page_ok env directoryId s shards i m acc rest r \<longleftrightarrow> snd r = acc @ take (m - length acc) rest \<and>
    (m \<le> length (snd r) \<longrightarrow>
      (\<exists>j. fst r = i + int j \<and> page_end env directoryId s shards j (last (snd r)) (drop (m - length acc) rest)))"

lemma page_ok_skip:
  assumes "page_ok env directoryId s shards (i + 1) m acc rest r"
  shows "page_ok env directoryId s (x # shards) i m acc rest r"
  unfolding page_ok_def
proof (intro conjI impI)
  show "snd r = acc @ take (m - length acc) rest" using assms by (simp add: page_ok_def)
  assume "m \<le> length (snd r)"
  with assms obtain j where "fst r = i + 1 + int j" "page_end env directoryId s shards j (last (snd r)) (drop (m - length acc) rest)"
    by (auto simp: page_ok_def)
  then show "\<exists>j. fst r = i + int j \<and> page_end env directoryId s (x # shards) j (last (snd r)) (drop (m - length acc) rest)"
    by (intro exI [of _ "Suc j"]) simp
qed

lemma page_ok_append:
  assumes "page_ok env directoryId s shards i m (acc @ es) rest r" and "length (acc @ es) < m"
  shows "page_ok env directoryId s shards i m acc (es @ rest) r"
  using assms by (auto simp: page_ok_def)

lemma page_ok_here:
  assumes "pg_ok (inode_ops env)" and "unat directoryId < 2 ^ 50" and "length acc < m"
    and "rest_of env directoryId name s st shardId = rows @ others" and "m \<le> length acc + length rows"
  shows "page_ok env directoryId s ((shardId, LocalServerId s) # shards) i m acc
    (remaining env directoryId name s st ((shardId, LocalServerId s) # shards)) (i, acc @ map entry (take (m - length acc) rows))"
proof -
  obtain q where q: "m - length acc = Suc q" using assms(3) by (metis Suc_diff_Suc)
  then have len: "q < length rows" using assms(5) by simp
  have "last (acc @ map entry (take (Suc q) rows)) = entry (rows ! q)"
    using len by (simp add: take_Suc_conv_app_nth)
  moreover have "take (Suc q) (remaining env directoryId name s st ((shardId, LocalServerId s) # shards)) = map entry (take (Suc q) rows)"
    using len by (simp add: assms(4) take_map)
  moreover note page_end_here [OF assms(1,2,4) len, of shards]
  ultimately show ?thesis unfolding page_ok_def q by (auto intro!: exI [of _ 0])
qed

lemma read_shards_page:
  assumes "pg_ok (inode_ops env)" and "unat directoryId < 2 ^ 50" and "length acc < m"
  shows "page_ok env directoryId s shards i m acc (remaining env directoryId name s st shards)
    (read_shards env directoryId name (int m) shards st i acc s)"
  using assms
proof (induction env directoryId name "int m" shards st i acc s rule: read_shards.induct)
  case (1 env directoryId name st i acc s)
  then show ?case by (simp add: page_ok_def)
next
  case (2 env directoryId name shardId workerId shards st i acc s)
  let ?rows = "scan_shard env shardId (in_scan st directoryId name) s"
  let ?acc = "fetch_rows (int m) ?rows acc"
  note prems = 2(4-6)
  have acc: "?acc = acc @ map entry (take (m - length acc) ?rows)" using prems(3) by (rule fetch_rows_take)
  show ?case
  proof (cases "workerId = LocalServerId s")
    case False
    with 2(1) [OF False prems] show ?thesis by (subst read_shards.simps(2)) (simp add: page_ok_skip del: read_shards.simps)
  next
    case local: True
    show ?thesis
    proof (cases "m \<le> length acc + length ?rows")
      case True
      then have full: "int m \<le> int (length ?acc)" unfolding acc by simp
      have "rest_of env directoryId name s st shardId = ?rows @
          (if st = SAME_ID_GREATER_NAME then scan_shard env shardId (in_scan GREATER_ID directoryId name) s else [])"
        by (cases st) (simp_all add: rest_of_def)
      note here = page_ok_here [OF prems this True, of shards i]
      have "read_shards env directoryId name (int m) ((shardId, workerId) # shards) st i acc s = (i, ?acc)"
        by (subst read_shards.simps(2)) (simp only: Let_def full local if_True not_True_eq_False if_False simp_thms)
      with here show ?thesis unfolding acc local by (simp only:)
    next
      case False
      then have part: "?acc = acc @ map entry ?rows" and len: "length (acc @ map entry ?rows) < m" unfolding acc by simp_all
      then have room: "\<not> int m \<le> int (length ?acc)" by simp
      show ?thesis
      proof (cases "state_after st = NEW_SHARD")
        case True
        have rest: "remaining env directoryId name s st ((shardId, workerId) # shards) =
            map entry ?rows @ remaining env directoryId name s NEW_SHARD shards"
          using True local by (cases st) (simp_all add: rest_of_def state_after_def)
        have "page_ok env directoryId s shards (i + 1) m (acc @ map entry ?rows) (remaining env directoryId name s NEW_SHARD shards)
            (read_shards env directoryId name (int m) shards NEW_SHARD (i + 1) (acc @ map entry ?rows) s)"
          using 2(2) [OF _ refl room True prems(1,2)] local len unfolding part by (simp del: read_shards.simps)
        from page_ok_skip [OF page_ok_append [OF this len], of "(shardId, workerId)"] True local room show ?thesis
          unfolding rest by (subst read_shards.simps(2)) (simp add: part Let_def del: read_shards.simps)
      next
        case False
        then have st: "st = SAME_ID_GREATER_NAME" "state_after st = GREATER_ID" by (cases st; simp add: state_after_def)+
        have rest: "remaining env directoryId name s st ((shardId, workerId) # shards) =
            map entry ?rows @ remaining env directoryId name s GREATER_ID ((shardId, workerId) # shards)"
          using st local by (simp add: rest_of_def)
        have "page_ok env directoryId s ((shardId, workerId) # shards) i m (acc @ map entry ?rows)
            (remaining env directoryId name s GREATER_ID ((shardId, workerId) # shards))
            (read_shards env directoryId name (int m) ((shardId, workerId) # shards) GREATER_ID i (acc @ map entry ?rows) s)"
          using 2(3) [OF _ refl room False prems(1,2)] local len st unfolding part by (simp del: read_shards.simps)
        from page_ok_append [OF this len] False st local room show ?thesis
          unfolding rest by (subst read_shards.simps(2)) (simp add: part [unfolded st(1)] Let_def del: read_shards.simps)
      qed
    qed
  qed
qed

subsection \<open>Paths of directories\<close>

lemma directory_flag_bits [simp]:
  "has_flag directory_flag PATH_PARSE_FLAG_TARGET_IS_DIRECTORY"
  "has_flag directory_flag PATH_PARSE_FLAG_ACQUIRE_SHARED_LOCK_IF_TARGET_IS_DIRECTORY"
  "\<not> has_flag directory_flag PATH_PARSE_FLAG_TARGET_TO_BE_CREATED"
  "\<not> has_flag directory_flag PATH_PARSE_FLAG_TARGET_TO_BE_DELETED"
  "\<not> has_flag directory_flag PATH_PARSE_FLAG_NOT_ROOT"
  by (simp_all add: has_flag_def directory_flag_def PATH_PARSE_FLAG_TARGET_IS_DIRECTORY_def
      PATH_PARSE_FLAG_ACQUIRE_SHARED_LOCK_IF_TARGET_IS_DIRECTORY_def PATH_PARSE_FLAG_TARGET_TO_BE_CREATED_def
      PATH_PARSE_FLAG_TARGET_TO_BE_DELETED_def PATH_PARSE_FLAG_NOT_ROOT_def)

definition dir_found :: "(dir_key \<Rightarrow> u64) \<Rightarrow> string \<Rightarrow> u64 \<Rightarrow> PathParseResult \<Rightarrow> bool" where
  "dir_found base name parentId res \<longleftrightarrow>
    (if base (DirKey parentId name) = DIR_HASH_TABLE_PATH_NOT_EXIST then pp_error res = PATH_NOT_EXISTS
     else pp_error res = SUCCESS \<and> pp_inodeId_out res = Some (base (DirKey parentId name)))"

lemma directory_target_ok:
  assumes "walk_ok N env base s" and "tree_ok base (held_keys s) cur"
    and "path_target env directory_flag (Some x) name cur s = Some (Inr (res, cur'), t)"
  shows "walk_ok N env base t \<and> tree_ok base (held_keys t) cur' \<and> pp_inodeId cur' = pp_inodeId cur \<and>
    lockAcquired cur' = lockAcquired cur \<and> held_keys s \<subseteq> held_keys t \<and> dir_found base name (pp_inodeId cur) res"
proof (cases "rbt_find cur name")
  case (Some node)
  note node = tree_ok_find [OF assms(2) Some]
  have "tree_ok base (held_keys s) (rbt_insert name node cur)" using node assms(2) by (intro tree_ok_insert) auto
  with assms(1,3) Some node show ?thesis
    by (auto simp: path_target_def target_shared_def Let_def return_def reached_def dir_found_def rbt_insert_def)
next
  case None
  with assms(3) obtain found u where run: "search_dir env (pp_inodeId cur) name DIR_LOCK_SHARED s = Some (Inr found, u)"
    and rest: "(if found = DIR_HASH_TABLE_PATH_NOT_EXIST then return (reached cur name PATH_NOT_EXISTS (Some x), cur)
      else return (reached cur name SUCCESS (Some found), rbt_insert name (PPNode found PP_SHARED []) cur)) u = Some (Inr (res, cur'), t)"
    by (auto simp: path_target_def target_shared_def Let_def elim!: bindM_Inr_E split: if_splits)
  note sd = search_dir_ok [OF assms(1) run]
  have found: "found = base (DirKey (pp_inodeId cur) name)" and key: "DirKey (pp_inodeId cur) name \<in> held_keys u"
    using sd(5,6) by auto
  have tree: "tree_ok base (held_keys u) cur" using assms(2) sd(2) by (rule tree_ok_mono)
  show ?thesis
  proof (cases "found = DIR_HASH_TABLE_PATH_NOT_EXIST")
    case True
    with rest found sd(1,2) tree show ?thesis by (auto simp: return_def reached_def dir_found_def)
  next
    case False
    then have "tree_ok base (held_keys u) (rbt_insert name (PPNode found PP_SHARED []) cur)"
      using tree key found by (intro tree_ok_insert) auto
    with False rest found sd(1,2) show ?thesis by (auto simp: return_def reached_def dir_found_def rbt_insert_def)
  qed
qed

lemma resolve_append:
  "resolve base parentId (xs @ ys) = Option.bind (resolve base parentId xs) (\<lambda>i. resolve base i ys)"
  by (induction xs arbitrary: parentId) (simp_all add: Let_def)


lemma PathParseTreeInsert_dir_ok:
  assumes "parse_ok N env base s" and "PathParseTreeInsert env p directory_flag (Some x) s = Some (Inr res, t)"
  shows "parse_ok N env base t \<and>
    (case resolve base 0 (path_components p) of
       None \<Rightarrow> pp_error res \<in> {PATH_IS_INVALID, PATH_NOT_EXISTS}
     | Some inodeId \<Rightarrow> pp_error res = SUCCESS \<and> pp_inodeId_out res = Some inodeId)"
proof -
  let ?names = "path_components p"
  from assms(2) obtain root' u where run:
      "path_walk env (path_target env directory_flag (Some x) (last ?names)) (butlast ?names) (tree_of s) s = Some (Inr (res, root'), u)"
    and t: "t = u\<lparr>TransactionLevelPathParseRoot := Some root'\<rparr>"
    by (auto simp: PathParseTreeInsert_def tree_of_def Let_def return_def modify_def elim!: bindM_Inr_E split: if_splits)
  have ok: "walk_ok N env base s" "tree_ok base (held_keys s) (tree_of s)" "pp_inodeId (tree_of s) = 0"
    using assms(1) by (simp_all add: parse_ok_def)
  have walk: "walk_ok N env base u \<and> tree_ok base (held_keys u) root' \<and> pp_inodeId root' = pp_inodeId (tree_of s) \<and>
    lockAcquired root' = lockAcquired (tree_of s) \<and> held_keys s \<subseteq> held_keys u \<and>
    (case resolve base (pp_inodeId (tree_of s)) (butlast ?names) of
       None \<Rightarrow> res = failed PATH_IS_INVALID
     | Some parentId \<Rightarrow> dir_found base (last ?names) parentId res \<and>
        set (path_keys base (pp_inodeId (tree_of s)) (butlast ?names)) \<subseteq> held_keys u)"
    using ok(1,2) run
    by (rule path_walk_ok [where P = "dir_found base (last ?names)"]) (rule directory_target_ok)
  have "?names = butlast ?names @ [last ?names]" by (simp add: path_components_def)
  then have "resolve base 0 ?names = Option.bind (resolve base 0 (butlast ?names)) (\<lambda>i. resolve base i [last ?names])"
    by (metis resolve_append)
  with walk ok(3) show ?thesis
    by (auto simp: t parse_ok_def walk_ok_more tree_of_def failed_def dir_found_def Let_def split: option.splits if_splits)
qed

lemma directory_target_beyond:
  "keeps (\<lambda>s. walk_ok N env base s \<and> beyond s = c) (target_shared env directory_flag (Some x) name cur)"
  by (auto simp: target_shared_def Let_def intro!: keeps_bindM search_dir_beyond split: option.splits)

lemma parse_dir_ok:
  assumes "server_ok N env base rows s"
    and "PathParseTreeInsert (env_path env) p directory_flag (Some x) s = Some (Inr res, t)"
  shows "server_ok N env base rows t" and "same_files s t"
    and "case resolve base 0 (path_components p) of
       None \<Rightarrow> pp_error res \<in> {PATH_IS_INVALID, PATH_NOT_EXISTS}
     | Some inodeId \<Rightarrow> pp_error res = SUCCESS \<and> pp_inodeId_out res = Some inodeId"
proof -
  have parse: "parse_ok N (env_path env) base s" using assms(1) by (simp add: server_ok_def)
  note ok = PathParseTreeInsert_dir_ok [OF this assms(2)]
  then show "case resolve base 0 (path_components p) of
       None \<Rightarrow> pp_error res \<in> {PATH_IS_INVALID, PATH_NOT_EXISTS}
     | Some inodeId \<Rightarrow> pp_error res = SUCCESS \<and> pp_inodeId_out res = Some inodeId" ..
  have "keeps (\<lambda>u. walk_ok N (env_path env) base u \<and> beyond u = beyond s) (PathParseTreeInsert (env_path env) p directory_flag (Some x))"
    unfolding PathParseTreeInsert_def Let_def
    by (auto intro!: keeps_bindM keeps_modify path_walk_beyond directory_target_beyond simp: walk_ok_more path_target_def)
  from keepsD [OF this _ assms(2)] parse have "beyond t = beyond s" by (simp add: parse_ok_def)
  then have "inode_db t = inode_db s \<and> shard_map t = shard_map s" "LocalServerId t = LocalServerId s"
    using same_files_more [of t s] by (simp_all add: beyond_def)
  with ok assms(1) show "server_ok N env base rows t" and "same_files s t"
    by (simp_all add: server_ok_def same_files_def inodes_clean_def)
qed

subsection \<open>The listing of a directory\<close>

text \<open>
  The reference: the entries of the directory in the shards of this server, in the order of the
  shard map and inside a shard in the order of the index.
\<close>

definition listing :: "('d, 'q, 'i, 'h) meta_env \<Rightarrow> (int \<times> int) list \<Rightarrow> u64 \<Rightarrow> ('d, 'q, 'i, 'h, 'm) meta_state_scheme \<Rightarrow>
    (string \<times> u32) list" where
  "listing env rows directoryId s = concat (map (\<lambda>(shardId, workerId).
     if workerId \<noteq> LocalServerId s then []
     else map entry (filter (\<lambda>r. fst r = dir_key_of directoryId (key_name (fst r)))
       (pg_rows (inode_ops env) (inode_db s shardId)))) rows)"

text \<open>Every row is stored under the key that its directory and its name give.\<close>

definition inodes_keyed :: "('d, 'q, 'i, 'h) meta_env \<Rightarrow> ('d, 'q, 'i, 'h, 'm) meta_state_scheme \<Rightarrow> bool" where
  "inodes_keyed env s \<longleftrightarrow> (\<forall>shardId. \<forall>r\<in>set (pg_rows (inode_ops env) (inode_db s shardId)).
     \<exists>directoryId. unat directoryId < 2 ^ 50 \<and> fst r = dir_key_of directoryId (key_name (fst r)))"

lemma in_scan_dir_key:
  assumes "unat directoryId < 2 ^ 50" and "unat other < 2 ^ 50"
  shows "in_scan NEW_SHARD directoryId x (dir_key_of other name) \<longleftrightarrow> other = directoryId"
proof -
  have mask: "unat (PART_ID_MASK :: u16) = 2 ^ 13 - 1" by (simp add: PART_ID_MASK_def mask_eq_exp_minus_1)
  have hash: "unat (HashPartId name) < 2 ^ 13" by (rule unat_HashPartId)
  have "unat directoryId * 2 ^ 13 \<le> unat other * 2 ^ 13 + unat (HashPartId name) \<and>
      unat other * 2 ^ 13 + unat (HashPartId name) \<le> unat directoryId * 2 ^ 13 + (2 ^ 13 - 1) \<longleftrightarrow> unat other = unat directoryId"
    using hash by (auto simp: nat_less_le)
  then have "int (unat directoryId * 2 ^ 13) \<le> int (unat other * 2 ^ 13 + unat (HashPartId name)) \<and>
      int (unat other * 2 ^ 13 + unat (HashPartId name)) \<le> int (unat directoryId * 2 ^ 13 + (2 ^ 13 - 1)) \<longleftrightarrow> unat other = unat directoryId"
    by (simp only: of_nat_le_iff)
  then show ?thesis
    using hash assms sint_Combine [of 0 directoryId] sint_Combine [of PART_ID_MASK directoryId]
      sint_Combine [of "HashPartId name" other]
    by (simp add: in_scan_def Let_def dir_key_of_def mask word_unat_eq_iff)
qed

lemma scan_keyed:
  assumes "inodes_keyed env s" and "unat directoryId < 2 ^ 50"
  shows "scan_shard env shardId (in_scan NEW_SHARD directoryId x) s =
    filter (\<lambda>r. fst r = dir_key_of directoryId (key_name (fst r))) (pg_rows (inode_ops env) (inode_db s shardId))"
  unfolding scan_shard_fst
proof (rule filter_cong [OF refl])
  fix r assume "r \<in> set (pg_rows (inode_ops env) (inode_db s shardId))"
  with assms(1) obtain other where "unat other < 2 ^ 50" "fst r = dir_key_of other (key_name (fst r))"
    by (auto simp: inodes_keyed_def)
  with in_scan_dir_key [OF assms(2), of other] in_scan_dir_key [OF assms(2,2)]
  show "in_scan NEW_SHARD directoryId x (fst r) = (fst r = dir_key_of directoryId (key_name (fst r)))" by metis
qed

lemma remaining_listing:
  assumes "inodes_keyed env s" and "unat directoryId < 2 ^ 50"
  shows "remaining env directoryId x s NEW_SHARD rows = listing env rows directoryId s"
  by (induction rows) (auto simp: listing_def rest_of_def scan_keyed [OF assms])

lemma page_next:
  assumes "pg_ok (inode_ops env)" and "inodes_keyed env s" and "unat directoryId < 2 ^ 50"
    and "page_end env directoryId s shards j e rest"
  shows "remaining env directoryId (fst e) s SAME_ID_GREATER_NAME (drop j shards) = rest"
proof -
  obtain shardId workerId where shard: "shards ! j = (shardId, workerId)" by (cases "shards ! j")
  let ?all = "scan_shard env shardId (in_scan NEW_SHARD directoryId '''') s"
  from assms(4) shard obtain r where r: "r \<in> set ?all" "e = entry r" and j: "j < length shards" "workerId = LocalServerId s"
    and rest: "rest = map entry (filter (\<lambda>r'. fst r < fst r') ?all) @ remaining env directoryId '''' s NEW_SHARD (drop (Suc j) shards)"
    by (auto simp: page_end_def)
  have "fst r = dir_key_of directoryId (fst e)" using r unfolding scan_keyed [OF assms(2,3)] by (simp add: entry_def)
  with rest_after [OF assms(1,3), of "fst e" s shardId "''''"]
  have "rest_of env directoryId (fst e) s SAME_ID_GREATER_NAME shardId = filter (\<lambda>r'. fst r < fst r') ?all" by simp
  moreover have "drop j shards = (shardId, workerId) # drop (Suc j) shards" using j(1) shard by (metis Cons_nth_drop_Suc)
  ultimately show ?thesis
    using j(2) rest remaining_NEW [of env directoryId "fst e" s "drop (Suc j) shards" "''''"] by simp
qed

lemma remaining_same_files:
  assumes "same_files s t"
  shows "remaining env directoryId x t st shards = remaining env directoryId x s st shards"
proof -
  have "scan_shard env shardId P t = scan_shard env shardId P s" for shardId P
    using assms by (simp add: same_files_def scan_shard_def)
  with assms show ?thesis
    by (induction shards arbitrary: st) (auto simp: rest_of_def same_files_def)
qed

subsection \<open>The handler, page after page\<close>

definition page_size :: "MetaProcessInfo \<Rightarrow> nat" where
  "page_size info = nat (if readDirMaxReadCount info = - 1 then INT32_MAX else readDirMaxReadCount info)"

text \<open>What is still to come when the request \<open>info\<close> is sent.\<close>

definition to_come :: "('d, 'q, 'i, 'h) meta_env \<Rightarrow> (int \<times> int) list \<Rightarrow> u64 \<Rightarrow> MetaProcessInfo \<Rightarrow>
    ('d, 'q, 'i, 'h, 'm) meta_state_scheme \<Rightarrow> (string \<times> u32) list" where
  "to_come env rows directoryId info s =
    (if readDirLastShardIndex info = - 1 then listing env rows directoryId s
     else remaining env directoryId (the (readDirLastFileName info)) s SAME_ID_GREATER_NAME
       (drop (nat (readDirLastShardIndex info)) rows))"

lemma FalconReadDirHandle_page:
  assumes "env_ok env" and "server_ok N env base rows s" and "inodes_keyed env s"
    and "resolve base 0 (path_components (path info)) = Some directoryId" and "unat directoryId < 2 ^ 50"
    and "0 < page_size info" and "- 1 \<le> readDirLastShardIndex info"
    and "PathParseTreeInsert (env_path env) (path info) directory_flag (Some 0) s = Some (Inr res, u)"
  obtains info' t where "FalconReadDirHandle env info s = Some (Inr info', t)" and "server_ok N env base rows t" and "same_files s t"
    and "path info' = path info" and "page_size info' = page_size info" and "- 1 \<le> readDirLastShardIndex info'"
    and "errorCode info' = SUCCESS"
    and "readDirResultList info' = take (page_size info) (to_come env rows directoryId info s)"
    and "readDirLastShardIndex info' = - 1 \<longleftrightarrow> length (to_come env rows directoryId info s) < page_size info"
    and "readDirLastShardIndex info' \<noteq> - 1 \<Longrightarrow>
      to_come env rows directoryId info' s = drop (page_size info) (to_come env rows directoryId info s)"
proof -
  let ?m = "page_size info" and ?first = "readDirLastShardIndex info = - 1"
  let ?start = "if ?first then 0 else readDirLastShardIndex info"
  let ?st = "if ?first then NEW_SHARD else SAME_ID_GREATER_NAME" and ?name = "the (readDirLastFileName info)"
  have ok: "pg_ok (inode_ops env)" using assms(1) by (simp add: env_ok_def)
  note parse = parse_dir_ok [OF assms(2,8)]
  have res: "pp_error res = SUCCESS" "pp_inodeId_out res = Some directoryId" using parse(3) assms(4) by simp_all
  obtain t where data: "shard_table_data env u = Some (Inr rows, t)" and t: "server_ok N env base rows t" "same_files u t"
    using shard_table_data_ok [OF parse(1)] .
  have same: "same_files s t" using parse(2) t(2) by (rule same_files_trans)
  have keyed: "inodes_keyed env t" using assms(3) same by (simp add: inodes_keyed_def same_files_def)
  define r where "r = read_shards env directoryId ?name (int ?m) (drop (nat ?start) rows) ?st ?start [] t"
  have todo: "to_come env rows directoryId info s = remaining env directoryId ?name t ?st (drop (nat ?start) rows)"
    using remaining_listing [OF assms(3,5), of ?name rows] remaining_same_files [OF same] by (simp add: to_come_def)
  have page: "page_ok env directoryId t (drop (nat ?start) rows) ?start ?m [] (to_come env rows directoryId info s) r"
    unfolding r_def todo using ok assms(5,6) by (intro read_shards_page) simp_all
  then have list: "snd r = take ?m (to_come env rows directoryId info s)" by (simp add: page_ok_def)
  have m: "(if readDirMaxReadCount info = - 1 then INT32_MAX else readDirMaxReadCount info) = int ?m"
    using assms(6) by (simp add: page_size_def INT32_MAX_def)
  let ?last = "info\<lparr>readDirLastShardIndex := - 1, readDirLastFileName := None, readDirResultList := snd r, errorCode := SUCCESS\<rparr>"
  let ?more = "info\<lparr>readDirLastShardIndex := fst r, readDirLastFileName := Some (fst (last (snd r))),
       readDirResultList := snd r, errorCode := SUCCESS\<rparr>"
  have run: "FalconReadDirHandle env info s = Some (Inr (if length (snd r) < ?m then ?last else ?more), t)"
  proof -
    have "snd r \<noteq> []" if "\<not> length (snd r) < ?m" using that assms(6) by auto
    then show ?thesis
      using m unfolding FalconReadDirHandle_def Let_def
      by (simp add: parse_or_raise_def bindM_def gets_def return_def assms(8) data res require_def
          r_def [symmetric] case_prod_unfold)
  qed
  show ?thesis
  proof (cases "length (snd r) < ?m")
    case True
    with run t(1) same list show ?thesis by (intro that [of ?last t]) (simp_all add: page_size_def)
  next
    case False
    with page obtain j where j: "fst r = ?start + int j"
      "page_end env directoryId t (drop (nat ?start) rows) j (last (snd r)) (drop ?m (to_come env rows directoryId info s))"
      by (auto simp: page_ok_def)
    have "0 \<le> ?start" using assms(7) by simp
    then have "drop j (drop (nat ?start) rows) = drop (nat (fst r)) rows" and "0 \<le> fst r"
      unfolding j(1) by (simp_all add: nat_add_distrib add.commute)
    with page_next [OF ok keyed assms(5) j(2)]
    have "to_come env rows directoryId ?more s = drop ?m (to_come env rows directoryId info s)"
      by (simp add: to_come_def remaining_same_files [OF same])
    with False run t(1) same list \<open>0 \<le> fst r\<close> show ?thesis by (intro that [of ?more t]) (simp_all add: page_size_def)
  qed
qed

text \<open>
  The calls of a client that continues until the last page: each is a transaction of its own, in
  the state the server has then.
\<close>

primrec readdir_all :: "('d, 'q, 'i, 'h) meta_env \<Rightarrow> MetaProcessInfo \<Rightarrow> ('d, 'q, 'i, 'h, 'm) meta_state_scheme list \<Rightarrow>
    (string \<times> u32) list option" where
  "readdir_all env info [] = None"
| "readdir_all env info (s # ss) =
    (case FalconReadDirHandle env info s of
       Some (Inr info', _) \<Rightarrow>
         if readDirLastShardIndex info' = - 1 then Some (readDirResultList info')
         else map_option ((@) (readDirResultList info')) (readdir_all env (info'\<lparr>errorCode := SUCCESS\<rparr>) ss)
     | _ \<Rightarrow> None)"

lemma listing_same_files: "same_files s t \<Longrightarrow> listing env rows directoryId t = listing env rows directoryId s"
  by (simp add: listing_def same_files_def cong: if_cong)

lemma to_come_same_files: "same_files s t \<Longrightarrow> to_come env rows directoryId info t = to_come env rows directoryId info s"
  by (simp add: to_come_def listing_same_files remaining_same_files)

lemma readdir_all_to_come:
  assumes "env_ok env" and "inodes_keyed env s0" and "unat directoryId < 2 ^ 50"
    and "\<forall>s\<in>set ss. server_ok N env base rows s \<and> same_files s0 s \<and>
      (\<exists>res t. PathParseTreeInsert (env_path env) p directory_flag (Some 0) s = Some (Inr res, t))"
    and "resolve base 0 (path_components p) = Some directoryId"
    and "path info = p" and "0 < page_size info" and "- 1 \<le> readDirLastShardIndex info"
    and "length (to_come env rows directoryId info s0) < page_size info * length ss"
  shows "readdir_all env info ss = Some (to_come env rows directoryId info s0)"
  using assms(4,6-)
proof (induction ss arbitrary: info)
  case (Cons s ss)
  have s: "server_ok N env base rows s" "same_files s0 s" using Cons.prems(1) by simp_all
  obtain res t where "PathParseTreeInsert (env_path env) (path info) directory_flag (Some 0) s = Some (Inr res, t)"
    using Cons.prems(1,2) by auto
  moreover have "inodes_keyed env s" using assms(2) s(2) by (simp add: inodes_keyed_def same_files_def)
  ultimately obtain info' t where run: "FalconReadDirHandle env info s = Some (Inr info', t)"
    and info': "path info' = p" "page_size info' = page_size info" "- 1 \<le> readDirLastShardIndex info'" "errorCode info' = SUCCESS"
      "readDirResultList info' = take (page_size info) (to_come env rows directoryId info s)"
      "readDirLastShardIndex info' = - 1 \<longleftrightarrow> length (to_come env rows directoryId info s) < page_size info"
      "readDirLastShardIndex info' \<noteq> - 1 \<Longrightarrow>
        to_come env rows directoryId info' s = drop (page_size info) (to_come env rows directoryId info s)"
    using FalconReadDirHandle_page [OF assms(1) s(1) _ _ assms(3) Cons.prems(3,4)] assms(5) Cons.prems(2) by metis
  note todo = to_come_same_files [OF s(2)]
  show ?case
  proof (cases "readDirLastShardIndex info' = - 1")
    case True
    with run info'(5,6) show ?thesis by (simp add: todo)
  next
    case False
    then have rest: "to_come env rows directoryId info' s0 = drop (page_size info) (to_come env rows directoryId info s0)"
      using info'(7) by (simp add: todo)
    have "page_size info \<le> length (to_come env rows directoryId info s0)" using info'(6) False by (simp add: todo not_less)
    with Cons.prems(5) have "length (to_come env rows directoryId info' s0) < page_size info * length ss"
      by (simp add: rest less_diff_conv2)
    then have "readdir_all env info' ss = Some (to_come env rows directoryId info' s0)"
      using Cons.prems(1-3) info'(1-3) by (intro Cons.IH) simp_all
    moreover have "info'\<lparr>errorCode := SUCCESS\<rparr> = info'" using info'(4) by simp
    ultimately show ?thesis using False run info'(5) by (simp add: todo rest)
  qed
qed simp

text \<open>
  C8. Reading a directory page by page lists every entry once, and ends.  A client that starts
  with shard index -1 and repeats the call with the shard index and the last name it got back,
  with pages of at least one entry, has after enough calls (more than the number of entries
  divided by the page size) exactly the listing of the directory: the entries of all shards of
  the server, none lost or repeated at the page borders, provided the files and the directories
  do not change in between and each path lookup returns.
\<close>

theorem readdir_pages_complete:
  assumes "env_ok env" and "inodes_keyed env s0" and "unat directoryId < 2 ^ 50"
    and "\<forall>s\<in>set ss. server_ok N env base rows s \<and> same_files s0 s \<and>
      (\<exists>res t. PathParseTreeInsert (env_path env) (path info) directory_flag (Some 0) s = Some (Inr res, t))"
    and "resolve base 0 (path_components (path info)) = Some directoryId"
    and "0 < page_size info" and "readDirLastShardIndex info = - 1"
    and "length (listing env rows directoryId s0) < page_size info * length ss"
  shows "readdir_all env info ss = Some (listing env rows directoryId s0)"
  using readdir_all_to_come [OF assms(1-5) refl assms(6)] assms(7,8) by (simp add: to_come_def)

definition sample_row :: inode_row where
  "sample_row = \<lparr>st_ino = 100, st_dev = 0, st_mode = S_IFREG, st_nlink = 1, st_uid = 0, st_gid = 0, st_rdev = 0, st_size = 0,
     st_blksize = 0, st_blocks = 0, st_atim = 0, st_mtim = 0, st_ctim = 0, etag = '''', update_version = 0,
     primary_nodeid = 0, backup_nodeid = - 1\<rparr>"

definition readdir_sample :: "((dir_key, u64) pg_alist, u64, (inode_key, inode_row) pg_alist, (int, int) pg_alist) meta_state" where
  "readdir_sample = meta_sample\<lparr>inode_db := (\<lambda>_. ([(dir_key_of 7 ''f'', sample_row), (dir_key_of 7 ''g'', sample_row)], [], []))\<rparr>"

lemma readdir_sample_ok:
  "server_ok 0 meta_sample_env sample_base [(1000, 1), (2147483647, 2)] readdir_sample" "inodes_keyed meta_sample_env readdir_sample"
proof -
  have "parse_ok 0 (env_path meta_sample_env) sample_base readdir_sample = parse_ok 0 (env_path meta_sample_env) sample_base meta_sample"
    by (simp add: readdir_sample_def parse_ok_def walk_ok_def hash_ok_def tx_ok_def held_keys_def tree_of_def)
  with sample_ok(3) show "server_ok 0 meta_sample_env sample_base [(1000, 1), (2147483647, 2)] readdir_sample"
    by (simp add: server_ok_def readdir_sample_def inodes_clean_def pg_clean_def meta_sample_env_def pg_alist_ops_def)
  have "key_name (dir_key_of directoryId name) = name" for directoryId name by (simp add: dir_key_of_def)
  moreover have "fst r \<in> fst ` set vis" if "r \<in> set (pg_rows pg_alist_ops (vis, [], []))"
    for r and vis :: "(inode_key \<times> inode_row) list"
    using that by (force simp: pg_alist_ops_def)
  ultimately show "inodes_keyed meta_sample_env readdir_sample"
    by (fastforce simp: inodes_keyed_def readdir_sample_def meta_sample_env_def intro!: exI [of _ 7])
qed

theorem readdir_pages_complete_witness:
  "readdir_all meta_sample_env ((request ''/'')\<lparr>readDirMaxReadCount := 1\<rparr>) [readdir_sample, readdir_sample, readdir_sample] =
     Some (listing meta_sample_env [(1000, 1), (2147483647, 2)] 7 readdir_sample) \<and>
   map fst (listing meta_sample_env [(1000, 1), (2147483647, 2)] 7 readdir_sample) = [''f'', ''g'']"
proof -
  let ?info = "(request ''/'')\<lparr>readDirMaxReadCount := 1\<rparr>"
  have names: "map fst (listing meta_sample_env [(1000, 1), (2147483647, 2)] 7 readdir_sample) = [''f'', ''g'']" by code_simp
  then have len: "length (listing meta_sample_env [(1000, 1), (2147483647, 2)] 7 readdir_sample) = 2"
    by (metis length_map length_Cons list.size(3) numeral_2_eq_2)
  have "map_option (map_sum id pp_error \<circ> fst) (PathParseTreeInsert (env_path meta_sample_env) (path ?info) directory_flag (Some 0)
      readdir_sample) = Some (Inr SUCCESS)" by code_simp
  then obtain res t where run: "PathParseTreeInsert (env_path meta_sample_env) (path ?info) directory_flag (Some 0) readdir_sample =
      Some (Inr res, t)" by (rule run_valueE)
  have "resolve sample_base 0 (path_components (path ?info)) = Some 7" by code_simp
  from readdir_pages_complete [OF sample_ok(1) readdir_sample_ok(2) _ _ this, of "[readdir_sample, readdir_sample, readdir_sample]" 0
      "[(1000, 1), (2147483647, 2)]"] run len readdir_sample_ok(1) names
  show ?thesis by (simp add: page_size_def request_def)
qed

end
