(* ===== verification/Base64.thy ===== *)
theory Base64
  imports Falcon_Prelude
begin

text \<open>
  The Base64 codec of the client (\<open>common/src/buffer/base64.cpp\<close>).  A text is a \<open>string\<close>, an
  array of \<open>unsigned char\<close> a list of bytes.  An output array is the list of the cells that have
  been written, which both functions fill from the front.
\<close>

definition base64en :: string where
  "base64en = ''ABCDEFGHIJKLMNOPQRSTUVWXYZabcdefghijklmnopqrstuvwxyz0123456789+/''"

definition base64de :: "u8 list" where
  "base64de =
    [255, 255, 255, 255, 255, 255, 255, 255, 255, 255, 255, 255, 255, 255, 255, 255,
     255, 255, 255, 255, 255, 255, 255, 255, 255, 255, 255, 255, 255, 255, 255, 255,
     255, 255, 255, 255, 255, 255, 255, 255, 255, 255, 255, 62, 255, 255, 255, 63,
     52, 53, 54, 55, 56, 57, 58, 59, 60, 61, 255, 255, 255, 255, 255, 255,
     255, 0, 1, 2, 3, 4, 5, 6, 7, 8, 9, 10, 11, 12, 13, 14,
     15, 16, 17, 18, 19, 20, 21, 22, 23, 24, 25, 255, 255, 255, 255, 255,
     255, 26, 27, 28, 29, 30, 31, 32, 33, 34, 35, 36, 37, 38, 39, 40,
     41, 42, 43, 44, 45, 46, 47, 48, 49, 50, 51, 255, 255, 255, 255, 255]"

definition en :: "u8 \<Rightarrow> char" where
  "en v = base64en ! unat v"

subsection \<open>Encoding\<close>

text \<open>The loop: \<open>s\<close> is the position in the group of three and \<open>l\<close> the last byte.\<close>

fun encode_loop :: "u8 list \<Rightarrow> nat \<Rightarrow> u8 \<Rightarrow> string \<Rightarrow> nat \<times> u8 \<times> string" where
  "encode_loop [] s l out = (s, l, out)"
| "encode_loop (c # cs) s l out =
    (if s = 0 then encode_loop cs 1 c (out @ [en (drop_bit 2 c AND 0x3F)])
     else if s = 1 then encode_loop cs 2 c (out @ [en (push_bit 4 (l AND 0x3) OR (drop_bit 4 c AND 0xF))])
     else encode_loop cs 0 c (out @ [en (push_bit 2 (l AND 0xF) OR (drop_bit 6 c AND 0x3)), en (c AND 0x3F)]))"

text \<open>The length returned, and the cells written, the terminating zero included.\<close>

definition base64_encode :: "u8 list \<Rightarrow> u32 \<times> string" where
  "base64_encode inp =
    (let (s, l, out) = encode_loop inp 0 0 [];
         out = (if s = 1 then out @ [en (push_bit 4 (l AND 0x3)), CHR ''='', CHR ''='']
                else if s = 2 then out @ [en (push_bit 2 (l AND 0xF)), CHR ''='']
                else out) in
     (of_nat (length out), out @ [CHR 0x00]))"

subsection \<open>Decoding\<close>

definition schar :: "char \<Rightarrow> int" where
  "schar c = sint (of_char c :: u8)"

definition put :: "nat \<Rightarrow> u8 \<Rightarrow> u8 list \<Rightarrow> u8 list" where
  "put j v out = (if j < length out then out[j := v] else out @ [v])"

fun decode_loop :: "string \<Rightarrow> nat \<Rightarrow> nat \<Rightarrow> u8 list \<Rightarrow> u32 \<times> u8 list" where
  "decode_loop [] i j out = (of_nat j, out)"
| "decode_loop (ch # chs) i j out =
    (if ch = CHR ''='' then (of_nat j, out)
     else if schar ch < schar (CHR ''+'') \<or> schar (CHR ''z'') < schar ch then (0, out)
     else
       (let c = base64de ! of_char ch in
        if c = 255 then (0, out)
        else if i mod 4 = 0 then decode_loop chs (i + 1) j (put j (push_bit 2 c AND 0xFF) out)
        else if i mod 4 = 1 then
          decode_loop chs (i + 1) (j + 1) (put (j + 1) (push_bit 4 (c AND 0xF)) (put j (out ! j OR (drop_bit 4 c AND 0x3)) out))
        else if i mod 4 = 2 then
          decode_loop chs (i + 1) (j + 1) (put (j + 1) (push_bit 6 (c AND 0x3)) (put j (out ! j OR (drop_bit 2 c AND 0xF)) out))
        else decode_loop chs (i + 1) (j + 1) (put j (out ! j OR c) out)))"

text \<open>The length returned, and the cells written.\<close>

definition base64_decode :: "string \<Rightarrow> u32 \<times> u8 list" where
  "base64_decode inp = (if (of_nat (length inp) :: u32) AND 0x3 \<noteq> 0 then (0xFFFFFFFF, []) else decode_loop inp 0 0 [])"

definition BASE64_ENCODE_OUT_SIZE :: "nat \<Rightarrow> nat" where
  "BASE64_ENCODE_OUT_SIZE s = (s + 2) div 3 * 4 + 1"

definition BASE64_DECODE_OUT_SIZE :: "nat \<Rightarrow> nat" where
  "BASE64_DECODE_OUT_SIZE s = s div 4 * 3"

subsection \<open>The tables are inverse\<close>

lemma en_table:
  assumes "unat v < 64"
  shows "base64de ! of_char (en v) = v" and "en v \<noteq> CHR ''=''" and "schar (CHR ''+'') \<le> schar (en v)"
    and "schar (en v) \<le> schar (CHR ''z'')"
proof -
  have table: "map (\<lambda>ch. base64de ! of_char ch) base64en = map of_nat [0..<64]" by code_simp
  then have len: "length base64en = 64" by (metis length_map length_upt diff_zero)
  then have v: "en v \<in> set base64en" using assms by (simp add: en_def)
  from table have "map (\<lambda>ch. base64de ! of_char ch) base64en ! unat v = map of_nat [0..<64] ! unat v" by (simp only:)
  with len assms show "base64de ! of_char (en v) = v" by (simp add: en_def)
  have "list_all (\<lambda>ch. ch \<noteq> CHR ''='' \<and> schar (CHR ''+'') \<le> schar ch \<and> schar ch \<le> schar (CHR ''z'')) base64en" by code_simp
  with v show "en v \<noteq> CHR ''=''" and "schar (CHR ''+'') \<le> schar (en v)" and "schar (en v) \<le> schar (CHR ''z'')"
    by (auto simp: list_all_iff)
qed

lemma masks: "(0x3F :: u8) = mask 6" "(0xF :: u8) = mask 4" "(0x3 :: u8) = mask 2" "(0xFF :: u8) = mask 8"
  by (simp_all add: mask_eq_exp_minus_1)

lemma unat_mask6: "unat ((v :: u8) AND 0x3F) < 64"
  by (rule order_le_less_trans [OF word_le_nat_alt [THEN iffD1, OF word_and_le1]]) simp

text \<open>The four sextets of a group and how its three bytes are put together again.\<close>

lemma sextets:
  fixes a b c :: u8
  shows "unat (drop_bit 2 a AND 0x3F) < 64" and "unat (push_bit 4 (a AND 0x3) OR (drop_bit 4 b AND 0xF)) < 64"
    and "unat (push_bit 2 (b AND 0xF) OR (drop_bit 6 c AND 0x3)) < 64" and "unat (c AND 0x3F) < 64"
    and "unat (push_bit 4 (a AND 0x3)) < 64" and "unat (push_bit 2 (b AND 0xF)) < 64"
proof -
  have eq: "push_bit 4 (a AND 0x3) OR (drop_bit 4 b AND 0xF) = (push_bit 4 (a AND 0x3) OR (drop_bit 4 b AND 0xF)) AND 0x3F"
    "push_bit 2 (b AND 0xF) OR (drop_bit 6 c AND 0x3) = (push_bit 2 (b AND 0xF) OR (drop_bit 6 c AND 0x3)) AND 0x3F"
    "push_bit 4 (a AND 0x3) = push_bit 4 (a AND 0x3) AND 0x3F" "push_bit 2 (b AND 0xF) = push_bit 2 (b AND 0xF) AND 0x3F"
    unfolding masks by (rule bit_word_eqI; auto simp: bit_simps)+
  show "unat (drop_bit 2 a AND 0x3F) < 64" "unat (c AND 0x3F) < 64" by (rule unat_mask6)+
  show "unat (push_bit 4 (a AND 0x3) OR (drop_bit 4 b AND 0xF)) < 64" by (subst eq) (rule unat_mask6)
  show "unat (push_bit 2 (b AND 0xF) OR (drop_bit 6 c AND 0x3)) < 64" by (subst eq) (rule unat_mask6)
  show "unat (push_bit 4 (a AND 0x3)) < 64" by (subst eq) (rule unat_mask6)
  show "unat (push_bit 2 (b AND 0xF)) < 64" by (subst eq) (rule unat_mask6)
qed

lemma byte_eqI:
  fixes a b :: u8
  assumes "\<forall>n\<in>{0, 1, 2, 3, 4, 5, 6, 7}. bit a n = bit b n"
  shows "a = b"
proof (rule bit_word_eqI)
  fix n assume "n < LENGTH(8)"
  then have "n \<in> {0, 1, 2, 3, 4, 5, 6, 7}" by auto
  with assms show "bit a n = bit b n" by (rule bspec)
qed

lemma joined:
  fixes a b c :: u8
  shows "(push_bit 2 (drop_bit 2 a AND 0x3F) AND 0xFF) OR (drop_bit 4 (push_bit 4 (a AND 0x3) OR (drop_bit 4 b AND 0xF)) AND 0x3) = a"
    and "push_bit 4 ((push_bit 4 (a AND 0x3) OR (drop_bit 4 b AND 0xF)) AND 0xF) OR
      (drop_bit 2 (push_bit 2 (b AND 0xF) OR (drop_bit 6 c AND 0x3)) AND 0xF) = b"
    and "push_bit 6 ((push_bit 2 (b AND 0xF) OR (drop_bit 6 c AND 0x3)) AND 0x3) OR (c AND 0x3F) = c"
    and "(push_bit 2 (drop_bit 2 a AND 0x3F) AND 0xFF) OR (drop_bit 4 (push_bit 4 (a AND 0x3)) AND 0x3) = a"
    and "push_bit 4 ((push_bit 4 (a AND 0x3) OR (drop_bit 4 b AND 0xF)) AND 0xF) OR (drop_bit 2 (push_bit 2 (b AND 0xF)) AND 0xF) = b"
  unfolding masks by (rule byte_eqI; simp add: bit_simps; simp add: numeral_2_eq_2 numeral_3_eq_3)+

subsection \<open>The text of a byte string\<close>

text \<open>The reference: groups of three bytes, each encoded by itself.\<close>

fun text_of :: "u8 list \<Rightarrow> string" where
  "text_of [] = []"
| "text_of [a] = [en (drop_bit 2 a AND 0x3F), en (push_bit 4 (a AND 0x3)), CHR ''='', CHR ''='']"
| "text_of [a, b] = [en (drop_bit 2 a AND 0x3F), en (push_bit 4 (a AND 0x3) OR (drop_bit 4 b AND 0xF)),
    en (push_bit 2 (b AND 0xF)), CHR ''='']"
| "text_of (a # b # c # xs) = [en (drop_bit 2 a AND 0x3F), en (push_bit 4 (a AND 0x3) OR (drop_bit 4 b AND 0xF)),
    en (push_bit 2 (b AND 0xF) OR (drop_bit 6 c AND 0x3)), en (c AND 0x3F)] @ text_of xs"

lemma div_3_step: "(5 + n) div 3 = Suc ((n + 2) div 3)"
  by presburger

lemma length_text_of: "length (text_of xs) = (length xs + 2) div 3 * 4"
  by (induction xs rule: text_of.induct) (simp_all add: div_3_step)

definition finish :: "nat \<times> u8 \<times> string \<Rightarrow> string" where
  "finish r = (case r of (s, l, out) \<Rightarrow>
     if s = 1 then out @ [en (push_bit 4 (l AND 0x3)), CHR ''='', CHR ''='']
     else if s = 2 then out @ [en (push_bit 2 (l AND 0xF)), CHR ''=''] else out)"

lemma encode_loop_text: "finish (encode_loop xs 0 l out) = out @ text_of xs"
  by (induction xs arbitrary: l out rule: text_of.induct) (simp_all add: finish_def)

lemma base64_encode_text: "base64_encode xs = (of_nat (length (text_of xs)), text_of xs @ [CHR 0x00])"
proof -
  obtain s l out where run: "encode_loop xs 0 0 [] = (s, l, out)" by (cases "encode_loop xs 0 0 []")
  with encode_loop_text [of xs 0 "[]"] have "finish (s, l, out) = text_of xs" by simp
  then show ?thesis by (simp add: base64_encode_def run finish_def Let_def)
qed

lemma decode_step:
  assumes "unat v < 64"
  shows "decode_loop (en v # chs) i j out =
    (if i mod 4 = 0 then decode_loop chs (i + 1) j (put j (push_bit 2 v AND 0xFF) out)
     else if i mod 4 = 1 then
       decode_loop chs (i + 1) (j + 1) (put (j + 1) (push_bit 4 (v AND 0xF)) (put j (out ! j OR (drop_bit 4 v AND 0x3)) out))
     else if i mod 4 = 2 then
       decode_loop chs (i + 1) (j + 1) (put (j + 1) (push_bit 6 (v AND 0x3)) (put j (out ! j OR (drop_bit 2 v AND 0xF)) out))
     else decode_loop chs (i + 1) (j + 1) (put j (out ! j OR v) out))"
proof -
  have "v \<noteq> 255" using assms by auto
  with en_table [OF assms] show ?thesis by (simp add: Let_def)
qed

lemma put_last: "put (length out) v out = out @ [v]" "put (length out) v (out @ [w]) = out @ [v]"
  "put (Suc (length out)) v (out @ [w]) = out @ [w, v]"
  by (simp_all add: put_def list_update_append)

text \<open>The loop over a group, sextet by sextet.\<close>

lemma decode_pair:
  assumes "unat s1 < 64" "unat s2 < 64" and "i mod 4 = 0" and "(push_bit 2 s1 AND 0xFF) OR (drop_bit 4 s2 AND 0x3) = a"
  shows "decode_loop (en s1 # en s2 # chs) i (length out) out =
    decode_loop chs (i + 2) (length (out @ [a])) ((out @ [a]) @ [push_bit 4 (s2 AND 0xF)])"
proof -
  have i: "(i + 1) mod 4 = 1" using assms(3) by presburger
  have "decode_loop (en s1 # en s2 # chs) i (length out) out =
      decode_loop (en s2 # chs) (i + 1) (length out) (out @ [push_bit 2 s1 AND 0xFF])"
    unfolding decode_step [OF assms(1)] using assms(3) by (simp only: put_last simp_thms if_True)
  also have "\<dots> = decode_loop chs (i + 2) (length (out @ [a])) ((out @ [a]) @ [push_bit 4 (s2 AND 0xF)])"
    unfolding decode_step [OF assms(2)] i assms(4) [symmetric] by (simp add: put_last nth_append del: decode_loop.simps)
  finally show ?thesis .
qed

lemma decode_third:
  assumes "unat s3 < 64" and "i mod 4 = 0" and "p OR (drop_bit 2 s3 AND 0xF) = b"
  shows "decode_loop (en s3 # chs) (i + 2) (length out) (out @ [p]) =
    decode_loop chs (i + 3) (length (out @ [b])) ((out @ [b]) @ [push_bit 6 (s3 AND 0x3)])"
proof -
  have i: "(i + 2) mod 4 = 2" using assms(2) by presburger
  show ?thesis
    unfolding decode_step [OF assms(1)] i assms(3) [symmetric] by (simp add: put_last nth_append numeral_3_eq_3 del: decode_loop.simps)
qed

lemma decode_fourth:
  assumes "unat s4 < 64" and "i mod 4 = 0" and "p OR s4 = c"
  shows "decode_loop (en s4 # chs) (i + 3) (length out) (out @ [p]) = decode_loop chs (i + 4) (length (out @ [c])) (out @ [c])"
proof -
  have i: "(i + 3) mod 4 = 3" using assms(2) by presburger
  show ?thesis
    unfolding decode_step [OF assms(1)] i assms(3) [symmetric]
    by (simp add: put_last nth_append del: decode_loop.simps) (simp add: eval_nat_numeral)
qed

lemma decode_loop_text:
  assumes "i mod 4 = 0"
  shows "\<exists>cells. decode_loop (text_of xs) i (length out) out = (of_nat (length out + length xs), cells) \<and>
    take (length out + length xs) cells = out @ xs \<and> length cells \<le> length out + (length xs + 2) div 3 * 3"
  using assms
proof (induction xs arbitrary: i out rule: text_of.induct)
  case 1
  then show ?case by simp
next
  case (2 a)
  have "decode_loop (text_of [a]) i (length out) out =
      decode_loop [CHR ''='', CHR ''=''] (i + 2) (length (out @ [a])) ((out @ [a]) @ [push_bit 4 (push_bit 4 (a AND 0x3) AND 0xF)])"
    unfolding text_of.simps by (rule decode_pair [OF sextets(1,5) 2 joined(4)])
  then show ?case by simp
next
  case (3 a b)
  let ?s2 = "push_bit 4 (a AND 0x3) OR (drop_bit 4 b AND 0xF)" and ?s3 = "push_bit 2 (b AND 0xF)"
  have "decode_loop (text_of [a, b]) i (length out) out =
      decode_loop [en ?s3, CHR ''=''] (i + 2) (length (out @ [a])) ((out @ [a]) @ [push_bit 4 (?s2 AND 0xF)])"
    unfolding text_of.simps by (rule decode_pair [OF sextets(1,2) 3 joined(1)])
  also have "\<dots> = decode_loop [CHR ''=''] (i + 3) (length ((out @ [a]) @ [b])) (((out @ [a]) @ [b]) @ [push_bit 6 (?s3 AND 0x3)])"
    by (rule decode_third [OF sextets(6) 3 joined(5)])
  finally show ?case by simp
next
  case (4 a b c xs)
  let ?s2 = "push_bit 4 (a AND 0x3) OR (drop_bit 4 b AND 0xF)" and ?s3 = "push_bit 2 (b AND 0xF) OR (drop_bit 6 c AND 0x3)"
  have i: "(i + 4) mod 4 = 0" using 4(2) by presburger
  have "decode_loop (text_of (a # b # c # xs)) i (length out) out =
      decode_loop (en ?s3 # en (c AND 0x3F) # text_of xs) (i + 2) (length (out @ [a])) ((out @ [a]) @ [push_bit 4 (?s2 AND 0xF)])"
    unfolding text_of.simps append.simps by (rule decode_pair [OF sextets(1,2) 4(2) joined(1)])
  also have "\<dots> = decode_loop (en (c AND 0x3F) # text_of xs) (i + 3) (length ((out @ [a]) @ [b]))
      (((out @ [a]) @ [b]) @ [push_bit 6 (?s3 AND 0x3)])"
    by (rule decode_third [OF sextets(3) 4(2) joined(2)])
  also have "\<dots> = decode_loop (text_of xs) (i + 4) (length (((out @ [a]) @ [b]) @ [c])) (((out @ [a]) @ [b]) @ [c])"
    by (rule decode_fourth [OF sextets(4) 4(2) joined(3)])
  finally show ?case using 4(1) [OF i, of "((out @ [a]) @ [b]) @ [c]"] by (auto simp: div_3_step)
qed

text \<open>
  C18. Base64 round trip inside the buffers the header prescribes.  For an input whose text is
  shorter than 2^32, encoding returns the length of the text, writes at most
  \<open>BASE64_ENCODE_OUT_SIZE\<close> cells with a terminating zero, and decoding this text gives the number
  of input bytes back, with the input bytes in the first cells and nothing written beyond
  \<open>BASE64_DECODE_OUT_SIZE\<close>.
\<close>

theorem base64_roundtrip:
  assumes "(length inp + 2) div 3 * 4 < 2 ^ 32"
  shows "\<exists>chars cells. base64_encode inp = (of_nat (length chars), chars @ [CHR 0x00]) \<and>
    unat (fst (base64_encode inp)) = length chars \<and> length (chars @ [CHR 0x00]) \<le> BASE64_ENCODE_OUT_SIZE (length inp) \<and>
    base64_decode chars = (of_nat (length inp), cells) \<and> take (length inp) cells = inp \<and>
    length cells \<le> BASE64_DECODE_OUT_SIZE (length chars)"
proof -
  let ?text = "text_of inp"
  have len: "length ?text = (length inp + 2) div 3 * 4" by (rule length_text_of)
  have "push_bit 2 (of_nat ((length inp + 2) div 3) :: u32) AND mask 2 = 0" by (rule bit_word_eqI) (auto simp: bit_simps)
  then have "(of_nat (length ?text) :: u32) AND 0x3 = 0" unfolding len by (simp add: push_bit_eq_mult mask_eq_exp_minus_1)
  then have "base64_decode ?text = decode_loop ?text 0 0 []" by (simp add: base64_decode_def)
  moreover obtain cells where "decode_loop ?text 0 0 [] = (of_nat (length inp), cells)"
    "take (length inp) cells = inp" "length cells \<le> (length inp + 2) div 3 * 3"
    using decode_loop_text [of 0 inp "[]"] by auto
  moreover have "unat (of_nat (length ?text) :: u32) = length ?text"
    using assms unfolding len [symmetric] by (intro of_nat_inverse [OF refl]) simp
  ultimately show ?thesis
    by (intro exI [of _ ?text] exI [of _ cells])
      (simp add: base64_encode_text len BASE64_ENCODE_OUT_SIZE_def BASE64_DECODE_OUT_SIZE_def)
qed

theorem base64_roundtrip_witness:
  "base64_encode [1, 2, 3, 255] = (8, ''AQID/w=='' @ [CHR 0x00]) \<and> fst (base64_decode ''AQID/w=='') = 4 \<and>
    take 4 (snd (base64_decode ''AQID/w=='')) = [1, 2, 3, 255]"
proof -
  have run: "base64_encode [1, 2, 3, 255] = (8, ''AQID/w=='' @ [CHR 0x00])" by code_simp
  have "Suc (Suc (Suc (Suc 0))) = 4" by simp
  with base64_roundtrip [of "[1, 2, 3, 255]"] run show ?thesis by auto
qed

end
