(* ===== verification/Mem_Pool.thy ===== *)
theory Mem_Pool
  imports Falcon_Prelude "HOL-Library.Multiset"
begin

text \<open>
  The pool of equal memory blocks of the client (\<open>common/src/include/buffer/mem_pool.h\<close>).

  A block is the number of its address.  The heap is the list of the blocks that the C library
  has handed out; which address the next allocation gives, or that there is none, is a parameter.
  An operation is what the code does between two scheduling points of other callers: the queue is
  used under its spin lock, the counter is atomic.
\<close>

record heap_env =
  aligned_alloc_result :: "nat list \<Rightarrow> nat option"

text \<open>
  Documented behaviour: a block that is in use is not handed out again.  There are fewer blocks
  than addresses of 64 bits.
\<close>

definition heap_ok :: "heap_env \<Rightarrow> bool" where
  "heap_ok env \<longleftrightarrow> (\<forall>live p. aligned_alloc_result env live = Some p \<longrightarrow> p \<notin> set live \<and> length live + 1 < 2 ^ 64)"

record MemPool =
  m_init :: bool
  m_blockSize :: u64
  m_capacity :: u64
  m_size :: u64
  m_freeBlocks :: "nat list"
  heap :: "nat list"

definition MemPool_default :: MemPool where
  "MemPool_default = \<lparr>m_init = False, m_blockSize = 0, m_capacity = 0, m_size = 0, m_freeBlocks = [], heap = []\<rparr>"

text \<open>\<open>lock_ok\<close>: the spin lock could be allocated.\<close>

definition MemPool_init :: "u64 \<Rightarrow> u64 \<Rightarrow> bool \<Rightarrow> MemPool \<Rightarrow> MemPool" where
  "MemPool_init blockSize capacity lock_ok s =
    (if m_init s then s
     else s\<lparr>m_init := lock_ok, m_blockSize := blockSize, m_capacity := capacity\<rparr>)"

definition sys_alloc :: "heap_env \<Rightarrow> MemPool \<Rightarrow> nat option \<times> MemPool" where
  "sys_alloc env s = (case aligned_alloc_result env (heap s) of
     None \<Rightarrow> (None, s) | Some p \<Rightarrow> (Some p, s\<lparr>heap := p # heap s\<rparr>))"

definition sys_free :: "nat \<Rightarrow> MemPool \<Rightarrow> MemPool" where
  "sys_free p s = s\<lparr>heap := remove1 p (heap s)\<rparr>"

definition MemPool_alloc :: "heap_env \<Rightarrow> MemPool \<Rightarrow> nat option \<times> MemPool" where
  "MemPool_alloc env s =
    (if \<not> m_init s then (None, s)
     else
       let (block, s) = (case m_freeBlocks s of [] \<Rightarrow> (None, s) | b # bs \<Rightarrow> (Some b, s\<lparr>m_freeBlocks := bs\<rparr>));
           (block, s) = (case block of Some b \<Rightarrow> (Some b, s) | None \<Rightarrow> sys_alloc env s) in
       (block, s\<lparr>m_size := m_size s + (if block \<noteq> None then 1 else 0)\<rparr>))"

text \<open>The first loop takes blocks from the queue; the test counts \<open>num\<close> down also when it ends the loop.\<close>

fun calloc_take :: "nat list \<Rightarrow> int \<Rightarrow> nat list \<Rightarrow> nat list \<times> int \<times> nat list" where
  "calloc_take [] num bulkMem = ([], num, bulkMem)"
| "calloc_take (b # bs) num bulkMem =
    (if num = 0 then (b # bs, num - 1, bulkMem) else calloc_take bs (num - 1) (bulkMem @ [b]))"

function calloc_fresh :: "heap_env \<Rightarrow> int \<Rightarrow> nat list \<Rightarrow> MemPool \<Rightarrow> int \<times> nat list \<times> MemPool" where
  "calloc_fresh env num bulkMem s =
    (if num \<le> 0 then (num, bulkMem, s)
     else case sys_alloc env s of
       (None, s) \<Rightarrow> (num, bulkMem, s)
     | (Some p, s) \<Rightarrow> calloc_fresh env (num - 1) (bulkMem @ [p]) s)"
  by pat_completeness auto
termination by (relation "measure (\<lambda>(_, num, _, _). nat num)") auto

declare calloc_fresh.simps [simp del]

definition MemPool_calloc :: "heap_env \<Rightarrow> int \<Rightarrow> MemPool \<Rightarrow> nat list \<times> MemPool" where
  "MemPool_calloc env num s =
    (if \<not> m_init s then ([], s)
     else
       let (bs, num, bulkMem) = calloc_take (m_freeBlocks s) num [];
           (num, bulkMem, s) = calloc_fresh env num bulkMem (s\<lparr>m_freeBlocks := bs\<rparr>);
           (bulkMem, s) = (if num > 0 then ([], fold sys_free bulkMem s) else (bulkMem, s)) in
       (bulkMem, s\<lparr>m_size := m_size s + of_nat (length bulkMem)\<rparr>))"

definition MemPool_free :: "nat option \<Rightarrow> MemPool \<Rightarrow> MemPool" where
  "MemPool_free buf s =
    (if \<not> m_init s then s
     else case buf of
       None \<Rightarrow> s
     | Some p \<Rightarrow>
        let old = m_size s; s = s\<lparr>m_size := old - 1\<rparr> in
        if old < m_capacity s then s\<lparr>m_freeBlocks := m_freeBlocks s @ [p]\<rparr> else sys_free p s)"

subsection \<open>Runs\<close>

text \<open>\<open>held\<close>: the blocks that callers have and have not given back.\<close>

inductive pool_run :: "heap_env \<Rightarrow> u64 \<Rightarrow> u64 \<Rightarrow> nat list \<Rightarrow> MemPool \<Rightarrow> bool" for env blockSize capacity where
  start: "pool_run env blockSize capacity [] (MemPool_init blockSize capacity True MemPool_default)"
| alloc: "pool_run env blockSize capacity held s \<Longrightarrow> MemPool_alloc env s = (Some p, t) \<Longrightarrow> pool_run env blockSize capacity (p # held) t"
| alloc_fails: "pool_run env blockSize capacity held s \<Longrightarrow> MemPool_alloc env s = (None, t) \<Longrightarrow> pool_run env blockSize capacity held t"
| calloc: "pool_run env blockSize capacity held s \<Longrightarrow> MemPool_calloc env num s = (ps, t) \<Longrightarrow> pool_run env blockSize capacity (ps @ held) t"
| free: "pool_run env blockSize capacity held s \<Longrightarrow> p \<in> set held \<Longrightarrow> pool_run env blockSize capacity (remove1 p held) (MemPool_free (Some p) s)"
| init: "pool_run env blockSize capacity held s \<Longrightarrow> pool_run env blockSize capacity held (MemPool_init b c ok s)"

text \<open>
  Every block of the heap is held by exactly one caller or lies once in the queue; the counter
  counts the blocks that are held.
\<close>

definition pool_ok :: "u64 \<Rightarrow> nat list \<Rightarrow> MemPool \<Rightarrow> bool" where
  "pool_ok capacity held s \<longleftrightarrow> m_init s \<and> m_capacity s = capacity \<and> mset (heap s) = mset held + mset (m_freeBlocks s) \<and>
     distinct (heap s) \<and> length (heap s) < 2 ^ 64 \<and> m_size s = of_nat (length held) \<and>
     (m_freeBlocks s \<noteq> [] \<longrightarrow> length (m_freeBlocks s) + length held < unat capacity)"

lemma sys_alloc_Some:
  assumes "heap_ok env" and "sys_alloc env s = (Some p, t)"
  shows "t = s\<lparr>heap := p # heap s\<rparr>" and "p \<notin> set (heap s)" and "length (heap s) + 1 < 2 ^ 64"
  using assms by (auto simp: sys_alloc_def heap_ok_def split: option.splits)

lemma sys_alloc_None: "sys_alloc env s = (None, t) \<Longrightarrow> t = s"
  by (auto simp: sys_alloc_def split: option.splits)

lemma calloc_take_spec:
  "calloc_take bs num acc = (bs', num', bulk) \<Longrightarrow>
    \<exists>taken. bs = taken @ bs' \<and> bulk = acc @ taken \<and> (bs' \<noteq> [] \<longrightarrow> num' \<le> 0)"
proof (induction bs num acc rule: calloc_take.induct)
  case (2 b bs num acc)
  show ?case
  proof (cases "num = 0")
    case True
    with 2(2) show ?thesis by auto
  next
    case False
    from 2(1) [OF False] 2(2) False obtain taken where "bs = taken @ bs'" "bulk = (acc @ [b]) @ taken" "bs' \<noteq> [] \<longrightarrow> num' \<le> 0" by auto
    then show ?thesis by (intro exI [of _ "b # taken"]) simp
  qed
qed simp

lemma calloc_fresh_spec:
  assumes "heap_ok env" and "distinct (heap s)" and "length (heap s) < 2 ^ 64" and "calloc_fresh env num bulk s = (num', bulk', t)"
  shows "\<exists>ps. bulk' = bulk @ ps \<and> t = s\<lparr>heap := rev ps @ heap s\<rparr> \<and> distinct (heap t) \<and> length (heap t) < 2 ^ 64 \<and> (num \<le> 0 \<longrightarrow> ps = [])"
  using assms(2-)
proof (induction "nat num" arbitrary: num bulk s)
  case 0
  then show ?case by (auto simp: calloc_fresh.simps [of env num])
next
  case (Suc n)
  then have num: "0 < num" by simp
  obtain r u where alloc: "sys_alloc env s = (r, u)" by (cases "sys_alloc env s")
  show ?case
  proof (cases r)
    case None
    with Suc.prems num alloc sys_alloc_None [of env s u] show ?thesis by (auto simp: calloc_fresh.simps [of env num])
  next
    case (Some p)
    note u = sys_alloc_Some [OF assms(1) alloc [unfolded Some]]
    have "calloc_fresh env (num - 1) (bulk @ [p]) u = (num', bulk', t)"
      using Suc.prems(3) num alloc Some by (simp add: calloc_fresh.simps [of env num])
    moreover have "n = nat (num - 1)" using Suc.hyps(2) by arith
    ultimately obtain ps where
      "bulk' = (bulk @ [p]) @ ps" "t = u\<lparr>heap := rev ps @ heap u\<rparr>" "distinct (heap t)" "length (heap t) < 2 ^ 64"
      using Suc.hyps(1) [of "num - 1" u "bulk @ [p]"] Suc.prems(1) u by auto
    with u(1) num show ?thesis by (intro exI [of _ "p # ps"]) simp
  qed
qed

lemma fold_sys_free:
  "heap (fold sys_free ps s) = fold remove1 ps (heap s)" "fold sys_free ps s = s\<lparr>heap := heap (fold sys_free ps s)\<rparr>"
  by (induction ps arbitrary: s) (simp_all add: sys_free_def)

lemma mset_fold_remove1: "mset (fold remove1 ps xs) = mset xs - mset ps"
  by (induction ps arbitrary: xs) simp_all

lemma distinct_fold_remove1: "distinct xs \<Longrightarrow> distinct (fold remove1 ps xs)"
  by (induction ps arbitrary: xs) (simp_all add: distinct_remove1)

lemma length_held: "pool_ok capacity held s \<Longrightarrow> length held + length (m_freeBlocks s) < 2 ^ 64"
  unfolding pool_ok_def by (metis size_mset size_union)

lemma unat_m_size: "pool_ok capacity held s \<Longrightarrow> unat (m_size s) = length held"
  using length_held [of capacity held s] by (auto simp: pool_ok_def intro!: of_nat_inverse [OF refl])

lemma pool_alloc_ok:
  assumes "heap_ok env" and "pool_ok capacity held s" and "MemPool_alloc env s = (r, t)"
  shows "case r of None \<Rightarrow> pool_ok capacity held t | Some p \<Rightarrow> pool_ok capacity (p # held) t"
proof (cases "m_freeBlocks s")
  case (Cons b bs)
  with assms(2,3) show ?thesis by (auto simp: MemPool_alloc_def pool_ok_def)
next
  case Nil
  obtain r' u where alloc: "sys_alloc env s = (r', u)" by (cases "sys_alloc env s")
  show ?thesis
  proof (cases r')
    case None
    with assms(2,3) Nil alloc sys_alloc_None [of env s u] show ?thesis by (auto simp: MemPool_alloc_def pool_ok_def)
  next
    case (Some p)
    with assms(2,3) Nil alloc sys_alloc_Some [OF assms(1) alloc [unfolded Some]] show ?thesis
      by (auto simp: MemPool_alloc_def pool_ok_def)
  qed
qed

lemma pool_calloc_ok:
  assumes "heap_ok env" and "pool_ok capacity held s" and "MemPool_calloc env num s = (ps, t)"
  shows "pool_ok capacity (ps @ held) t"
proof -
  have s: "m_init s" "distinct (heap s)" "length (heap s) < 2 ^ 64" "mset (heap s) = mset held + mset (m_freeBlocks s)"
    using assms(2) by (simp_all add: pool_ok_def)
  obtain bs num1 bulk1 where take: "calloc_take (m_freeBlocks s) num [] = (bs, num1, bulk1)" by (cases "calloc_take (m_freeBlocks s) num []")
  from calloc_take_spec [OF this] have taken: "m_freeBlocks s = bulk1 @ bs" "bs \<noteq> [] \<longrightarrow> num1 \<le> 0" by auto
  obtain num2 bulk2 u where fresh: "calloc_fresh env num1 bulk1 (s\<lparr>m_freeBlocks := bs\<rparr>) = (num2, bulk2, u)"
    by (cases "calloc_fresh env num1 bulk1 (s\<lparr>m_freeBlocks := bs\<rparr>)")
  from calloc_fresh_spec [OF assms(1) _ _ this] s obtain qs where
    u: "bulk2 = bulk1 @ qs" "u = s\<lparr>m_freeBlocks := bs, heap := rev qs @ heap s\<rparr>" "distinct (heap u)" "length (heap u) < 2 ^ 64" "num1 \<le> 0 \<longrightarrow> qs = []"
    by auto
  have heap: "mset (heap u) = mset bulk2 + mset held + mset bs" using s(4) taken(1) u(1,2) by simp
  have sum: "bs \<noteq> [] \<longrightarrow> length bs + length (bulk2 @ held) < unat capacity"
    using assms(2) taken u(1,5) by (auto simp: pool_ok_def)
  show ?thesis
  proof (cases "num2 > 0")
    case False
    then have "ps = bulk2" "t = u\<lparr>m_size := m_size s + of_nat (length bulk2)\<rparr>"
      using assms(3) s(1) take fresh u(2) by (auto simp: MemPool_calloc_def Let_def)
    with assms(2) u heap sum show ?thesis by (auto simp: pool_ok_def algebra_simps)
  next
    case True
    let ?v = "fold sys_free bulk2 u"
    have t: "ps = []" "t = ?v\<lparr>m_size := m_size ?v\<rparr>"
      using assms(3) s(1) take fresh True by (auto simp: MemPool_calloc_def Let_def)
    have v: "?v = u\<lparr>heap := fold remove1 bulk2 (heap u)\<rparr>" using fold_sys_free [of bulk2 u] by simp
    have "mset (fold remove1 bulk2 (heap u)) = mset held + mset bs" by (simp add: mset_fold_remove1 heap)
    moreover have "length (fold remove1 bulk2 (heap u)) \<le> length (heap u)"
      by (metis calculation heap size_mset size_union le_add2 add.assoc)
    ultimately show ?thesis
      using assms(2) u sum unfolding t v by (auto simp: pool_ok_def distinct_fold_remove1)
  qed
qed

lemma pool_free_ok:
  assumes "pool_ok capacity held s" and "mset held = add_mset p (mset rest)"
  shows "pool_ok capacity rest (MemPool_free (Some p) s)"
proof -
  have len: "length held = Suc (length rest)" using assms(2) by (metis size_mset size_add_mset)
  then have dec: "m_size s - 1 = of_nat (length rest)" using assms(1) by (simp add: pool_ok_def)
  show ?thesis
  proof (cases "m_size s < m_capacity s")
    case True
    then have "length held < unat capacity" using unat_m_size [OF assms(1)] assms(1) by (simp add: word_less_nat_alt pool_ok_def)
    with True assms len dec show ?thesis
      by (cases "m_freeBlocks s = []") (auto simp: MemPool_free_def pool_ok_def Let_def)
  next
    case False
    have "mset (heap s) = add_mset p (mset rest + mset (m_freeBlocks s))" using assms by (simp add: pool_ok_def)
    then have "mset (remove1 p (heap s)) = mset rest + mset (m_freeBlocks s)" by simp
    with False assms(1) len dec show ?thesis
      by (auto simp: MemPool_free_def pool_ok_def Let_def sys_free_def length_remove1 distinct_remove1)
  qed
qed

lemma pool_run_ok:
  assumes "pool_run env blockSize capacity held s" and "heap_ok env"
  shows "pool_ok capacity held s"
  using assms
proof (induction rule: pool_run.induct)
  case start
  then show ?case by (simp add: pool_ok_def MemPool_init_def MemPool_default_def)
next
  case (alloc held s p t)
  with pool_alloc_ok [of env capacity held s "Some p" t] show ?case by simp
next
  case (alloc_fails held s t)
  with pool_alloc_ok [of env capacity held s None t] show ?case by simp
next
  case (calloc held s num ps t)
  with pool_calloc_ok [of env capacity held s num ps t] show ?case by simp
next
  case (free held s p)
  then show ?case using pool_free_ok [of capacity held s p "remove1 p held"] by simp
next
  case (init held s b c ok)
  then show ?case by (simp add: pool_ok_def MemPool_init_def)
qed

text \<open>
  C16. Blocks of the pool are neither shared nor lost.  However callers allocate one block or
  several and give blocks back, also when the system has no memory left: every block of the heap
  is with exactly one caller or exactly once in the queue, the counter is the number of blocks
  with callers, and the queue keeps fewer blocks than the capacity.
\<close>

theorem mem_pool_exclusive:
  assumes "pool_run env blockSize capacity held s" and "heap_ok env"
  shows "distinct (held @ m_freeBlocks s) \<and> set (heap s) = set held \<union> set (m_freeBlocks s) \<and>
    unat (m_size s) = length held \<and> (m_freeBlocks s \<noteq> [] \<longrightarrow> length (m_freeBlocks s) < unat capacity)"
proof -
  note ok = pool_run_ok [OF assms]
  then have "mset (heap s) = mset (held @ m_freeBlocks s)" "distinct (heap s)" by (simp_all add: pool_ok_def)
  then have "distinct (held @ m_freeBlocks s)" "set (heap s) = set (held @ m_freeBlocks s)"
    by (metis mset_eq_imp_distinct_iff, metis mset_eq_setD)
  with ok unat_m_size [OF ok] show ?thesis by (auto simp: pool_ok_def)
qed

definition heap_sample :: heap_env where
  "heap_sample = \<lparr>aligned_alloc_result = (\<lambda>live. if length live < 3 then Some (Suc (Max (set (0 # live)))) else None)\<rparr>"

lemma heap_sample_calloc:
  "MemPool_calloc heap_sample 2 (MemPool_init 8 4 True MemPool_default) =
    ([1, 2], \<lparr>m_init = True, m_blockSize = 8, m_capacity = 4, m_size = 2, m_freeBlocks = [], heap = [2, 1]\<rparr>)"
  by code_simp

theorem mem_pool_exclusive_witness:
  "\<exists>held s. pool_run heap_sample 8 4 held s \<and> heap_ok heap_sample \<and> held = [2] \<and> m_freeBlocks s = [1] \<and> distinct (held @ m_freeBlocks s)"
proof -
  have heap: "heap_ok heap_sample"
  proof -
    have "Suc (Max (set (0 # live))) \<notin> set live" for live :: "nat list"
      by (metis List.finite_set Max_ge Suc_n_not_le_n list.set_intros(2))
    then show ?thesis by (auto simp: heap_ok_def heap_sample_def)
  qed

  let ?s = "\<lparr>m_init = True, m_blockSize = 8, m_capacity = 4, m_size = 1, m_freeBlocks = [1], heap = [2, 1]\<rparr>"
  have "pool_run heap_sample 8 4 ([1, 2] @ []) \<lparr>m_init = True, m_blockSize = 8, m_capacity = 4, m_size = 2, m_freeBlocks = [], heap = [2, 1]\<rparr>"
    by (rule pool_run.calloc [OF pool_run.start heap_sample_calloc])
  from pool_run.free [OF this, of 1] have "pool_run heap_sample 8 4 [2] ?s" by (simp add: MemPool_free_def Let_def)
  from mem_pool_exclusive [OF this heap] this heap show ?thesis by auto
qed

end
