(* ===== verification/Fd_Table.thy ===== *)
theory Fd_Table
  imports Falcon_Prelude "HOL-Library.AList"
begin

text \<open>
  The table of open files of a client or a data node (\<open>common/src/buffer/dir_open_instance.cpp\<close>).

  \<^item> An object behind a shared pointer is a number; \<open>instances\<close> gives what the object holds, so two
    tables with the same number share the object.
  \<^item> Each operation is what the code does under its locks.  \<open>WaitGetNewOpenInstance\<close> waits until
    there is room or a time limit is over; an operation of the model starts when the wait ends.
\<close>

record OpenInstance =
  oi_fd :: u64
  oi_inodeId :: u64
  oi_physicalFd :: u64
  oi_oflags :: int
  oi_originalSize :: u64
  oi_currentSize :: u64
  oi_nodeId :: int
  oi_backupNodeId :: int
  oi_path :: string
  oi_readBuffer :: "nat option"

definition OpenInstance_default :: OpenInstance where
  "OpenInstance_default = \<lparr>oi_fd = - 1, oi_inodeId = 0, oi_physicalFd = - 1, oi_oflags = 0, oi_originalSize = 0, oi_currentSize = 0,
     oi_nodeId = - 1, oi_backupNodeId = - 1, oi_path = '''', oi_readBuffer = None\<rparr>"

record FalconFd =
  openInstanceMap :: "(u64 \<times> nat) list"
  dirOpenInstanceMap :: "(u64 \<times> nat) list"
  inodeToOpenInstanceMap :: "(u64 \<times> nat list) list"
  nextFD :: u64
  currOpenInstance :: u32
  instances :: "nat \<Rightarrow> OpenInstance"
  object_count :: nat

definition START_FD :: u64 where
  "START_FD = 3"

definition FalconFd_init :: FalconFd where
  "FalconFd_init = \<lparr>openInstanceMap = [], dirOpenInstanceMap = [], inodeToOpenInstanceMap = [], nextFD = START_FD,
     currOpenInstance = 0, instances = (\<lambda>_. OpenInstance_default), object_count = 0\<rparr>"

subsection \<open>Descriptors\<close>

text \<open>The counter wraps around; the numbers of the standard streams and the largest number are skipped.\<close>

function ObtainFd :: "FalconFd \<Rightarrow> u64 \<times> FalconFd" where
  "ObtainFd s =
    (let newFd = nextFD s; s = s\<lparr>nextFD := nextFD s + 1\<rparr> in
     if newFd \<le> 2 \<or> newFd = - 1 then ObtainFd s else (newFd, s))"
  by pat_completeness auto
termination
proof (relation "measure (\<lambda>s. if nextFD s = - 1 then 4 else 3 - unat (nextFD s))", goal_cases)
  case 1
  then show ?case by simp
next
  case (2 s newFd t)
  show ?case
  proof (cases "nextFD s = - 1")
    case True
    with 2 show ?thesis by simp
  next
    case False
    with 2 have le: "unat (nextFD s) \<le> 2" by (simp add: word_le_nat_alt)
    then have suc: "unat (nextFD s + 1) = unat (nextFD s) + 1" by (simp add: unat_word_ariths)
    have "nextFD s + 1 \<noteq> - 1"
    proof
      assume "nextFD s + 1 = - 1"
      with suc le have "unat (- 1 :: u64) \<le> 3" by simp
      moreover have "unat (4 :: u64) \<le> unat (- 1 :: u64)" unfolding word_le_nat_alt [symmetric] by simp
      ultimately show False by simp
    qed
    with 2 False le suc show ?thesis by simp
  qed
qed

declare ObtainFd.simps [simp del]

definition AddOpenInstance :: "u64 \<Rightarrow> nat \<Rightarrow> FalconFd \<Rightarrow> FalconFd" where
  "AddOpenInstance fd p s =
    (if map_of (openInstanceMap s) fd = None then s\<lparr>openInstanceMap := AList.update fd p (openInstanceMap s)\<rparr> else s)"

definition inode_set :: "FalconFd \<Rightarrow> u64 \<Rightarrow> nat list" where
  "inode_set s inodeId = (case map_of (inodeToOpenInstanceMap s) inodeId of None \<Rightarrow> [] | Some ps \<Rightarrow> ps)"

definition insert_inode :: "u64 \<Rightarrow> nat \<Rightarrow> FalconFd \<Rightarrow> FalconFd" where
  "insert_inode inodeId p s = s\<lparr>inodeToOpenInstanceMap :=
     AList.update inodeId (List.insert p (inode_set s inodeId)) (inodeToOpenInstanceMap s)\<rparr>"

text \<open>An empty set of instances leaves the map.\<close>

definition erase_inode :: "u64 \<Rightarrow> nat \<Rightarrow> FalconFd \<Rightarrow> FalconFd" where
  "erase_inode inodeId p s =
    (let left = removeAll p (inode_set s inodeId) in
     s\<lparr>inodeToOpenInstanceMap := (if left = [] then AList.delete inodeId (inodeToOpenInstanceMap s)
         else AList.update inodeId left (inodeToOpenInstanceMap s))\<rparr>)"

definition EBADF_fd :: int where
  "EBADF_fd = 9"

definition ReleaseOpenInstance :: "FalconFd \<Rightarrow> FalconFd" where
  "ReleaseOpenInstance s = s\<lparr>currOpenInstance := currOpenInstance s - 1\<rparr>"

definition DeleteOpenInstance :: "u64 \<Rightarrow> bool \<Rightarrow> FalconFd \<Rightarrow> int \<times> FalconFd" where
  "DeleteOpenInstance fd subCnt s =
    (if fd = - 1 then (0, s)
     else case map_of (openInstanceMap s) fd of
       None \<Rightarrow> (- EBADF_fd, s)
     | Some p \<Rightarrow>
        let s = s\<lparr>openInstanceMap := AList.delete fd (openInstanceMap s)\<rparr>;
            s = erase_inode (oi_inodeId (instances s p)) p s in
        (0, if subCnt then ReleaseOpenInstance s else s))"

text \<open>\<open>alloc_ok\<close>: the object could be allocated.\<close>

definition WaitGetNewOpenInstance :: "u32 \<Rightarrow> bool \<Rightarrow> bool \<Rightarrow> FalconFd \<Rightarrow> nat option \<times> FalconFd" where
  "WaitGetNewOpenInstance maxOpenInstanceNum alloc_ok addCnt s =
    (if addCnt \<and> maxOpenInstanceNum \<noteq> 0 \<and> \<not> currOpenInstance s < maxOpenInstanceNum then (None, s)
     else if \<not> alloc_ok then (None, s)
     else
       let p = object_count s;
           s = s\<lparr>object_count := p + 1, instances := (instances s)(p := OpenInstance_default)\<rparr> in
       (Some p, if addCnt then s\<lparr>currOpenInstance := currOpenInstance s + 1\<rparr> else s))"

definition AttachFd_new :: "u32 \<Rightarrow> bool \<Rightarrow> u64 \<Rightarrow> int \<Rightarrow> nat option \<Rightarrow> u64 \<Rightarrow> string \<Rightarrow> int \<Rightarrow> int \<Rightarrow> bool \<Rightarrow> FalconFd \<Rightarrow> u64 \<times> FalconFd" where
  "AttachFd_new maxOpenInstanceNum alloc_ok inodeId oflags readBuffer fileSize path nodeId backupNodeId isRead s =
    (case WaitGetNewOpenInstance maxOpenInstanceNum alloc_ok True s of
       (None, s) \<Rightarrow> (- 1, s)
     | (Some p, s) \<Rightarrow>
        let (fd, s) = ObtainFd s;
            inst = (instances s p)\<lparr>oi_inodeId := inodeId, oi_fd := fd, oi_physicalFd := - 1, oi_oflags := oflags,
              oi_originalSize := fileSize, oi_currentSize := fileSize, oi_nodeId := nodeId, oi_backupNodeId := backupNodeId, oi_path := path\<rparr>;
            inst = (if isRead then inst\<lparr>oi_readBuffer := readBuffer\<rparr> else inst);
            s = AddOpenInstance fd p (s\<lparr>instances := (instances s)(p := inst)\<rparr>) in
        (fd, insert_inode inodeId p s))"

definition AttachFd :: "nat \<Rightarrow> FalconFd \<Rightarrow> u64 \<times> FalconFd" where
  "AttachFd p s =
    (let (fd, s) = ObtainFd s;
         s = s\<lparr>instances := (instances s)(p := (instances s p)\<lparr>oi_fd := fd\<rparr>)\<rparr>;
         s = AddOpenInstance fd p s in
     (fd, insert_inode (oi_inodeId (instances s p)) p s))"

definition GetOpenInstanceByFd :: "u64 \<Rightarrow> FalconFd \<Rightarrow> nat option" where
  "GetOpenInstanceByFd fd s = map_of (openInstanceMap s) fd"

definition GetInodetoOpenInstanceSet :: "u64 \<Rightarrow> FalconFd \<Rightarrow> nat list" where
  "GetInodetoOpenInstanceSet inodeId s = inode_set s inodeId"

subsection \<open>Directories\<close>

definition AddDirOpenInstance :: "u64 \<Rightarrow> nat \<Rightarrow> FalconFd \<Rightarrow> int \<times> FalconFd" where
  "AddDirOpenInstance fd p s =
    (if map_of (dirOpenInstanceMap s) fd = None then (0, s\<lparr>dirOpenInstanceMap := AList.update fd p (dirOpenInstanceMap s)\<rparr>)
     else (- EBADF_fd, s))"

definition AttachDirFd :: "bool \<Rightarrow> FalconFd \<Rightarrow> u64 \<times> FalconFd" where
  "AttachDirFd alloc_ok s =
    (let (fd, s) = ObtainFd s in
     if \<not> alloc_ok then (- 1, s)
     else let p = object_count s; s = s\<lparr>object_count := p + 1\<rparr> in (fd, snd (AddDirOpenInstance fd p s)))"

definition GetDirOpenInstanceByFd :: "u64 \<Rightarrow> FalconFd \<Rightarrow> nat option" where
  "GetDirOpenInstanceByFd fd s = map_of (dirOpenInstanceMap s) fd"

definition DeleteDirOpenInstance :: "u64 \<Rightarrow> FalconFd \<Rightarrow> int \<times> FalconFd" where
  "DeleteDirOpenInstance fd s =
    (if map_of (dirOpenInstanceMap s) fd = None then (- EBADF_fd, s)
     else (0, s\<lparr>dirOpenInstanceMap := AList.delete fd (dirOpenInstanceMap s)\<rparr>))"

subsection \<open>Runs\<close>

text \<open>
  \<open>ps\<close> are the objects that a caller has got and not attached yet, \<open>cs\<close> the objects that count
  for the limit.  A caller fills in an object before attaching it, gives an object back that it
  does not attach, and deletes with the flag with which the object was got.  Fewer descriptors are
  handed out than there are numbers.
\<close>

inductive fd_run :: "u32 \<Rightarrow> FalconFd \<Rightarrow> nat list \<Rightarrow> nat list \<Rightarrow> bool" for maxNum where
  start: "fd_run maxNum FalconFd_init [] []"
| wait: "fd_run maxNum s ps cs \<Longrightarrow> WaitGetNewOpenInstance maxNum ok addCnt s = (Some p, t) \<Longrightarrow>
    fd_run maxNum t (p # ps) (if addCnt then p # cs else cs)"
| fill: "fd_run maxNum s ps cs \<Longrightarrow> p \<in> set ps \<Longrightarrow> fd_run maxNum (s\<lparr>instances := (instances s)(p := inst)\<rparr>) ps cs"
| give_back: "fd_run maxNum s ps cs \<Longrightarrow> p \<in> set ps \<Longrightarrow> p \<in> set cs \<Longrightarrow> fd_run maxNum (ReleaseOpenInstance s) (removeAll p ps) (removeAll p cs)"
| attach: "fd_run maxNum s ps cs \<Longrightarrow> p \<in> set ps \<Longrightarrow> nextFD s \<noteq> - 1 \<Longrightarrow> fd_run maxNum (snd (AttachFd p s)) (removeAll p ps) cs"
| attach_new: "fd_run maxNum s ps cs \<Longrightarrow> nextFD s \<noteq> - 1 \<Longrightarrow>
    AttachFd_new maxNum ok inodeId oflags readBuffer fileSize path nodeId backupNodeId isRead s = (fd, t) \<Longrightarrow>
    fd_run maxNum t ps (if fd = - 1 then cs else object_count s # cs)"
| delete: "fd_run maxNum s ps cs \<Longrightarrow> DeleteOpenInstance fd subCnt s = (r, t) \<Longrightarrow>
    (\<And>p. map_of (openInstanceMap s) fd = Some p \<Longrightarrow> subCnt = (p \<in> set cs)) \<Longrightarrow>
    fd_run maxNum t ps (case map_of (openInstanceMap s) fd of None \<Rightarrow> cs | Some p \<Rightarrow> removeAll p cs)"
| attach_dir: "fd_run maxNum s ps cs \<Longrightarrow> nextFD s \<noteq> - 1 \<Longrightarrow> fd_run maxNum (snd (AttachDirFd ok s)) ps cs"
| delete_dir: "fd_run maxNum s ps cs \<Longrightarrow> fd_run maxNum (snd (DeleteDirOpenInstance fd s)) ps cs"

definition attached :: "FalconFd \<Rightarrow> nat \<Rightarrow> bool" where
  "attached s p \<longleftrightarrow> map_of (openInstanceMap s) (oi_fd (instances s p)) = Some p"

definition fd_ok :: "FalconFd \<Rightarrow> nat list \<Rightarrow> nat list \<Rightarrow> bool" where
  "fd_ok s ps cs \<longleftrightarrow>
     (\<forall>fd p. map_of (openInstanceMap s) fd = Some p \<longrightarrow> oi_fd (instances s p) = fd \<and> p \<notin> set ps \<and> p < object_count s \<and> 2 < fd \<and> fd < nextFD s) \<and>
     (\<forall>inode p. p \<in> set (inode_set s inode) \<longleftrightarrow> attached s p \<and> oi_inodeId (instances s p) = inode) \<and>
     (\<forall>fd p. map_of (dirOpenInstanceMap s) fd = Some p \<longrightarrow> map_of (openInstanceMap s) fd = None \<and> fd < nextFD s) \<and>
     (\<forall>p\<in>set ps. p < object_count s) \<and> (\<forall>p\<in>set cs. p < object_count s \<and> (p \<in> set ps \<or> attached s p)) \<and> distinct ps \<and> distinct cs \<and>
     currOpenInstance s = of_nat (length cs) \<and> 2 < nextFD s"

lemma ObtainFd_next:
  assumes "2 < nextFD s" and "nextFD s \<noteq> - 1"
  shows "ObtainFd s = (nextFD s, s\<lparr>nextFD := nextFD s + 1\<rparr>)" and "nextFD s < nextFD s + 1"
proof -
  show "ObtainFd s = (nextFD s, s\<lparr>nextFD := nextFD s + 1\<rparr>)" using assms not_le [THEN iffD2, OF assms(1)] by (simp add: ObtainFd.simps [of s] Let_def)
  show "nextFD s < nextFD s + 1" using assms(2) by (metis inc_less_eq_triv_imp not_le)
qed

lemma fd_okD:
  assumes "fd_ok s ps cs"
  shows "map_of (openInstanceMap s) fd = Some p \<Longrightarrow> oi_fd (instances s p) = fd \<and> p \<notin> set ps \<and> p < object_count s \<and> 2 < fd \<and> fd < nextFD s"
    and "p \<in> set (inode_set s inode) \<longleftrightarrow> attached s p \<and> oi_inodeId (instances s p) = inode"
    and "map_of (dirOpenInstanceMap s) fd = Some p \<Longrightarrow> map_of (openInstanceMap s) fd = None \<and> fd < nextFD s"
    and "q \<in> set ps \<Longrightarrow> q < object_count s" and "q \<in> set cs \<Longrightarrow> q < object_count s \<and> (q \<in> set ps \<or> attached s q)"
    and "distinct ps" and "distinct cs" and "currOpenInstance s = of_nat (length cs)" and "2 < nextFD s"
  using assms unfolding fd_ok_def by blast+

lemma fd_okI:
  assumes "\<And>fd p. map_of (openInstanceMap s) fd = Some p \<Longrightarrow> oi_fd (instances s p) = fd \<and> p \<notin> set ps \<and> p < object_count s \<and> 2 < fd \<and> fd < nextFD s"
    and "\<And>inode p. p \<in> set (inode_set s inode) \<longleftrightarrow> attached s p \<and> oi_inodeId (instances s p) = inode"
    and "\<And>fd p. map_of (dirOpenInstanceMap s) fd = Some p \<Longrightarrow> map_of (openInstanceMap s) fd = None \<and> fd < nextFD s"
    and "\<And>q. q \<in> set ps \<Longrightarrow> q < object_count s" and "\<And>q. q \<in> set cs \<Longrightarrow> q < object_count s \<and> (q \<in> set ps \<or> attached s q)"
    and "distinct ps" and "distinct cs" and "currOpenInstance s = of_nat (length cs)" and "2 < nextFD s"
  shows "fd_ok s ps cs"
  using assms unfolding fd_ok_def by blast

lemma not_attached_pending:
  assumes "fd_ok s ps cs" and "p \<in> set ps \<or> \<not> p < object_count s"
  shows "\<not> attached s p" and "p \<notin> set (inode_set s inode)"
  using fd_okD(1,2) [OF assms(1)] assms(2) unfolding attached_def by blast+

lemma inode_set_insert: "set (inode_set (insert_inode inodeId p s) inode) =
    (if inode = inodeId then insert p (set (inode_set s inode)) else set (inode_set s inode))"
  by (cases "map_of (inodeToOpenInstanceMap s) inodeId") (auto simp: inode_set_def insert_inode_def update_conv')

lemma inode_set_erase: "set (inode_set (erase_inode inodeId p s) inode) =
    (if inode = inodeId then set (inode_set s inode) - {p} else set (inode_set s inode))"
  by (cases "map_of (inodeToOpenInstanceMap s) inodeId")
    (auto simp: inode_set_def erase_inode_def Let_def update_conv' AList.delete_conv' removeAll_filter_not_eq filter_empty_conv)

text \<open>A change of an object that no table has.\<close>

lemma fill_ok:
  assumes "fd_ok s ps cs" and "p \<in> set ps"
  shows "fd_ok (s\<lparr>instances := (instances s)(p := inst)\<rparr>) ps cs"
proof -
  let ?t = "s\<lparr>instances := (instances s)(p := inst)\<rparr>"
  have other: "q \<noteq> p" if "map_of (openInstanceMap s) fd = Some q" for fd q
    using fd_okD(1) [OF assms(1) that] assms(2) by auto
  have att: "attached ?t q = attached s q" for q
    using not_attached_pending(1) [OF assms(1)] assms(2) other by (auto simp: attached_def)
  have set: "inode_set ?t = inode_set s" by (simp add: inode_set_def fun_eq_iff)
  show ?thesis
  proof (rule fd_okI)
    fix inode q
    show "q \<in> set (inode_set ?t inode) \<longleftrightarrow> attached ?t q \<and> oi_inodeId (instances ?t q) = inode"
      using fd_okD(2) [OF assms(1), of q inode] not_attached_pending(1) [OF assms(1), of p] assms(2)
      unfolding set att by auto
  qed (use fd_okD(1,3-) [OF assms(1)] other att in auto)
qed

text \<open>The object gets the next descriptor.\<close>

lemma attach_ok:
  assumes "fd_ok s ps cs" and "p \<in> set ps" and "nextFD s \<noteq> - 1"
  shows "fd_ok (snd (AttachFd p s)) (removeAll p ps) cs"
proof -
  note ok = fd_okD [OF assms(1)]
  let ?fd = "nextFD s" and ?inst = "(instances s p)\<lparr>oi_fd := nextFD s\<rparr>" and ?t = "snd (AttachFd p s)"
  note nxt = ObtainFd_next [OF ok(9) assms(3)]
  have free: "map_of (openInstanceMap s) ?fd = None" using ok(1) [of ?fd] by (cases "map_of (openInstanceMap s) ?fd") auto
  have dfree: "map_of (dirOpenInstanceMap s) ?fd = None" using ok(3) [of ?fd] by (cases "map_of (dirOpenInstanceMap s) ?fd") auto
  have t: "openInstanceMap ?t = AList.update ?fd p (openInstanceMap s)" "instances ?t = (instances s)(p := ?inst)"
    "dirOpenInstanceMap ?t = dirOpenInstanceMap s" "nextFD ?t = nextFD s + 1" "currOpenInstance ?t = currOpenInstance s"
    "object_count ?t = object_count s"
    by (simp_all add: AttachFd_def nxt AddOpenInstance_def free insert_inode_def Let_def)
  have set: "set (inode_set ?t inode) = (if inode = oi_inodeId (instances s p) then insert p (set (inode_set s inode)) else set (inode_set s inode))" for inode
    using inode_set_insert [of "oi_inodeId (instances s p)" p "AddOpenInstance ?fd p (s\<lparr>nextFD := nextFD s + 1, instances := (instances s)(p := ?inst)\<rparr>)" inode]
    by (simp add: AttachFd_def nxt AddOpenInstance_def free inode_set_def Let_def)
  have other: "q \<noteq> p" "fd \<noteq> ?fd" if "map_of (openInstanceMap s) fd = Some q" for fd q
    using ok(1) [OF that] assms(2) by auto
  have lookup: "map_of (openInstanceMap ?t) fd = (if fd = ?fd then Some p else map_of (openInstanceMap s) fd)" for fd
    by (simp add: t(1) update_conv')
  have att: "attached ?t q \<longleftrightarrow> q = p \<or> attached s q" for q
    using other by (auto simp: attached_def lookup t(2))
  show ?thesis
  proof (rule fd_okI)
    fix fd q assume "map_of (openInstanceMap ?t) fd = Some q"
    then consider "fd = ?fd" "q = p" | "map_of (openInstanceMap s) fd = Some q" unfolding lookup by (cases "fd = ?fd") simp_all
    then show "oi_fd (instances ?t q) = fd \<and> q \<notin> set (removeAll p ps) \<and> q < object_count ?t \<and> 2 < fd \<and> fd < nextFD ?t"
    proof cases
      case 1
      with ok(4) [OF assms(2)] ok(9) nxt(2) show ?thesis by (simp add: t(2,4,6))
    next
      case 2
      have "fd < nextFD s + 1" using ok(1) [OF 2] nxt(2) by (blast intro: less_trans)
      with ok(1) [OF 2] other [OF 2] show ?thesis by (simp add: t(2,4,6))
    qed
  next
    fix inode q
    show "q \<in> set (inode_set ?t inode) \<longleftrightarrow> attached ?t q \<and> oi_inodeId (instances ?t q) = inode"
      using ok(2) [of q inode] not_attached_pending(1) [OF assms(1), of p] not_attached_pending(2) [OF assms(1), of p inode] assms(2)
      unfolding set att t(2) by auto
  next
    fix fd q assume "map_of (dirOpenInstanceMap ?t) fd = Some q"
    then have "map_of (dirOpenInstanceMap s) fd = Some q" by (simp add: t(3))
    from ok(3) [OF this] this dfree nxt(2) show "map_of (openInstanceMap ?t) fd = None \<and> fd < nextFD ?t"
      unfolding lookup t(4) by (metis less_trans option.distinct(1))
  next
    fix q assume "q \<in> set (removeAll p ps)"
    then show "q < object_count ?t" using ok(4) [of q] by (simp add: t)
  next
    fix q assume "q \<in> set cs"
    then show "q < object_count ?t \<and> (q \<in> set (removeAll p ps) \<or> attached ?t q)" using ok(5) [of q] by (auto simp: t(6) att)
  next
    show "2 < nextFD ?t" using ok(9) nxt(2) unfolding t(4) by (rule less_trans)
  qed (simp_all add: ok(6-8) t(5) distinct_removeAll)
qed

lemma wait_ok:
  assumes "fd_ok s ps cs" and "WaitGetNewOpenInstance maxNum ok addCnt s = (Some p, t)"
  shows "fd_ok t (p # ps) (if addCnt then p # cs else cs)" and "p = object_count s" and "nextFD t = nextFD s"
proof -
  note ok = fd_okD [OF assms(1)]
  have p: "p = object_count s" and t: "openInstanceMap t = openInstanceMap s" "dirOpenInstanceMap t = dirOpenInstanceMap s"
    "inodeToOpenInstanceMap t = inodeToOpenInstanceMap s" "nextFD t = nextFD s" "object_count t = object_count s + 1"
    "instances t = (instances s)(p := OpenInstance_default)" "currOpenInstance t = currOpenInstance s + (if addCnt then 1 else 0)"
    using assms(2) by (auto simp: WaitGetNewOpenInstance_def Let_def split: if_splits)
  have other: "q \<noteq> p" if "map_of (openInstanceMap s) fd = Some q" for fd q using ok(1) [OF that] p by auto
  have new: "\<not> attached s p" using not_attached_pending(1) [OF assms(1), of p] p by simp
  have att: "attached t q \<longleftrightarrow> attached s q" for q using other new by (auto simp: attached_def t)
  have set: "inode_set t = inode_set s" by (simp add: inode_set_def fun_eq_iff t(3))
  show "p = object_count s" "nextFD t = nextFD s" by fact+
  show "fd_ok t (p # ps) (if addCnt then p # cs else cs)"
  proof (rule fd_okI)
    fix fd q assume "map_of (openInstanceMap t) fd = Some q"
    then show "oi_fd (instances t q) = fd \<and> q \<notin> set (p # ps) \<and> q < object_count t \<and> 2 < fd \<and> fd < nextFD t"
      using ok(1) [of fd q] other [of fd q] by (simp add: t)
  next
    fix inode q
    show "q \<in> set (inode_set t inode) \<longleftrightarrow> attached t q \<and> oi_inodeId (instances t q) = inode"
      using ok(2) [of q inode] new unfolding set att by (auto simp: t(6))
  next
    fix fd q assume "map_of (dirOpenInstanceMap t) fd = Some q"
    with ok(3) [of fd q] show "map_of (openInstanceMap t) fd = None \<and> fd < nextFD t" by (simp add: t)
  next
    fix q assume "q \<in> set (p # ps)"
    with ok(4) [of q] p show "q < object_count t" by (auto simp: t)
  next
    fix q assume "q \<in> set (if addCnt then p # cs else cs)"
    with ok(5) [of q] p show "q < object_count t \<and> (q \<in> set (p # ps) \<or> attached t q)" unfolding att by (auto simp: t split: if_splits)
  next
    show "distinct (p # ps)" using ok(6) ok(4) [of p] p by auto
    show "distinct (if addCnt then p # cs else cs)" using ok(7) ok(5) [of p] p by auto
  qed (use ok(8,9) in \<open>simp_all add: t\<close>)
qed

lemma fail_ok: "WaitGetNewOpenInstance maxNum ok addCnt s = (None, t) \<Longrightarrow> t = s"
  by (auto simp: WaitGetNewOpenInstance_def Let_def split: if_splits)

text \<open>Getting, filling in and attaching in one call.\<close>

lemma AttachFd_new_steps:
  assumes "fd_ok s ps cs" and "nextFD s \<noteq> - 1"
    and "AttachFd_new maxNum ok inodeId oflags readBuffer fileSize path nodeId backupNodeId isRead s = (fd, t)"
  shows "fd_ok t ps (if fd = - 1 then cs else object_count s # cs)"
proof (cases "WaitGetNewOpenInstance maxNum ok True s")
  case (Pair r u)
  show ?thesis
  proof (cases r)
    case None
    with assms(1,3) Pair fail_ok [of maxNum ok True s u] show ?thesis by (simp add: AttachFd_new_def)
  next
    case (Some p)
    note u = wait_ok [OF assms(1) Pair [unfolded Some]]
    have fd: "nextFD u \<noteq> - 1" "2 < nextFD u" using u(3) assms(2) fd_okD(9) [OF assms(1)] by simp_all
    define inst where "inst = (let inst = (instances u p)\<lparr>oi_inodeId := inodeId, oi_physicalFd := - 1, oi_oflags := oflags,
        oi_originalSize := fileSize, oi_currentSize := fileSize, oi_nodeId := nodeId, oi_backupNodeId := backupNodeId, oi_path := path\<rparr>
      in if isRead then inst\<lparr>oi_readBuffer := readBuffer\<rparr> else inst)"
    let ?v = "u\<lparr>instances := (instances u)(p := inst)\<rparr>"
    have "AttachFd p ?v = (fd, t)"
      using assms(3) Pair Some ObtainFd_next [OF fd(2,1)] ObtainFd_next [of ?v] fd
      by (cases "instances u p")
        (simp add: AttachFd_new_def AttachFd_def Let_def inst_def insert_inode_def AddOpenInstance_def inode_set_def split: if_splits)
    moreover have "fd_ok ?v (p # ps) (p # cs)" using fill_ok [OF u(1)] by simp
    ultimately have "fd_ok t (removeAll p (p # ps)) (p # cs)" using attach_ok [of ?v "p # ps" "p # cs" p] fd(1) by simp
    moreover have "removeAll p (p # ps) = ps" using fd_okD(6) [OF u(1)] by simp
    moreover have "fd \<noteq> - 1" using \<open>AttachFd p ?v = (fd, t)\<close> ObtainFd_next [of ?v] fd by (simp add: AttachFd_def Let_def)
    ultimately show ?thesis using u(2) by simp
  qed
qed

lemma delete_ok:
  assumes "fd_ok s ps cs" and "DeleteOpenInstance fd subCnt s = (r, t)" and "map_of (openInstanceMap s) fd = Some p" and "subCnt = (p \<in> set cs)"
  shows "fd_ok t ps (removeAll p cs)"
proof -
  note ok = fd_okD [OF assms(1)]
  note fd = ok(1) [OF assms(3)]
  have "fd \<noteq> - 1" using fd by (metis word_order.extremum_strict)
  then have t: "openInstanceMap t = AList.delete fd (openInstanceMap s)" "instances t = instances s" "dirOpenInstanceMap t = dirOpenInstanceMap s"
    "nextFD t = nextFD s" "object_count t = object_count s" "currOpenInstance t = currOpenInstance s - (if p \<in> set cs then 1 else 0)"
    "inodeToOpenInstanceMap t = inodeToOpenInstanceMap (erase_inode (oi_inodeId (instances s p)) p s)"
    using assms(2-4) by (auto simp: DeleteOpenInstance_def Let_def erase_inode_def ReleaseOpenInstance_def inode_set_def)
  have set: "set (inode_set t inode) = (if inode = oi_inodeId (instances s p) then set (inode_set s inode) - {p} else set (inode_set s inode))" for inode
    using inode_set_erase [of "oi_inodeId (instances s p)" p s inode] t(7) by (simp add: inode_set_def)
  have lookup: "map_of (openInstanceMap t) fd' = (if fd' = fd then None else map_of (openInstanceMap s) fd')" for fd'
    by (simp add: t(1) AList.delete_conv')
  have att: "attached t q \<longleftrightarrow> q \<noteq> p \<and> attached s q" for q using fd assms(3) by (auto simp: attached_def lookup t(2))
  have len: "length cs = (if p \<in> set cs then Suc (length (removeAll p cs)) else length (removeAll p cs))"
    using ok(7) by (auto simp: distinct_remove1_removeAll [symmetric] length_remove1 remove1_idem dest: length_pos_if_in_set)
  show ?thesis
  proof (rule fd_okI)
    fix fd' q assume "map_of (openInstanceMap t) fd' = Some q"
    then show "oi_fd (instances t q) = fd' \<and> q \<notin> set ps \<and> q < object_count t \<and> 2 < fd' \<and> fd' < nextFD t"
      using ok(1) [of fd' q] unfolding lookup by (simp add: t split: if_splits)
  next
    fix inode q
    show "q \<in> set (inode_set t inode) \<longleftrightarrow> attached t q \<and> oi_inodeId (instances t q) = inode"
      using ok(2) [of q inode] unfolding set att t(2) by auto
  next
    fix fd' q assume "map_of (dirOpenInstanceMap t) fd' = Some q"
    with ok(3) [of fd' q] show "map_of (openInstanceMap t) fd' = None \<and> fd' < nextFD t" unfolding lookup by (simp add: t)
  next
    fix q assume "q \<in> set ps"
    with ok(4) show "q < object_count t" by (simp add: t)
  next
    fix q assume "q \<in> set (removeAll p cs)"
    with ok(5) [of q] show "q < object_count t \<and> (q \<in> set ps \<or> attached t q)" unfolding att by (simp add: t)
  next
    show "currOpenInstance t = of_nat (length (removeAll p cs))" unfolding t(6) ok(8) len by simp
  qed (use ok(6,7,9) in \<open>simp_all add: t distinct_removeAll\<close>)
qed

lemma give_back_ok:
  assumes "fd_ok s ps cs" and "p \<in> set ps" and "p \<in> set cs"
  shows "fd_ok (ReleaseOpenInstance s) (removeAll p ps) (removeAll p cs)"
proof -
  note ok = fd_okD [OF assms(1)]
  let ?t = "ReleaseOpenInstance s"
  have att: "attached ?t = attached s" and set: "inode_set ?t = inode_set s"
    and t: "openInstanceMap ?t = openInstanceMap s" "instances ?t = instances s" "dirOpenInstanceMap ?t = dirOpenInstanceMap s"
      "nextFD ?t = nextFD s" "object_count ?t = object_count s" "currOpenInstance ?t = currOpenInstance s - 1"
    by (simp_all add: attached_def inode_set_def ReleaseOpenInstance_def fun_eq_iff)
  have "length cs = Suc (length (removeAll p cs))"
    using ok(7) assms(3) by (auto simp: distinct_remove1_removeAll [symmetric] length_remove1 dest: length_pos_if_in_set)
  then have "of_nat (length cs) - 1 = (of_nat (length (removeAll p cs)) :: u32)" by simp
  then show ?thesis
    using ok(1-6,9) distinct_removeAll [OF ok(7)]
    by (intro fd_okI) (auto simp: att set t ok(8) distinct_removeAll)
qed

lemma attach_dir_ok:
  assumes "fd_ok s ps cs" and "nextFD s \<noteq> - 1"
  shows "fd_ok (snd (AttachDirFd alloc s)) ps cs"
proof -
  note ok = fd_okD [OF assms(1)]
  note nxt = ObtainFd_next [OF ok(9) assms(2)]
  let ?t = "snd (AttachDirFd alloc s)"
  have t: "openInstanceMap ?t = openInstanceMap s" "instances ?t = instances s" "inodeToOpenInstanceMap ?t = inodeToOpenInstanceMap s"
    "nextFD ?t = nextFD s + 1" "currOpenInstance ?t = currOpenInstance s" "object_count s \<le> object_count ?t"
    by (simp_all add: AttachDirFd_def nxt AddDirOpenInstance_def Let_def)
  have dir: "map_of (dirOpenInstanceMap ?t) fd = Some q \<Longrightarrow> fd = nextFD s \<or> map_of (dirOpenInstanceMap s) fd = Some q" for fd q
    by (auto simp: AttachDirFd_def nxt AddDirOpenInstance_def Let_def update_conv' split: if_splits)
  have att: "attached ?t = attached s" and set: "inode_set ?t = inode_set s" by (simp_all add: attached_def inode_set_def fun_eq_iff t)
  have lt: "fd < nextFD s \<Longrightarrow> fd < nextFD s + 1" for fd using nxt(2) by (rule less_trans [rotated])
  have free: "map_of (openInstanceMap s) (nextFD s) = None" using ok(1) [of "nextFD s"] by (cases "map_of (openInstanceMap s) (nextFD s)") auto
  show ?thesis
  proof (rule fd_okI)
    fix fd q assume "map_of (dirOpenInstanceMap ?t) fd = Some q"
    from dir [OF this] show "map_of (openInstanceMap ?t) fd = None \<and> fd < nextFD ?t"
      using free nxt(2) ok(3) [of fd q] lt by (auto simp: t)
  next
    fix fd q assume "map_of (openInstanceMap ?t) fd = Some q"
    with ok(1) [of fd q] lt t(6) show "oi_fd (instances ?t q) = fd \<and> q \<notin> set ps \<and> q < object_count ?t \<and> 2 < fd \<and> fd < nextFD ?t"
      by (auto simp: t(1-5))
  next
    fix q assume "q \<in> set cs"
    with ok(5) [of q] t(6) show "q < object_count ?t \<and> (q \<in> set ps \<or> attached ?t q)" unfolding att by auto
  next
    fix q assume "q \<in> set ps"
    with ok(4) [of q] t(6) show "q < object_count ?t" by simp
  next
    show "2 < nextFD ?t" unfolding t(4) by (rule less_trans [OF ok(9) nxt(2)])
  qed (use ok(2,6-8) in \<open>simp_all add: att set t\<close>)
qed

lemma delete_dir_ok:
  assumes "fd_ok s ps cs"
  shows "fd_ok (snd (DeleteDirOpenInstance fd s)) ps cs"
proof -
  let ?t = "snd (DeleteDirOpenInstance fd s)"
  have "map_of (dirOpenInstanceMap ?t) fd' = Some q \<Longrightarrow> map_of (dirOpenInstanceMap s) fd' = Some q" for fd' q
    by (auto simp: DeleteDirOpenInstance_def AList.delete_conv' split: if_splits)
  moreover have "openInstanceMap ?t = openInstanceMap s" "instances ?t = instances s" "inodeToOpenInstanceMap ?t = inodeToOpenInstanceMap s"
    "nextFD ?t = nextFD s" "currOpenInstance ?t = currOpenInstance s" "object_count ?t = object_count s"
    by (simp_all add: DeleteDirOpenInstance_def)
  ultimately show ?thesis using assms unfolding fd_ok_def attached_def inode_set_def by (simp; blast)
qed

lemma fd_run_ok: "fd_run maxNum s ps cs \<Longrightarrow> fd_ok s ps cs"
proof (induction rule: fd_run.induct)
  case start
  then show ?case by (simp add: fd_ok_def FalconFd_init_def START_FD_def inode_set_def attached_def)
next
  case (delete s ps cs fd subCnt r t)
  show ?case
  proof (cases "map_of (openInstanceMap s) fd")
    case None
    with delete show ?thesis by (auto simp: DeleteOpenInstance_def split: if_splits)
  next
    case (Some p)
    with delete delete_ok [of s ps cs fd subCnt r t p] show ?thesis by simp
  qed
qed (auto simp: wait_ok(1) fill_ok give_back_ok attach_ok AttachFd_new_steps attach_dir_ok delete_dir_ok)



end
