(* ===== verification/Disk_Cache.thy ===== *)
theory Disk_Cache
  imports Falcon_Prelude Complex_Main "HOL-Library.AList" "HOL-Library.Multiset"
begin

text \<open>
  The cache of file blocks on the local disk of a data node (\<open>falcon_store/src/disk_cache\<close>).

  \<^item> \<open>cacheItems\<close> is the list of the code; a list node keeps its identity when other nodes are
    inserted or erased, so a node is a number with an item, and an iterator is such a number.
  \<^item> Each operation is what the code does under its mutex; \<open>sleep\<close> and log output are left out.
  \<^item> The file system, the clock, \<open>std::sort\<close> and the rounding of \<open>float\<close> and \<open>double\<close> are
    parameters.  A floating point number is the rational number it stands for; the results of
    the single operations go through the rounding functions in the order of the code.
  \<^item> The file of a key is the one at \<open>GetFilePath(key)\<close>; it is named by the key.
\<close>

record CacheItem =
  ci_inode :: u64
  ci_size :: u64
  ci_atime :: u64
  ci_refs :: u32

record disk_info =
  f_bsize :: u64
  f_blocks :: u64
  f_bavail :: u64
  f_files :: u64
  f_ffree :: u64

text \<open>\<open>remove_file\<close> gives the error number of \<open>remove\<close>, 0 for success.\<close>

record 'fs disk_env =
  f32 :: "rat \<Rightarrow> rat"
  f64 :: "rat \<Rightarrow> rat"
  remove_file :: "u64 \<Rightarrow> 'fs \<Rightarrow> nat \<times> 'fs"
  statfs :: "'fs \<Rightarrow> disk_info option"
  access_ok :: "u64 \<Rightarrow> 'fs \<Rightarrow> bool"
  time_at :: "nat \<Rightarrow> u64"
  std_sort :: "CacheItem list \<Rightarrow> CacheItem list"

record 'fs DiskCache =
  totalCap :: u64
  freeCap :: u64
  blockRatio :: rat
  totalInodes :: u64
  freeInodes :: u64
  inodeRatio :: rat
  freeRatio :: rat
  bgFreeRatio :: rat
  usedCap :: u64
  cacheItems :: "(nat \<times> CacheItem) list"
  inodeToCacheIter :: "(u64 \<times> nat) list"
  stop :: bool
  hasFreeSpace :: bool
  reservedCap :: u64
  node_count :: nat
  files :: 'fs
  clock :: nat

definition DiskCache_init :: "'fs disk_env \<Rightarrow> 'fs \<Rightarrow> 'fs DiskCache" where
  "DiskCache_init env fs = \<lparr>totalCap = 0, freeCap = 0, blockRatio = 0, totalInodes = 0, freeInodes = 0, inodeRatio = 0,
     freeRatio = f32 env (1 / 10), bgFreeRatio = f32 env (2 / 10), usedCap = 0, cacheItems = [], inodeToCacheIter = [], stop = False,
     hasFreeSpace = True, reservedCap = 0, node_count = 0, files = fs, clock = 0\<rparr>"

subsection \<open>Items\<close>

text \<open>The item behind an iterator, and a change of it in place.\<close>

definition node_item :: "'fs DiskCache \<Rightarrow> nat \<Rightarrow> CacheItem" where
  "node_item s n = the (map_of (cacheItems s) n)"

definition change :: "nat \<Rightarrow> ('i \<Rightarrow> 'i) \<Rightarrow> (nat \<times> 'i) list \<Rightarrow> (nat \<times> 'i) list" where
  "change n f = map (\<lambda>p. (fst p, if fst p = n then f (snd p) else snd p))"

definition upd_node :: "nat \<Rightarrow> (CacheItem \<Rightarrow> CacheItem) \<Rightarrow> 'fs DiskCache \<Rightarrow> 'fs DiskCache" where
  "upd_node n f s = s\<lparr>cacheItems := change n f (cacheItems s)\<rparr>"

definition read_time :: "'fs disk_env \<Rightarrow> 'fs DiskCache \<Rightarrow> u64 \<times> 'fs DiskCache" where
  "read_time env s = (time_at env (clock s), s\<lparr>clock := clock s + 1\<rparr>)"

text \<open>Called for a key of the index only.\<close>

definition Pin :: "'fs disk_env \<Rightarrow> u64 \<Rightarrow> 'fs DiskCache \<Rightarrow> 'fs DiskCache" where
  "Pin env key s =
    (if stop s then s
     else case map_of (inodeToCacheIter s) key of
       None \<Rightarrow> s
     | Some n \<Rightarrow>
        let s = upd_node n (\<lambda>i. i\<lparr>ci_refs := ci_refs i + 1\<rparr>) s;
            (now, s) = read_time env s in
        upd_node n (\<lambda>i. i\<lparr>ci_atime := now\<rparr>) s)"

definition Unpin :: "u64 \<Rightarrow> 'fs DiskCache \<Rightarrow> 'fs DiskCache" where
  "Unpin key s =
    (if stop s then s
     else case map_of (inodeToCacheIter s) key of
       None \<Rightarrow> s
     | Some n \<Rightarrow> if ci_refs (node_item s n) > 0 then upd_node n (\<lambda>i. i\<lparr>ci_refs := ci_refs i - 1\<rparr>) s else s)"

definition Find :: "'fs disk_env \<Rightarrow> u64 \<Rightarrow> bool \<Rightarrow> 'fs DiskCache \<Rightarrow> bool \<times> 'fs DiskCache" where
  "Find env key needPin s =
    (if stop s then (access_ok env key (files s), s)
     else case map_of (inodeToCacheIter s) key of
       None \<Rightarrow> (False, s)
     | Some n \<Rightarrow> (True, if needPin then Pin env key s else s))"

text \<open>The node and the key leave the list and the index, with their space.\<close>

definition erase_item :: "u64 \<Rightarrow> nat \<Rightarrow> u64 \<Rightarrow> 'fs DiskCache \<Rightarrow> 'fs DiskCache" where
  "erase_item key n bytes s = s\<lparr>cacheItems := filter (\<lambda>(m, _). m \<noteq> n) (cacheItems s),
     inodeToCacheIter := AList.delete key (inodeToCacheIter s), usedCap := usedCap s - bytes, freeCap := freeCap s + bytes\<rparr>"

definition Delete :: "'fs disk_env \<Rightarrow> u64 \<Rightarrow> 'fs DiskCache \<Rightarrow> int \<times> 'fs DiskCache" where
  "Delete env key s =
    (let (err, fs) = remove_file env key (files s) in
     if stop s then (if err = 0 then 0 else - 1, s\<lparr>files := fs\<rparr>)
     else case map_of (inodeToCacheIter s) key of
       None \<Rightarrow> (0, s)
     | Some n \<Rightarrow>
        let bytes = ci_size (node_item s n) in
        if err \<noteq> 0 then (- int err, s\<lparr>files := fs\<rparr>)
        else (0, erase_item key n bytes (s\<lparr>files := fs\<rparr>)))"

definition DeleteOldCacheWithNoPin :: "'fs disk_env \<Rightarrow> u64 \<Rightarrow> 'fs DiskCache \<Rightarrow> 'fs DiskCache" where
  "DeleteOldCacheWithNoPin env key s =
    (case map_of (inodeToCacheIter s) key of
       None \<Rightarrow> s
     | Some n \<Rightarrow>
        if ci_refs (node_item s n) = 0 then
          let bytes = ci_size (node_item s n); (err, fs) = remove_file env key (files s) in
          if err \<noteq> 0 then s\<lparr>files := fs\<rparr>
          else erase_item key n bytes (s\<lparr>files := fs\<rparr>)
        else s)"

definition InsertAndUpdate :: "'fs disk_env \<Rightarrow> u64 \<Rightarrow> u64 \<Rightarrow> bool \<Rightarrow> 'fs DiskCache \<Rightarrow> 'fs DiskCache" where
  "InsertAndUpdate env key bytes needPin s =
    (if stop s then s
     else case map_of (inodeToCacheIter s) key of
       Some n \<Rightarrow>
        let old = ci_size (node_item s n);
            s = s\<lparr>usedCap := usedCap s + (bytes - old), freeCap := freeCap s - (bytes - old)\<rparr>;
            (now, s) = read_time env s in
        upd_node n (\<lambda>i. i\<lparr>ci_atime := now, ci_size := bytes\<rparr>) s
     | None \<Rightarrow>
        let (now, s) = read_time env s; n = node_count s;
            elem = \<lparr>ci_inode = key, ci_size = bytes, ci_atime = now, ci_refs = 0\<rparr>;
            s = s\<lparr>cacheItems := cacheItems s @ [(n, elem)], inodeToCacheIter := AList.update key n (inodeToCacheIter s),
              node_count := n + 1, usedCap := usedCap s + bytes, freeCap := freeCap s - bytes\<rparr> in
        if needPin then Pin env key s else s)"

definition Update :: "'fs disk_env \<Rightarrow> u64 \<Rightarrow> u64 \<Rightarrow> 'fs DiskCache \<Rightarrow> bool \<times> 'fs DiskCache" where
  "Update env key bytes s =
    (if stop s then (True, s)
     else case map_of (inodeToCacheIter s) key of
       Some n \<Rightarrow>
        let old = ci_size (node_item s n) in
        if bytes \<le> old then (True, s)
        else
          let s = s\<lparr>usedCap := usedCap s + (bytes - old), freeCap := freeCap s - (bytes - old)\<rparr>;
              (now, s) = read_time env s in
          (True, upd_node n (\<lambda>i. i\<lparr>ci_atime := now, ci_size := bytes\<rparr>) s)
     | None \<Rightarrow> (False, s))"

definition Add :: "'fs disk_env \<Rightarrow> u64 \<Rightarrow> u64 \<Rightarrow> 'fs DiskCache \<Rightarrow> bool \<times> 'fs DiskCache" where
  "Add env key bytes s =
    (if stop s then (True, s)
     else case map_of (inodeToCacheIter s) key of
       Some n \<Rightarrow>
        let s = s\<lparr>usedCap := usedCap s + bytes, freeCap := freeCap s - bytes\<rparr>;
            (now, s) = read_time env s in
        (True, upd_node n (\<lambda>i. i\<lparr>ci_atime := now, ci_size := ci_size i + bytes\<rparr>) s)
     | None \<Rightarrow> (False, s))"

subsection \<open>Free space\<close>

text \<open>A number of type \<open>uint64_t\<close> as \<open>double\<close> or \<open>float\<close>, and the cast back, which truncates.\<close>

definition as_double :: "'fs disk_env \<Rightarrow> u64 \<Rightarrow> rat" where
  "as_double env w = f64 env (of_nat (unat w))"

definition as_float :: "'fs disk_env \<Rightarrow> u64 \<Rightarrow> rat" where
  "as_float env w = f32 env (of_nat (unat w))"

definition as_u64 :: "rat \<Rightarrow> u64" where
  "as_u64 r = word_of_int \<lfloor>r\<rfloor>"

definition ratio_of :: "'fs disk_env \<Rightarrow> u64 \<Rightarrow> u64 \<Rightarrow> rat" where
  "ratio_of env part whole = f64 env (as_double env part / as_double env whole)"

definition GetCurFreeRatio :: "'fs disk_env \<Rightarrow> 'fs DiskCache \<Rightarrow> bool \<times> 'fs DiskCache" where
  "GetCurFreeRatio env s =
    (case statfs env (files s) of
       None \<Rightarrow> (False, s)
     | Some diskInfo \<Rightarrow>
        let total = f_bsize diskInfo * f_blocks diskInfo; capacity = f_bsize diskInfo * f_bavail diskInfo in
        (True, s\<lparr>totalCap := total, freeCap := capacity, blockRatio := f32 env (ratio_of env capacity total),
           totalInodes := f_files diskInfo, freeInodes := f_ffree diskInfo,
           inodeRatio := f32 env (ratio_of env (f_ffree diskInfo) (f_files diskInfo))\<rparr>))"

text \<open>
  The loop over the items, from the oldest node on: an item without pins is removed when its file
  can be removed, until enough is freed.
\<close>

fun evict_loop :: "'fs disk_env \<Rightarrow> u64 \<Rightarrow> u64 \<Rightarrow> (nat \<times> CacheItem) list \<Rightarrow> u64 \<Rightarrow> u64 \<Rightarrow> 'fs DiskCache \<Rightarrow> 'fs DiskCache" where
  "evict_loop env toFreeCap toFreeInode [] freedCap freedInode s = s"
| "evict_loop env toFreeCap toFreeInode ((n, i) # items) freedCap freedInode s =
    (if ci_refs i > 0 then evict_loop env toFreeCap toFreeInode items freedCap freedInode s
     else
       let (err, fs) = remove_file env (ci_inode i) (files s);
           s = s\<lparr>files := fs\<rparr>;
           (freedCap, freedInode, s) =
             (if err = 0 then (freedCap + ci_size i, freedInode + 1, erase_item (ci_inode i) n (ci_size i) s)
              else (freedCap, freedInode, s)) in
       if freedCap \<ge> toFreeCap \<and> freedInode \<ge> toFreeInode then s
       else evict_loop env toFreeCap toFreeInode items freedCap freedInode s)"

text \<open>How much a cleanup frees: the shortfall against a ratio, at most what the cache has.\<close>

definition space_to_free :: "'fs disk_env \<Rightarrow> rat \<Rightarrow> rat \<Rightarrow> 'fs DiskCache \<Rightarrow> u64" where
  "space_to_free env wanted current s =
    (if current < wanted then min (as_u64 (f32 env (as_float env (totalCap s) * f32 env (wanted - current)))) (usedCap s) else 0)"

definition inodes_to_free :: "'fs disk_env \<Rightarrow> rat \<Rightarrow> 'fs DiskCache \<Rightarrow> u64" where
  "inodes_to_free env wanted s =
    (if inodeRatio s < wanted
     then min (as_u64 (f32 env (as_float env (totalInodes s) * f32 env (wanted - inodeRatio s)))) (of_nat (length (inodeToCacheIter s)))
     else 0)"

definition CleanupForEvict :: "'fs disk_env \<Rightarrow> u64 \<Rightarrow> 'fs DiskCache \<Rightarrow> 'fs DiskCache" where
  "CleanupForEvict env preAllocSize s =
    (let freeBlockRatio = f32 env (f64 env (blockRatio s - ratio_of env (preAllocSize + reservedCap s) (totalCap s))) in
     evict_loop env (space_to_free env (freeRatio s) freeBlockRatio s) (inodes_to_free env (freeRatio s) s) (cacheItems s) 0 0 s)"

definition Cleanup :: "'fs disk_env \<Rightarrow> 'fs DiskCache \<Rightarrow> 'fs DiskCache" where
  "Cleanup env s =
    evict_loop env (space_to_free env (bgFreeRatio s) (blockRatio s) s) (inodes_to_free env (bgFreeRatio s) s) (cacheItems s) 0 0 s"

text \<open>One round of the cleanup thread; the thread ends when the result is \<open>False\<close>.\<close>

definition CheckFreeSpace :: "'fs disk_env \<Rightarrow> 'fs DiskCache \<Rightarrow> bool \<times> 'fs DiskCache" where
  "CheckFreeSpace env s =
    (let (ok, s) = GetCurFreeRatio env s in
     if \<not> ok then (False, s)
     else
       let s = (if blockRatio s < bgFreeRatio s \<or> inodeRatio s < bgFreeRatio s
                then Cleanup env (s\<lparr>hasFreeSpace := False\<rparr>) else s) in
       (True, s\<lparr>hasFreeSpace := (blockRatio s \<ge> bgFreeRatio s \<and> inodeRatio s \<ge> bgFreeRatio s)\<rparr>))"

definition Evict :: "'fs disk_env \<Rightarrow> u64 \<Rightarrow> 'fs DiskCache \<Rightarrow> 'fs DiskCache" where
  "Evict env bytes s = CleanupForEvict env bytes (snd (GetCurFreeRatio env s))"

primrec prealloc_loop :: "'fs disk_env \<Rightarrow> u64 \<Rightarrow> nat \<Rightarrow> 'fs DiskCache \<Rightarrow> bool \<times> 'fs DiskCache" where
  "prealloc_loop env bytes 0 s = (False, s)"
| "prealloc_loop env bytes (Suc retryCnt) s =
    (let s = Evict env bytes s in
     if reservedCap s + bytes \<ge> freeCap s then prealloc_loop env bytes retryCnt s
     else (True, s\<lparr>hasFreeSpace := True, reservedCap := reservedCap s + bytes\<rparr>))"

definition PreAllocSpace :: "'fs disk_env \<Rightarrow> u64 \<Rightarrow> 'fs DiskCache \<Rightarrow> bool \<times> 'fs DiskCache" where
  "PreAllocSpace env bytes s =
    (if stop s then (True, s)
     else if reservedCap s + bytes < freeCap s then (True, s\<lparr>reservedCap := reservedCap s + bytes\<rparr>)
     else prealloc_loop env bytes 3 (s\<lparr>hasFreeSpace := False\<rparr>))"

definition FreePreAllocSpace :: "u64 \<Rightarrow> 'fs DiskCache \<Rightarrow> 'fs DiskCache" where
  "FreePreAllocSpace bytes s = (if stop s then s else s\<lparr>reservedCap := reservedCap s - bytes\<rparr>)"

subsection \<open>Start\<close>

definition CheckSpaceEnough :: "'fs disk_env \<Rightarrow> 'fs DiskCache \<Rightarrow> bool" where
  "CheckSpaceEnough env s =
    (let blockRatio = f32 env (ratio_of env (freeCap s + usedCap s) (totalCap s));
         inodeRatio = f32 env (ratio_of env (freeInodes s + of_nat (length (inodeToCacheIter s))) (totalInodes s)) in
     \<not> (blockRatio \<le> bgFreeRatio s \<or> inodeRatio \<le> bgFreeRatio s \<or> blockRatio \<le> freeRatio s \<or> inodeRatio < freeRatio s))"

text \<open>\<open>scanned\<close>: the items that the threads of the scan have collected.\<close>

definition ScanCache :: "'fs disk_env \<Rightarrow> CacheItem list \<Rightarrow> 'fs DiskCache \<Rightarrow> 'fs DiskCache" where
  "ScanCache env scanned s =
    foldl (\<lambda>s cache. InsertAndUpdate env (ci_inode cache) (ci_size cache) False s) s
      (if scanned = [] then [] else std_sort env scanned)"

definition Start :: "'fs disk_env \<Rightarrow> CacheItem list \<Rightarrow> rat \<Rightarrow> rat \<Rightarrow> 'fs DiskCache \<Rightarrow> bool \<times> 'fs DiskCache" where
  "Start env scanned ratio bgEvitRatio s =
    (let s = s\<lparr>freeRatio := ratio\<rparr> in
     if ratio = 0 then (True, s\<lparr>stop := True\<rparr>)
     else
       let s = ScanCache env scanned (s\<lparr>bgFreeRatio := bgEvitRatio\<rparr>); (ok, s) = GetCurFreeRatio env s in
       (ok \<and> CheckSpaceEnough env s, s))"

subsection \<open>The list, the index and the accounts agree\<close>

definition dc_ok :: "'fs DiskCache \<Rightarrow> bool" where
  "dc_ok s \<longleftrightarrow> distinct (map fst (cacheItems s)) \<and> distinct (map fst (inodeToCacheIter s)) \<and>
     set (inodeToCacheIter s) = (\<lambda>(n, i). (ci_inode i, n)) ` set (cacheItems s) \<and>
     usedCap s = sum_list (map (ci_size \<circ> snd) (cacheItems s)) \<and> (\<forall>n\<in>fst ` set (cacheItems s). n < node_count s)"

text \<open>What the cache holds: the item of a key, and of it the size and the pins.\<close>

definition cached :: "'fs DiskCache \<Rightarrow> u64 \<Rightarrow> CacheItem option" where
  "cached s key = Option.bind (map_of (inodeToCacheIter s) key) (map_of (cacheItems s))"

definition view :: "'fs DiskCache \<Rightarrow> u64 \<Rightarrow> (u64 \<times> u32) option" where
  "view s key = map_option (\<lambda>i. (ci_size i, ci_refs i)) (cached s key)"

lemma index_node:
  assumes "dc_ok s" and "map_of (inodeToCacheIter s) key = Some n"
  shows "(n, node_item s n) \<in> set (cacheItems s)" and "map_of (cacheItems s) n = Some (node_item s n)"
    and "ci_inode (node_item s n) = key"
proof -
  from assms obtain i where i: "(n, i) \<in> set (cacheItems s)" "ci_inode i = key"
    by (auto simp: dc_ok_def dest!: map_of_SomeD)
  then have "map_of (cacheItems s) n = Some i" using assms(1) by (simp add: dc_ok_def)
  with i show "(n, node_item s n) \<in> set (cacheItems s)" and "map_of (cacheItems s) n = Some (node_item s n)"
    and "ci_inode (node_item s n) = key" by (simp_all add: node_item_def)
qed

lemma node_index:
  assumes "dc_ok s" and "(n, i) \<in> set (cacheItems s)"
  shows "map_of (inodeToCacheIter s) (ci_inode i) = Some n" and "node_item s n = i" and "cached s (ci_inode i) = Some i"
  using assms by (force simp: dc_ok_def node_item_def cached_def)+

lemma index_inj:
  assumes "dc_ok s" and "map_of (inodeToCacheIter s) key = Some n" and "map_of (inodeToCacheIter s) key' = Some n"
  shows "key' = key"
  using index_node(3) [OF assms(1,2)] index_node(3) [OF assms(1,3)] by simp

lemma view_node:
  assumes "dc_ok s" and "map_of (inodeToCacheIter s) key = Some n"
  shows "view s key = Some (ci_size (node_item s n), ci_refs (node_item s n))"
  using assms index_node(2) [OF assms] by (simp add: view_def cached_def)

lemma view_None: "map_of (inodeToCacheIter s) key = None \<Longrightarrow> view s key = None"
  by (simp add: view_def cached_def)

lemma cached_iff_index: "dc_ok s \<Longrightarrow> view s key = None \<longleftrightarrow> map_of (inodeToCacheIter s) key = None"
  using view_node [of s key] view_None [of s key] by (cases "map_of (inodeToCacheIter s) key") simp_all

text \<open>Changing one node.\<close>

lemma change_Nil [simp]: "change n f [] = []"
  and change_Cons [simp]: "change n f (p # xs) = (fst p, if fst p = n then f (snd p) else snd p) # change n f xs"
  by (simp_all add: change_def)

lemma map_fst_change [simp]: "map fst (change n f xs) = map fst xs"
  by (simp add: change_def comp_def)

lemma fst_set_change [simp]: "fst ` set (change n f xs) = fst ` set xs"
  by (metis map_fst_change list.set_map)

lemma image_change: "(\<And>p. g (fst p, f (snd p)) = g p) \<Longrightarrow> g ` set (change n f xs) = g ` set xs"
  by (induction xs) auto

lemma map_of_change: "map_of (change n f xs) k = map_option (\<lambda>i. if k = n then f i else i) (map_of xs k)"
  by (induction xs) auto

lemma change_other: "n \<notin> fst ` set xs \<Longrightarrow> change n f xs = xs"
  by (induction xs) auto

lemma sum_change:
  fixes f :: "'i \<Rightarrow> 'i" and sz :: "'i \<Rightarrow> 'a::ab_group_add"
  assumes "distinct (map fst xs)" and "map_of xs n = Some i"
  shows "sum_list (map (sz \<circ> snd) (change n f xs)) = sum_list (map (sz \<circ> snd) xs) + (sz (f i) - sz i)"
  using assms by (induction xs) (auto simp: change_other algebra_simps split: if_splits)

lemma filter_other: "n \<notin> fst ` set xs \<Longrightarrow> filter (\<lambda>(m, _). m \<noteq> n) xs = xs"
  by (induction xs) auto

lemma sum_erase:
  fixes sz :: "'i \<Rightarrow> 'a::ab_group_add"
  assumes "distinct (map fst xs)" and "map_of xs n = Some i"
  shows "sum_list (map (sz \<circ> snd) (filter (\<lambda>(m, _). m \<noteq> n) xs)) = sum_list (map (sz \<circ> snd) xs) - sz i"
  using assms by (induction xs) (auto simp: filter_other algebra_simps split: if_splits)

lemma upd_node_ok:
  assumes "dc_ok s" and "map_of (inodeToCacheIter s) key = Some n" and "\<And>i. ci_inode (f i) = ci_inode i"
    and "used = usedCap s + (ci_size (f (node_item s n)) - ci_size (node_item s n))"
  shows "dc_ok (upd_node n f (s\<lparr>usedCap := used\<rparr>))"
    and "view (upd_node n f (s\<lparr>usedCap := used\<rparr>)) = (view s)(key \<mapsto> (ci_size (f (node_item s n)), ci_refs (f (node_item s n))))"
proof -
  note node = index_node [OF assms(1,2)]
  have "(\<lambda>(n, i). (ci_inode i, n)) ` set (change n f (cacheItems s)) = (\<lambda>(n, i). (ci_inode i, n)) ` set (cacheItems s)"
    by (rule image_change) (simp add: case_prod_unfold assms(3))
  moreover have "sum_list (map (ci_size \<circ> snd) (change n f (cacheItems s))) = used"
    using sum_change [OF _ node(2), where sz = ci_size and f = f] assms(1,4) by (simp add: dc_ok_def)
  moreover have "fst ` set (change n f (cacheItems s)) = fst ` set (cacheItems s)" by simp
  ultimately show "dc_ok (upd_node n f (s\<lparr>usedCap := used\<rparr>))"
    using assms(1) unfolding dc_ok_def upd_node_def by (simp del: ball_simps fst_set_change)
  show "view (upd_node n f (s\<lparr>usedCap := used\<rparr>)) = (view s)(key \<mapsto> (ci_size (f (node_item s n)), ci_refs (f (node_item s n))))"
  proof
    fix key'
    show "view (upd_node n f (s\<lparr>usedCap := used\<rparr>)) key' = ((view s)(key \<mapsto> (ci_size (f (node_item s n)), ci_refs (f (node_item s n))))) key'"
      using index_inj [OF assms(1,2), of key'] assms(2) node(2)
      by (cases "map_of (inodeToCacheIter s) key'"; cases "map_of (cacheItems s) (the (map_of (inodeToCacheIter s) key'))")
        (auto simp: view_def cached_def upd_node_def map_of_change)
  qed
qed

lemma map_of_erase: "map_of (filter (\<lambda>(m, _). m \<noteq> n) xs) k = (if k = n then None else map_of xs k)"
  by (induction xs) auto

lemma erase_item_ok:
  assumes "dc_ok s" and "map_of (inodeToCacheIter s) key = Some n"
  shows "dc_ok (erase_item key n (ci_size (node_item s n)) s)"
    and "view (erase_item key n (ci_size (node_item s n)) s) = (view s)(key := None)"
proof -
  note node = index_node [OF assms]
  let ?s = "erase_item key n (ci_size (node_item s n)) s" and ?left = "filter (\<lambda>(m, _). m \<noteq> n) (cacheItems s)"
  have dist: "distinct (map fst (cacheItems s))" "distinct (map fst (inodeToCacheIter s))"
    and idx: "set (inodeToCacheIter s) = (\<lambda>(n, i). (ci_inode i, n)) ` set (cacheItems s)"
    using assms(1) by (simp_all add: dc_ok_def)
  have "sum_list (map (ci_size \<circ> snd) ?left) = usedCap s - ci_size (node_item s n)"
    using sum_erase [OF dist(1) node(2), where sz = ci_size] assms(1) by (simp add: dc_ok_def)
  moreover have "ci_inode i = key \<longleftrightarrow> m = n" if "(m, i) \<in> set (cacheItems s)" for m i
    using node_index(1,2) [OF assms(1) that] assms(2) node(3) by (metis option.inject)
  then have "set ?left = {p \<in> set (cacheItems s). ci_inode (snd p) \<noteq> key}" by fastforce
  then have "set (AList.delete key (inodeToCacheIter s)) = (\<lambda>(n, i). (ci_inode i, n)) ` set ?left"
    unfolding AList.delete_eq set_filter idx by (simp only: set_filter) auto
  moreover have "distinct (map fst ?left)" using dist(1) by (rule distinct_map_filter)
  moreover have "distinct (map fst (AList.delete key (inodeToCacheIter s)))" using dist(2) by (rule AList.distinct_delete)
  moreover have "\<forall>m\<in>fst ` set ?left. m < node_count s" using assms(1) by (auto simp: dc_ok_def)
  ultimately show "dc_ok ?s" unfolding dc_ok_def erase_item_def by simp
  show "view ?s = (view s)(key := None)"
  proof
    fix key'
    show "view ?s key' = ((view s)(key := None)) key'"
      using index_inj [OF assms, of key']
      by (cases "map_of (inodeToCacheIter s) key'") (auto simp: view_def cached_def erase_item_def AList.delete_conv' map_of_erase)
  qed
qed

subsection \<open>The contract of the cache\<close>

text \<open>
  The operations of other components on the cache, and what each promises about the contents:
  a map from the key to the size and the number of pins.
\<close>

datatype dc_op =
    OpFind u64 bool
  | OpUnpin u64
  | OpInsertAndUpdate u64 u64 bool
  | OpUpdate u64 u64
  | OpAdd u64 u64
  | OpDelete u64
  | OpDeleteOldCacheWithNoPin u64
  | OpEvict u64
  | OpCheckFreeSpace
  | OpPreAllocSpace u64
  | OpFreePreAllocSpace u64

primrec dc_apply :: "'fs disk_env \<Rightarrow> dc_op \<Rightarrow> 'fs DiskCache \<Rightarrow> 'fs DiskCache" where
  "dc_apply env (OpFind key needPin) s = snd (Find env key needPin s)"
| "dc_apply env (OpUnpin key) s = Unpin key s"
| "dc_apply env (OpInsertAndUpdate key bytes needPin) s = InsertAndUpdate env key bytes needPin s"
| "dc_apply env (OpUpdate key bytes) s = snd (Update env key bytes s)"
| "dc_apply env (OpAdd key bytes) s = snd (Add env key bytes s)"
| "dc_apply env (OpDelete key) s = snd (Delete env key s)"
| "dc_apply env (OpDeleteOldCacheWithNoPin key) s = DeleteOldCacheWithNoPin env key s"
| "dc_apply env (OpEvict bytes) s = Evict env bytes s"
| "dc_apply env OpCheckFreeSpace s = snd (CheckFreeSpace env s)"
| "dc_apply env (OpPreAllocSpace bytes) s = snd (PreAllocSpace env bytes s)"
| "dc_apply env (OpFreePreAllocSpace bytes) s = FreePreAllocSpace bytes s"

type_synonym contents = "u64 \<rightharpoonup> u64 \<times> u32"

definition only_unpinned_lost :: "contents \<Rightarrow> contents \<Rightarrow> bool" where
  "only_unpinned_lost m m' \<longleftrightarrow> (\<forall>key. m' key = m key \<or> m' key = None \<and> (\<exists>bytes. m key = Some (bytes, 0)))"

definition dc_spec :: "dc_op \<Rightarrow> contents \<Rightarrow> contents \<Rightarrow> bool" where
  "dc_spec op m m' = (case op of
     OpFind key needPin \<Rightarrow> m' = (case m key of
         Some (bytes, refs) \<Rightarrow> if needPin then m(key \<mapsto> (bytes, refs + 1)) else m | None \<Rightarrow> m)
   | OpUnpin key \<Rightarrow> m' = (case m key of
         Some (bytes, refs) \<Rightarrow> if refs > 0 then m(key \<mapsto> (bytes, refs - 1)) else m | None \<Rightarrow> m)
   | OpInsertAndUpdate key bytes needPin \<Rightarrow> m' = m(key \<mapsto> (case m key of
         Some (_, refs) \<Rightarrow> (bytes, refs) | None \<Rightarrow> (bytes, if needPin then 1 else 0)))
   | OpUpdate key bytes \<Rightarrow> m' = (case m key of
         Some (old, refs) \<Rightarrow> if bytes \<le> old then m else m(key \<mapsto> (bytes, refs)) | None \<Rightarrow> m)
   | OpAdd key bytes \<Rightarrow> m' = (case m key of Some (old, refs) \<Rightarrow> m(key \<mapsto> (old + bytes, refs)) | None \<Rightarrow> m)
   | OpDelete key \<Rightarrow> m' = m \<or> m' = m(key := None)
   | OpDeleteOldCacheWithNoPin key \<Rightarrow> m' = m \<or> m' = m(key := None) \<and> (\<exists>bytes. m key = Some (bytes, 0))
   | OpFreePreAllocSpace bytes \<Rightarrow> m' = m
   | _ \<Rightarrow> only_unpinned_lost m m')"

lemma dc_ok_cong:
  assumes "cacheItems t = cacheItems s" and "inodeToCacheIter t = inodeToCacheIter s" and "usedCap t = usedCap s"
    and "node_count t = node_count s"
  shows "dc_ok t = dc_ok s" and "view t = view s"
  using assms by (simp_all add: dc_ok_def view_def cached_def fun_eq_iff)

lemma only_unpinned_lost_refl [simp]: "only_unpinned_lost m m"
  by (simp add: only_unpinned_lost_def)

lemma only_unpinned_lost_trans: "only_unpinned_lost a b \<Longrightarrow> only_unpinned_lost b c \<Longrightarrow> only_unpinned_lost a c"
  unfolding only_unpinned_lost_def by metis

text \<open>
  A change of one node, whatever happens to the other fields.
\<close>

lemma changed_node:
  assumes "dc_ok s" and "map_of (inodeToCacheIter s) key = Some n" and "cacheItems t = change n f (cacheItems s)"
    and "inodeToCacheIter t = inodeToCacheIter s" and "node_count t = node_count s"
    and "usedCap t = usedCap s + (ci_size (f (node_item s n)) - ci_size (node_item s n))" and "\<And>i. ci_inode (f i) = ci_inode i"
  shows "dc_ok t" and "view t = (view s)(key \<mapsto> (ci_size (f (node_item s n)), ci_refs (f (node_item s n))))"
proof -
  let ?t = "upd_node n f (s\<lparr>usedCap := usedCap t\<rparr>)"
  note ok = upd_node_ok [OF assms(1,2,7,6)]
  have eq: "cacheItems t = cacheItems ?t" "inodeToCacheIter t = inodeToCacheIter ?t" "usedCap t = usedCap ?t" "node_count t = node_count ?t"
    using assms(3-5) by (simp_all add: upd_node_def)
  show "dc_ok t" and "view t = (view s)(key \<mapsto> (ci_size (f (node_item s n)), ci_refs (f (node_item s n))))"
    using dc_ok_cong [OF eq] ok by simp_all
qed

lemma change_change: "change n g (change n f xs) = change n (g \<circ> f) xs"
  by (induction xs) auto

lemma Pin_ok:
  assumes "dc_ok s" and "\<not> stop s" and "map_of (inodeToCacheIter s) key = Some n"
  shows "dc_ok (Pin env key s)" and "view (Pin env key s) = (view s)(key \<mapsto> (ci_size (node_item s n), ci_refs (node_item s n) + 1))"
  using assms(2,3)
    changed_node [OF assms(1,3), where t = "Pin env key s" and f = "(\<lambda>i. i\<lparr>ci_atime := time_at env (clock s)\<rparr>) \<circ> (\<lambda>i. i\<lparr>ci_refs := ci_refs i + 1\<rparr>)"]
  by (simp_all add: Pin_def Let_def read_time_def upd_node_def change_change)

lemma Find_ok:
  assumes "dc_ok s" and "\<not> stop s"
  shows "dc_ok (snd (Find env key needPin s)) \<and> dc_spec (OpFind key needPin) (view s) (view (snd (Find env key needPin s)))"
  using assms Pin_ok [OF assms] view_node [OF assms(1)] view_None [of s key]
  by (cases "map_of (inodeToCacheIter s) key") (auto simp: Find_def dc_spec_def)

lemma Unpin_ok:
  assumes "dc_ok s" and "\<not> stop s"
  shows "dc_ok (Unpin key s) \<and> dc_spec (OpUnpin key) (view s) (view (Unpin key s))"
proof (cases "map_of (inodeToCacheIter s) key")
  case None
  with assms view_None [OF None] show ?thesis by (simp add: Unpin_def dc_spec_def)
next
  case (Some n)
  note node = view_node [OF assms(1) Some]
  from changed_node [OF assms(1) Some, where t = "Unpin key s" and f = "\<lambda>i. i\<lparr>ci_refs := ci_refs i - 1\<rparr>"] assms Some node
  show ?thesis by (cases "ci_refs (node_item s n) > 0") (auto simp: Unpin_def dc_spec_def upd_node_def)
qed

lemma Update_ok:
  assumes "dc_ok s" and "\<not> stop s"
  shows "dc_ok (snd (Update env key bytes s)) \<and> dc_spec (OpUpdate key bytes) (view s) (view (snd (Update env key bytes s)))"
proof (cases "map_of (inodeToCacheIter s) key")
  case None
  with assms view_None [OF None] show ?thesis by (simp add: Update_def dc_spec_def)
next
  case (Some n)
  note node = view_node [OF assms(1) Some]
  from changed_node [OF assms(1) Some, where t = "snd (Update env key bytes s)"
      and f = "\<lambda>i. i\<lparr>ci_atime := time_at env (clock s), ci_size := bytes\<rparr>"] assms Some node
  show ?thesis
    by (cases "bytes \<le> ci_size (node_item s n)") (auto simp: Update_def dc_spec_def upd_node_def Let_def read_time_def node_item_def)
qed

lemma Add_ok:
  assumes "dc_ok s" and "\<not> stop s"
  shows "dc_ok (snd (Add env key bytes s)) \<and> dc_spec (OpAdd key bytes) (view s) (view (snd (Add env key bytes s)))"
proof (cases "map_of (inodeToCacheIter s) key")
  case None
  with assms view_None [OF None] show ?thesis by (simp add: Add_def dc_spec_def)
next
  case (Some n)
  note node = view_node [OF assms(1) Some]
  from changed_node [OF assms(1) Some, where t = "snd (Add env key bytes s)"
      and f = "\<lambda>i. i\<lparr>ci_atime := time_at env (clock s), ci_size := ci_size i + bytes\<rparr>"] assms Some node
  show ?thesis by (auto simp: Add_def dc_spec_def upd_node_def Let_def read_time_def)
qed

text \<open>A new node at the end of the list.\<close>

lemma update_append: "key \<notin> fst ` set xs \<Longrightarrow> AList.update key v xs = xs @ [(key, v)]"
  by (induction xs) auto

lemma new_node_ok:
  assumes "dc_ok s" and "map_of (inodeToCacheIter s) key = None" and "cacheItems t = cacheItems s @ [(node_count s, i)]"
    and "inodeToCacheIter t = AList.update key (node_count s) (inodeToCacheIter s)" and "node_count t = node_count s + 1"
    and "usedCap t = usedCap s + ci_size i" and "ci_inode i = key"
  shows "dc_ok t" and "view t = (view s)(key \<mapsto> (ci_size i, ci_refs i))"
    and "map_of (inodeToCacheIter t) key = Some (node_count s)" and "node_item t (node_count s) = i"
proof -
  have new: "node_count s \<notin> fst ` set (cacheItems s)" using assms(1) by (auto simp: dc_ok_def)
  then have none: "map_of (cacheItems s) (node_count s) = None" by (simp add: map_of_eq_None_iff)
  have key: "key \<notin> fst ` set (inodeToCacheIter s)" using assms(2) by (simp add: map_of_eq_None_iff)
  have idx: "inodeToCacheIter t = inodeToCacheIter s @ [(key, node_count s)]"
    unfolding assms(4) using key by (rule update_append)
  show "map_of (inodeToCacheIter t) key = Some (node_count s)" by (simp add: assms(4) update_conv')
  show "node_item t (node_count s) = i" using none by (simp add: node_item_def assms(3) map_add_def)
  have "\<forall>n\<in>fst ` set (cacheItems s). n < node_count s + 1" using assms(1) by (auto simp: dc_ok_def)
  with assms(1,5,6,7) new key show "dc_ok t" unfolding dc_ok_def by (simp add: idx assms(3))
  show "view t = (view s)(key \<mapsto> (ci_size i, ci_refs i))"
  proof
    fix key'
    have "n \<noteq> node_count s" if "map_of (inodeToCacheIter s) key' = Some n" for n
      using index_node(1) [OF assms(1) that] new by force
    with none show "view t key' = ((view s)(key \<mapsto> (ci_size i, ci_refs i))) key'"
      by (cases "map_of (inodeToCacheIter s) key'")
        (auto simp: view_def cached_def assms(3,4) update_conv' map_add_def split: option.split)
  qed
qed

lemma InsertAndUpdate_ok:
  assumes "dc_ok s" and "\<not> stop s"
  shows "dc_ok (InsertAndUpdate env key bytes needPin s) \<and>
    dc_spec (OpInsertAndUpdate key bytes needPin) (view s) (view (InsertAndUpdate env key bytes needPin s))"
proof (cases "map_of (inodeToCacheIter s) key")
  case (Some n)
  note node = view_node [OF assms(1) Some]
  from changed_node [OF assms(1) Some, where t = "InsertAndUpdate env key bytes needPin s"
      and f = "\<lambda>i. i\<lparr>ci_atime := time_at env (clock s), ci_size := bytes\<rparr>"] assms Some node
  show ?thesis by (auto simp: InsertAndUpdate_def dc_spec_def upd_node_def Let_def read_time_def)
next
  case None
  let ?t = "InsertAndUpdate env key bytes False s"
  let ?i = "\<lparr>ci_inode = key, ci_size = bytes, ci_atime = time_at env (clock s), ci_refs = 0\<rparr>"
  note new = new_node_ok [OF assms(1) None, where t = ?t and i = ?i]
  have t: "dc_ok ?t" "view ?t = (view s)(key \<mapsto> (bytes, 0))" "map_of (inodeToCacheIter ?t) key = Some (node_count s)"
    "node_item ?t (node_count s) = ?i" "\<not> stop ?t"
    using new None assms(2) by (simp_all add: InsertAndUpdate_def Let_def read_time_def)
  have pin: "InsertAndUpdate env key bytes needPin s = (if needPin then Pin env key ?t else ?t)"
    using None assms(2) by (simp add: InsertAndUpdate_def Let_def read_time_def)
  show ?thesis using Pin_ok [OF t(1,5,3), of env] t view_None [OF None] by (simp add: pin dc_spec_def)
qed

lemma erased_ok:
  assumes "dc_ok s" and "map_of (inodeToCacheIter s) key = Some n"
  shows "dc_ok (erase_item key n (ci_size (node_item s n)) (s\<lparr>files := fs\<rparr>))"
    and "view (erase_item key n (ci_size (node_item s n)) (s\<lparr>files := fs\<rparr>)) = (view s)(key := None)"
  using erase_item_ok [of "s\<lparr>files := fs\<rparr>" key n] assms dc_ok_cong [of "s\<lparr>files := fs\<rparr>" s]
  by (simp_all add: node_item_def)

lemma cache_Delete_ok:
  assumes "dc_ok s" and "\<not> stop s"
  shows "dc_ok (snd (Delete env key s)) \<and> dc_spec (OpDelete key) (view s) (view (snd (Delete env key s)))"
proof -
  obtain err fs where "remove_file env key (files s) = (err, fs)" by (cases "remove_file env key (files s)")
  with assms erased_ok [OF assms(1)] dc_ok_cong [of "s\<lparr>files := fs\<rparr>" s] show ?thesis
    by (cases "map_of (inodeToCacheIter s) key") (auto simp: Delete_def dc_spec_def Let_def)
qed

lemma DeleteOldCacheWithNoPin_ok:
  assumes "dc_ok s"
  shows "dc_ok (DeleteOldCacheWithNoPin env key s) \<and>
    dc_spec (OpDeleteOldCacheWithNoPin key) (view s) (view (DeleteOldCacheWithNoPin env key s))"
proof -
  obtain err fs where "remove_file env key (files s) = (err, fs)" by (cases "remove_file env key (files s)")
  with assms erased_ok [OF assms(1)] dc_ok_cong [of "s\<lparr>files := fs\<rparr>" s] view_node [OF assms] show ?thesis
    by (cases "map_of (inodeToCacheIter s) key") (auto simp: DeleteOldCacheWithNoPin_def dc_spec_def Let_def)
qed

subsection \<open>Eviction\<close>

lemma erase_evicted:
  assumes "dc_ok s" and "(n, i) \<in> set (cacheItems s)"
  shows "dc_ok (erase_item (ci_inode i) n (ci_size i) (s\<lparr>files := fs\<rparr>))"
    and "view (erase_item (ci_inode i) n (ci_size i) (s\<lparr>files := fs\<rparr>)) = (view s)(ci_inode i := None)"
    and "view s (ci_inode i) = Some (ci_size i, ci_refs i)"
  using erased_ok [OF assms(1) node_index(1) [OF assms], of fs] view_node [OF assms(1) node_index(1) [OF assms]]
  by (simp_all add: node_index(2) [OF assms])

lemma evict_loop_ok:
  assumes "dc_ok s" and "set items \<subseteq> set (cacheItems s)" and "distinct (map fst items)"
  shows "dc_ok (evict_loop env tc ti items fc fi s) \<and>
    only_unpinned_lost (view s) (view (evict_loop env tc ti items fc fi s)) \<and>
    stop (evict_loop env tc ti items fc fi s) = stop s \<and> reservedCap (evict_loop env tc ti items fc fi s) = reservedCap s"
  using assms
proof (induction items arbitrary: fc fi s)
  case (Cons p items)
  obtain n i where p: "p = (n, i)" by (cases p)
  obtain err fs where rm: "remove_file env (ci_inode i) (files s) = (err, fs)" by (cases "remove_file env (ci_inode i) (files s)")
  have i: "(n, i) \<in> set (cacheItems s)" and items: "set items \<subseteq> set (cacheItems s)" "distinct (map fst items)" "n \<notin> fst ` set items"
    using Cons.prems(2,3) p by auto
  show ?case
  proof (cases "ci_refs i > 0")
    case True
    with Cons.IH [OF Cons.prems(1) items(1,2)] p show ?thesis by simp
  next
    case False
    let ?s = "if err = 0 then erase_item (ci_inode i) n (ci_size i) (s\<lparr>files := fs\<rparr>) else s\<lparr>files := fs\<rparr>"
    note erased = erase_evicted(1,2) [OF Cons.prems(1) i, of fs] erase_evicted(3) [OF Cons.prems(1) i]
    have ok: "dc_ok ?s" "only_unpinned_lost (view s) (view ?s)" "stop ?s = stop s" "reservedCap ?s = reservedCap s"
      using erased False Cons.prems(1) dc_ok_cong [of "s\<lparr>files := fs\<rparr>" s]
      by (auto simp: only_unpinned_lost_def erase_item_def word_gt_0)
    have "set items \<subseteq> set (cacheItems ?s)" using items(1,3) by (force simp: erase_item_def)
    note ih = Cons.IH [OF ok(1) this items(2)]
    show ?thesis
      using False ok ih [of "fc + ci_size i" "fi + 1"] ih [of fc fi] only_unpinned_lost_trans [OF ok(2)]
      by (auto simp: p rm Let_def split: if_splits)
  qed
qed simp

lemma GetCurFreeRatio_ok:
  "dc_ok (snd (GetCurFreeRatio env s)) = dc_ok s" "view (snd (GetCurFreeRatio env s)) = view s"
  "stop (snd (GetCurFreeRatio env s)) = stop s" "reservedCap (snd (GetCurFreeRatio env s)) = reservedCap s"
  "cacheItems (snd (GetCurFreeRatio env s)) = cacheItems s" "files (snd (GetCurFreeRatio env s)) = files s"
  "usedCap (snd (GetCurFreeRatio env s)) = usedCap s"
  using dc_ok_cong [of "snd (GetCurFreeRatio env s)" s]
  by (simp_all add: GetCurFreeRatio_def Let_def split: option.split)

lemma dc_ok_distinct: "dc_ok s \<Longrightarrow> distinct (map fst (cacheItems s))"
  by (simp add: dc_ok_def)

lemma cleanup_ok:
  assumes "dc_ok s"
  shows "dc_ok (evict_loop env tc ti (cacheItems s) fc fi s) \<and>
    only_unpinned_lost (view s) (view (evict_loop env tc ti (cacheItems s) fc fi s)) \<and>
    stop (evict_loop env tc ti (cacheItems s) fc fi s) = stop s \<and> reservedCap (evict_loop env tc ti (cacheItems s) fc fi s) = reservedCap s"
  using evict_loop_ok [OF assms subset_refl dc_ok_distinct [OF assms]] .

lemma Evict_ok:
  assumes "dc_ok s"
  shows "dc_ok (Evict env bytes s) \<and> only_unpinned_lost (view s) (view (Evict env bytes s)) \<and> stop (Evict env bytes s) = stop s \<and>
    reservedCap (Evict env bytes s) = reservedCap s"
  using cleanup_ok [of "snd (GetCurFreeRatio env s)"] assms GetCurFreeRatio_ok [of env s]
  unfolding Evict_def CleanupForEvict_def by (metis (no_types, lifting))

lemma CheckFreeSpace_ok:
  assumes "dc_ok s"
  shows "dc_ok (snd (CheckFreeSpace env s)) \<and> only_unpinned_lost (view s) (view (snd (CheckFreeSpace env s))) \<and>
    stop (snd (CheckFreeSpace env s)) = stop s"
proof -
  obtain ok t where t: "GetCurFreeRatio env s = (ok, t)" by (cases "GetCurFreeRatio env s")
  note r = GetCurFreeRatio_ok [of env s, unfolded t snd_conv]
  let ?u = "Cleanup env (t\<lparr>hasFreeSpace := False\<rparr>)"
  have h: "dc_ok (u\<lparr>hasFreeSpace := b\<rparr>) = dc_ok u" "view (u\<lparr>hasFreeSpace := b\<rparr>) = view u" for u :: "'a DiskCache" and b
    using dc_ok_cong [of "u\<lparr>hasFreeSpace := b\<rparr>" u] by simp_all
  have "dc_ok ?u \<and> only_unpinned_lost (view t) (view ?u) \<and> stop ?u = stop t"
    using cleanup_ok [of "t\<lparr>hasFreeSpace := False\<rparr>" env] assms r(1) unfolding Cleanup_def by (simp add: h)
  with r assms show ?thesis by (simp add: CheckFreeSpace_def t Let_def h)
qed

lemma prealloc_loop_ok:
  assumes "dc_ok s"
  shows "dc_ok (snd (prealloc_loop env bytes r s)) \<and> only_unpinned_lost (view s) (view (snd (prealloc_loop env bytes r s))) \<and>
    stop (snd (prealloc_loop env bytes r s)) = stop s"
  using assms
proof (induction r arbitrary: s)
  case (Suc r)
  note e = Evict_ok [OF Suc.prems, of env bytes]
  have h: "dc_ok (u\<lparr>hasFreeSpace := b, reservedCap := c\<rparr>) = dc_ok u" "view (u\<lparr>hasFreeSpace := b, reservedCap := c\<rparr>) = view u"
    for u :: "'a DiskCache" and b c
    using dc_ok_cong [of "u\<lparr>hasFreeSpace := b, reservedCap := c\<rparr>" u] by simp_all
  from Suc.IH [of "Evict env bytes s"] e show ?case by (auto simp: Let_def h intro: only_unpinned_lost_trans)
qed simp

lemma dc_apply_ok:
  assumes "dc_ok s" and "\<not> stop s"
  shows "dc_ok (dc_apply env op s) \<and> \<not> stop (dc_apply env op s) \<and> dc_spec op (view s) (view (dc_apply env op s))"
proof -
  have h: "dc_ok (s\<lparr>hasFreeSpace := b\<rparr>) = dc_ok s" "view (s\<lparr>hasFreeSpace := b\<rparr>) = view s"
    "dc_ok (s\<lparr>reservedCap := c\<rparr>) = dc_ok s" "view (s\<lparr>reservedCap := c\<rparr>) = view s" for b c
    using dc_ok_cong [of "s\<lparr>hasFreeSpace := b\<rparr>" s] dc_ok_cong [of "s\<lparr>reservedCap := c\<rparr>" s] by simp_all
  have "dc_ok (dc_apply env op s) \<and> dc_spec op (view s) (view (dc_apply env op s))"
    using assms Find_ok [OF assms] Unpin_ok [OF assms] InsertAndUpdate_ok [OF assms] Update_ok [OF assms] Add_ok [OF assms]
      cache_Delete_ok [OF assms] DeleteOldCacheWithNoPin_ok [OF assms(1)] Evict_ok [OF assms(1)] CheckFreeSpace_ok [OF assms(1)]
      prealloc_loop_ok [of "s\<lparr>hasFreeSpace := False\<rparr>"]
    by (cases op) (auto simp: dc_spec_def PreAllocSpace_def FreePreAllocSpace_def h)
  moreover have "\<not> stop (dc_apply env op s)"
    using assms Evict_ok [OF assms(1)] CheckFreeSpace_ok [OF assms(1)] prealloc_loop_ok [of "s\<lparr>hasFreeSpace := False\<rparr>"]
    by (cases op) (auto simp: Find_def Pin_def Unpin_def InsertAndUpdate_def Update_def Add_def Delete_def DeleteOldCacheWithNoPin_def
        PreAllocSpace_def FreePreAllocSpace_def Let_def read_time_def upd_node_def erase_item_def h split: option.splits prod.splits)
  ultimately show ?thesis by blast
qed

text \<open>
  Documented behaviour of the file system: whether a file can be removed is not changed by removing
  another one.
\<close>

definition removal_ok :: "'fs disk_env \<Rightarrow> ('fs \<Rightarrow> u64 \<Rightarrow> bool) \<Rightarrow> bool" where
  "removal_ok env removable \<longleftrightarrow> (\<forall>key fs. fst (remove_file env key fs) = 0 \<longleftrightarrow> removable fs key) \<and>
     (\<forall>key fs key'. key' \<noteq> key \<longrightarrow> removable (snd (remove_file env key fs)) key' = removable fs key')"

lemma removal_okD:
  assumes "removal_ok env removable" and "remove_file env key fs = (err, fs')"
  shows "err = 0 \<longleftrightarrow> removable fs key" and "key' \<noteq> key \<Longrightarrow> removable fs' key' = removable fs key'"
  using assms by (auto simp: removal_ok_def) (metis fst_conv snd_conv)+

definition evictable :: "(u64 \<Rightarrow> bool) \<Rightarrow> nat \<times> CacheItem \<Rightarrow> bool" where
  "evictable can p \<longleftrightarrow> ci_refs (snd p) = 0 \<and> can (ci_inode (snd p))"

definition freed :: "(u64 \<Rightarrow> bool) \<Rightarrow> (nat \<times> CacheItem) list \<Rightarrow> u64" where
  "freed can items = sum_list (map (ci_size \<circ> snd) (filter (evictable can) items))"

definition enough :: "(u64 \<Rightarrow> bool) \<Rightarrow> u64 \<Rightarrow> u64 \<Rightarrow> u64 \<Rightarrow> u64 \<Rightarrow> (nat \<times> CacheItem) list \<Rightarrow> bool" where
  "enough can tc ti fc fi items \<longleftrightarrow> tc \<le> fc + freed can items \<and> ti \<le> fi + of_nat (length (filter (evictable can) items))"

text \<open>The loop has gone through \<open>pre\<close> and stopped there.\<close>

definition evicted_prefix :: "(u64 \<Rightarrow> bool) \<Rightarrow> u64 \<Rightarrow> u64 \<Rightarrow> u64 \<Rightarrow> u64 \<Rightarrow> (nat \<times> CacheItem) list \<Rightarrow> (nat \<times> CacheItem) list \<Rightarrow> bool" where
  "evicted_prefix can tc ti fc fi pre suf \<longleftrightarrow> (suf \<noteq> [] \<longrightarrow> enough can tc ti fc fi pre) \<and>
     (\<forall>q < length pre. (\<exists>p\<in>set (take q pre). ci_refs (snd p) = 0) \<longrightarrow> \<not> enough can tc ti fc fi (take q pre))"

lemma evicted_prefix_pinned:
  assumes "evicted_prefix can tc ti fc fi pre suf" and "ci_refs (snd p) \<noteq> 0"
  shows "evicted_prefix can tc ti fc fi (p # pre) suf"
proof -
  have step: "enough can tc ti fc fi (p # xs) = enough can tc ti fc fi xs" for xs
    using assms(2) by (simp add: enough_def freed_def evictable_def)
  show ?thesis
    unfolding evicted_prefix_def
  proof (intro conjI allI impI)
    show "suf \<noteq> [] \<Longrightarrow> enough can tc ti fc fi (p # pre)" using assms(1) by (simp add: step evicted_prefix_def)
    fix q assume "q < length (p # pre)" "\<exists>p\<in>set (take q (p # pre)). ci_refs (snd p) = 0"
    then show "\<not> enough can tc ti fc fi (take q (p # pre))" using assms by (cases q) (auto simp: step evicted_prefix_def)
  qed
qed

lemma evicted_prefix_go_on:
  assumes "evicted_prefix can tc ti (if evictable can p then fc + ci_size (snd p) else fc) (if evictable can p then fi + 1 else fi) pre suf"
    and "\<not> enough can tc ti fc fi [p]"
  shows "evicted_prefix can tc ti fc fi (p # pre) suf"
proof -
  have step: "enough can tc ti fc fi (p # xs) = enough can tc ti (if evictable can p then fc + ci_size (snd p) else fc)
      (if evictable can p then fi + 1 else fi) xs" for xs
    by (simp add: enough_def freed_def algebra_simps)
  have none: "enough can tc ti fc fi (p # xs) = enough can tc ti fc fi [p]" if "\<not> (\<exists>p\<in>set xs. ci_refs (snd p) = 0)" for xs
  proof -
    have "filter (evictable can) xs = []" using that by (auto simp: filter_empty_conv evictable_def)
    then show ?thesis by (simp add: enough_def freed_def)
  qed
  show ?thesis
    unfolding evicted_prefix_def
  proof (intro conjI allI impI)
    show "suf \<noteq> [] \<Longrightarrow> enough can tc ti fc fi (p # pre)" using assms(1) by (simp add: step evicted_prefix_def)
    fix q assume q: "q < length (p # pre)" "\<exists>p\<in>set (take q (p # pre)). ci_refs (snd p) = 0"
    then obtain r where r: "q = Suc r" "r < length pre" by (cases q) auto
    show "\<not> enough can tc ti fc fi (take q (p # pre))"
      using assms r none [of "take r pre"] step [of "take r pre"]
      by (cases "\<exists>p\<in>set (take r pre). ci_refs (snd p) = 0") (simp_all add: evicted_prefix_def)
  qed
qed

lemma evict_loop_prefix:
  assumes "removal_ok env removable" and "cacheItems s = kept @ items" and "distinct (map fst (kept @ items))"
    and "distinct (map (ci_inode \<circ> snd) items)" and "\<And>p. p \<in> set items \<Longrightarrow> removable (files s) (ci_inode (snd p)) = can (ci_inode (snd p))"
  shows "\<exists>pre suf. items = pre @ suf \<and> evicted_prefix can tc ti fc fi pre suf \<and>
    cacheItems (evict_loop env tc ti items fc fi s) = kept @ filter (\<lambda>p. \<not> evictable can p) pre @ suf \<and>
    usedCap (evict_loop env tc ti items fc fi s) = usedCap s - freed can pre \<and>
    freeCap (evict_loop env tc ti items fc fi s) = freeCap s + freed can pre"
  using assms(2-)
proof (induction items arbitrary: kept fc fi s)
  case Nil
  then show ?case by (simp add: evicted_prefix_def freed_def)
next
  case (Cons p items)
  obtain n i where p: "p = (n, i)" by (cases p)
  show ?case
  proof (cases "ci_refs i = 0")
    case False
    have "\<exists>pre suf. items = pre @ suf \<and> evicted_prefix can tc ti fc fi pre suf \<and>
      cacheItems (evict_loop env tc ti items fc fi s) = (kept @ [p]) @ filter (\<lambda>p. \<not> evictable can p) pre @ suf \<and>
      usedCap (evict_loop env tc ti items fc fi s) = usedCap s - freed can pre \<and>
      freeCap (evict_loop env tc ti items fc fi s) = freeCap s + freed can pre"
      using Cons.prems by (intro Cons.IH) auto
    then obtain pre suf where "items = pre @ suf" "evicted_prefix can tc ti fc fi pre suf"
      "cacheItems (evict_loop env tc ti items fc fi s) = (kept @ [p]) @ filter (\<lambda>p. \<not> evictable can p) pre @ suf"
      "usedCap (evict_loop env tc ti items fc fi s) = usedCap s - freed can pre"
      "freeCap (evict_loop env tc ti items fc fi s) = freeCap s + freed can pre" by blast
    with False show ?thesis
      by (intro exI [of _ "p # pre"] exI [of _ suf])
        (simp add: p evicted_prefix_pinned evictable_def freed_def word_gt_0)
  next
    case True
    obtain err fs where rm: "remove_file env (ci_inode i) (files s) = (err, fs)" by (cases "remove_file env (ci_inode i) (files s)")
    have can: "err = 0 \<longleftrightarrow> evictable can p"
      using removal_okD(1) [OF assms(1) rm] True Cons.prems(4) [of p] by (auto simp: evictable_def p)
    let ?s = "if evictable can p then erase_item (ci_inode i) n (ci_size i) (s\<lparr>files := fs\<rparr>) else s\<lparr>files := fs\<rparr>"
    let ?fc = "if evictable can p then fc + ci_size i else fc" and ?fi = "if evictable can p then fi + 1 else fi"
    let ?kept = "if evictable can p then kept else kept @ [p]"
    have run: "evict_loop env tc ti (p # items) fc fi s =
        (if enough can tc ti fc fi [p] then ?s else evict_loop env tc ti items ?fc ?fi ?s)"
      using True can by (auto simp: p rm Let_def enough_def freed_def)
    have s: "cacheItems ?s = ?kept @ items" "usedCap ?s = usedCap s - freed can [p]" "freeCap ?s = freeCap s + freed can [p]"
      using Cons.prems(1,2) by (auto simp: erase_item_def p freed_def filter_other evictable_def)
    show ?thesis
    proof (cases "enough can tc ti fc fi [p]")
      case True
      then show ?thesis
        using s by (intro exI [of _ "[p]"] exI [of _ items]) (auto simp: run evicted_prefix_def)
    next
      case False
      have other: "removable (files ?s) (ci_inode (snd p')) = can (ci_inode (snd p'))" if "p' \<in> set items" for p'
      proof -
        have "ci_inode (snd p') \<noteq> ci_inode i" using Cons.prems(3) that p by (force simp: image_iff)
        then show ?thesis
          using removal_okD(2) [OF assms(1) rm] Cons.prems(4) [of p'] that by (auto simp: erase_item_def)
      qed
      have "\<exists>pre suf. items = pre @ suf \<and> evicted_prefix can tc ti ?fc ?fi pre suf \<and>
        cacheItems (evict_loop env tc ti items ?fc ?fi ?s) = ?kept @ filter (\<lambda>p. \<not> evictable can p) pre @ suf \<and>
        usedCap (evict_loop env tc ti items ?fc ?fi ?s) = usedCap ?s - freed can pre \<and>
        freeCap (evict_loop env tc ti items ?fc ?fi ?s) = freeCap ?s + freed can pre"
        using Cons.prems(2,3) s(1) other by (intro Cons.IH) auto
      then obtain pre suf where ih: "items = pre @ suf" "evicted_prefix can tc ti ?fc ?fi pre suf"
        "cacheItems (evict_loop env tc ti items ?fc ?fi ?s) = ?kept @ filter (\<lambda>p. \<not> evictable can p) pre @ suf"
        "usedCap (evict_loop env tc ti items ?fc ?fi ?s) = usedCap ?s - freed can pre"
        "freeCap (evict_loop env tc ti items ?fc ?fi ?s) = freeCap ?s + freed can pre" by blast
      have "evicted_prefix can tc ti fc fi (p # pre) suf"
        using ih(2) False by (intro evicted_prefix_go_on) (auto simp: p split: if_splits)
      moreover have "freed can (p # pre) = freed can [p] + freed can pre" by (simp add: freed_def)
      moreover have "evict_loop env tc ti (p # items) fc fi s = evict_loop env tc ti items ?fc ?fi ?s" using run False by simp
      moreover have "?kept @ filter (\<lambda>p. \<not> evictable can p) pre @ suf = kept @ filter (\<lambda>p. \<not> evictable can p) (p # pre) @ suf"
        by simp
      moreover have "p # items = (p # pre) @ suf" using ih(1) by simp
      ultimately show ?thesis
        using ih(3-5) [unfolded s(2,3)] by (metis (no_types, lifting) add.assoc diff_diff_add)
    qed
  qed
qed

lemma inodes_distinct:
  assumes "dc_ok s"
  shows "distinct (map (ci_inode \<circ> snd) (cacheItems s))"
proof -
  have "inj_on (ci_inode \<circ> snd) (set (cacheItems s))"
  proof (rule inj_onI)
    fix p q assume "p \<in> set (cacheItems s)" "q \<in> set (cacheItems s)" "(ci_inode \<circ> snd) p = (ci_inode \<circ> snd) q"
    then show "p = q" using node_index(1,2) [OF assms, of "fst p" "snd p"] node_index(1,2) [OF assms, of "fst q" "snd q"]
      by (metis comp_apply option.inject prod.collapse)
  qed
  moreover have "distinct (cacheItems s)" using dc_ok_distinct [OF assms] by (simp add: distinct_map)
  ultimately show ?thesis by (simp add: distinct_map)
qed

subsection \<open>Main results\<close>

primrec dc_spec_run :: "dc_op list \<Rightarrow> contents \<Rightarrow> contents \<Rightarrow> bool" where
  "dc_spec_run [] m m' \<longleftrightarrow> m' = m"
| "dc_spec_run (op # ops) m m' \<longleftrightarrow> (\<exists>m1. dc_spec op m m1 \<and> dc_spec_run ops m1 m')"

lemma dc_fold_ok:
  assumes "dc_ok s" and "\<not> stop s"
  shows "dc_ok (fold (dc_apply env) ops s) \<and> \<not> stop (fold (dc_apply env) ops s) \<and>
    dc_spec_run ops (view s) (view (fold (dc_apply env) ops s))"
  using assms
proof (induction ops arbitrary: s)
  case (Cons op ops)
  with dc_apply_ok [OF Cons.prems, of env op] show ?case by auto
qed simp

lemma dc_spec_run_append: "dc_spec_run ops m m1 \<Longrightarrow> dc_spec_run ops' m1 m' \<Longrightarrow> dc_spec_run (ops @ ops') m m'"
  by (induction ops arbitrary: m) auto

definition scan_ops :: "'fs disk_env \<Rightarrow> CacheItem list \<Rightarrow> dc_op list" where
  "scan_ops env scanned = map (\<lambda>cache. OpInsertAndUpdate (ci_inode cache) (ci_size cache) False) (if scanned = [] then [] else std_sort env scanned)"

lemma ScanCache_fold: "ScanCache env scanned s = fold (dc_apply env) (scan_ops env scanned) s"
proof -
  have "dc_apply env (OpInsertAndUpdate key bytes pin) = InsertAndUpdate env key bytes pin" for key bytes pin by (rule ext) simp
  then show ?thesis by (simp add: ScanCache_def scan_ops_def foldl_conv_fold fold_map comp_def)
qed

lemma Start_ok:
  assumes "ratio \<noteq> 0"
  shows "dc_ok (snd (Start env scanned ratio bg (DiskCache_init env fs))) \<and> \<not> stop (snd (Start env scanned ratio bg (DiskCache_init env fs))) \<and>
    dc_spec_run (scan_ops env scanned) Map.empty (view (snd (Start env scanned ratio bg (DiskCache_init env fs))))"
proof -
  let ?s = "(DiskCache_init env fs)\<lparr>freeRatio := ratio, bgFreeRatio := bg\<rparr>"
  have "dc_ok ?s" "\<not> stop ?s" "view ?s = Map.empty"
    by (simp_all add: dc_ok_def DiskCache_init_def view_def cached_def fun_eq_iff)
  from dc_fold_ok [OF this(1,2), of env "scan_ops env scanned"] this(3) assms show ?thesis
    by (simp add: Start_def Let_def ScanCache_fold case_prod_unfold GetCurFreeRatio_ok)
qed

text \<open>
  C11. The disk cache implements a map with pins.  Started on any scanned directory and driven by
  any sequence of the calls of the other components and of the cleanup thread, the list, the index
  and the used space stay in agreement, every iterator of the index points to the item of its key,
  and the contents change exactly as each call promises: an insertion or a growth sets the size and
  keeps the pins, finding with a pin adds one, and the evictions only drop items without pins.
\<close>

theorem disk_cache_refines:
  assumes "ratio \<noteq> 0"
  shows "dc_ok (fold (dc_apply env) ops (snd (Start env scanned ratio bg (DiskCache_init env fs)))) \<and>
    dc_spec_run (scan_ops env scanned @ ops) Map.empty
      (view (fold (dc_apply env) ops (snd (Start env scanned ratio bg (DiskCache_init env fs)))))"
proof -
  note start = Start_ok [OF assms, of env scanned bg fs]
  with dc_fold_ok [of "snd (Start env scanned ratio bg (DiskCache_init env fs))" env ops] show ?thesis
    by (auto intro: dc_spec_run_append)
qed

text \<open>A file system of some keys in which the file 13 cannot be removed.\<close>

definition disk_sample_env :: "u64 list disk_env" where
  "disk_sample_env = \<lparr>f32 = id, f64 = id,
     remove_file = (\<lambda>key fs. if key = 13 \<or> key \<notin> set fs then (2, fs) else (0, removeAll key fs)),
     statfs = (\<lambda>fs. Some \<lparr>f_bsize = 1, f_blocks = 100, f_bavail = 40 - 10 * of_nat (length fs), f_files = 100, f_ffree = 50\<rparr>),
     access_ok = (\<lambda>key fs. key \<in> set fs), time_at = of_nat, std_sort = sort_key ci_atime\<rparr>"

definition disk_sample :: "u64 list DiskCache" where
  "disk_sample = snd (Start disk_sample_env
     [\<lparr>ci_inode = 7, ci_size = 10, ci_atime = 3, ci_refs = 0\<rparr>, \<lparr>ci_inode = 13, ci_size = 10, ci_atime = 1, ci_refs = 0\<rparr>,
      \<lparr>ci_inode = 9, ci_size = 10, ci_atime = 2, ci_refs = 0\<rparr>] (1 / 5) (1 / 5) (DiskCache_init disk_sample_env [7, 13, 9]))"

theorem disk_cache_refines_witness:
  "(1 / 5 :: rat) \<noteq> 0 \<and> dc_ok (fold (dc_apply disk_sample_env) [OpFind 9 True, OpEvict 5, OpUnpin 9] disk_sample) \<and>
   map (view (fold (dc_apply disk_sample_env) [OpFind 9 True, OpEvict 5, OpUnpin 9] disk_sample)) [13, 9, 7] =
     [Some (10, 0), Some (10, 0), None]"
proof -
  have "map (view (fold (dc_apply disk_sample_env) [OpFind 9 True, OpEvict 5, OpUnpin 9] disk_sample)) [13, 9, 7] =
     [Some (10, 0), Some (10, 0), None]" by code_simp
  with disk_cache_refines [of "1 / 5" disk_sample_env "[OpFind 9 True, OpEvict 5, OpUnpin 9]"] show ?thesis
    unfolding disk_sample_def by simp
qed

text \<open>
  C13. An eviction removes the oldest removable items without pins, and no more of them than needed.
  The items are visited in the order of their insertion; pinned items and items whose file cannot
  be removed stay.  The visit ends as soon as the wanted space and number of inodes are freed, at
  the end of the list otherwise, and the accounts of used and free space move by what was freed.
\<close>

theorem Evict_oldest_first:
  assumes "removal_ok env removable" and "dc_ok s"
  defines "s1 \<equiv> snd (GetCurFreeRatio env s)"
  shows "\<exists>pre suf. cacheItems s = pre @ suf \<and>
    evicted_prefix (removable (files s))
      (space_to_free env (freeRatio s1)
        (f32 env (f64 env (blockRatio s1 - ratio_of env (bytes + reservedCap s1) (totalCap s1)))) s1)
      (inodes_to_free env (freeRatio s1) s1) 0 0 pre suf \<and>
    cacheItems (Evict env bytes s) = filter (\<lambda>p. \<not> evictable (removable (files s)) p) pre @ suf \<and>
    usedCap (Evict env bytes s) = usedCap s - freed (removable (files s)) pre \<and>
    freeCap (Evict env bytes s) = freeCap s1 + freed (removable (files s)) pre"
proof -
  have ok: "dc_ok s1" "cacheItems s1 = cacheItems s" "files s1 = files s" "usedCap s1 = usedCap s"
    using assms(2) by (simp_all add: s1_def GetCurFreeRatio_ok)
  from evict_loop_prefix [where kept = "[]" and s = s1 and items = "cacheItems s1" and can = "removable (files s)",
      OF assms(1) _ _ inodes_distinct [OF ok(1)]] dc_ok_distinct [OF ok(1)] ok
  show ?thesis unfolding Evict_def CleanupForEvict_def s1_def [symmetric] Let_def by simp
qed

theorem Evict_oldest_first_witness:
  "removal_ok disk_sample_env (\<lambda>fs key. key \<noteq> 13 \<and> key \<in> set fs) \<and> dc_ok disk_sample \<and>
   map (ci_inode \<circ> snd) (cacheItems disk_sample) = [13, 9, 7] \<and>
   (\<exists>pre suf. cacheItems disk_sample = pre @ suf \<and> cacheItems (Evict disk_sample_env 0 disk_sample) =
      filter (\<lambda>p. \<not> evictable (\<lambda>key. key \<noteq> 13 \<and> key \<in> set (files disk_sample)) p) pre @ suf) \<and>
   map (ci_inode \<circ> snd) (cacheItems (Evict disk_sample_env 0 disk_sample)) = [13, 7]"
proof -
  have law: "removal_ok disk_sample_env (\<lambda>fs key. key \<noteq> 13 \<and> key \<in> set fs)"
    by (auto simp: removal_ok_def disk_sample_env_def)
  have ok: "dc_ok disk_sample" unfolding disk_sample_def using Start_ok [of "1 / 5" disk_sample_env] by simp
  have items: "map (ci_inode \<circ> snd) (cacheItems disk_sample) = [13, 9, 7]"
    "map (ci_inode \<circ> snd) (cacheItems (Evict disk_sample_env 0 disk_sample)) = [13, 7]" by code_simp+
  from Evict_oldest_first [OF law ok, of 0] law ok items show ?thesis by blast
qed

end
