(* ===== verification/Write_Stream.thy ===== *)
theory Write_Stream
  imports Disk_Cache
begin

text \<open>
  The write path of an open file (\<open>common/src/write_stream/stream_assembler.cpp\<close>) with the stub of
  the data node it writes to (\<open>falcon_store/src/connection/falcon_io_client.cpp\<close>).

  \<^item> A file that lives on this node is written at once, through the disk cache; for a file of
    another node, small writes that follow each other are collected in a buffer.
  \<^item> The RPC of the other node, \<open>pwrite\<close> and the memory allocation are parameters that act on a
    world \<open>'w\<close>; what the theorems need of them is the predicate \<open>io_ok\<close>.
  \<^item> Offsets are not negative and sizes are below \<open>2 ^ 63\<close>, so the sums of the code do not wrap
    around.  Log output, statistics and \<open>sleep\<close> are left out, as is the unused \<open>Merge\<close>.
\<close>

subsection \<open>Error numbers\<close>

definition EPERM :: int where "EPERM = 1"
definition ENOENT :: int where "ENOENT = 2"
definition EIO :: int where "EIO = 5"
definition EBADF :: int where "EBADF = 9"
definition ENOMEM :: int where "ENOMEM = 12"
definition EFAULT :: int where "EFAULT = 14"
definition EINVAL :: int where "EINVAL = 22"
definition ENOSPC :: int where "ENOSPC = 28"
definition EOPNOTSUPP :: int where "EOPNOTSUPP = 95"
definition ETIMEDOUT :: int where "ETIMEDOUT = 110"

lemmas errno_defs = EPERM_def ENOENT_def EIO_def EBADF_def ENOMEM_def EFAULT_def EINVAL_def ENOSPC_def EOPNOTSUPP_def ETIMEDOUT_def

datatype brpc_error = BRPC_ENOSERVICE | BRPC_ENOMETHOD | BRPC_EREQUEST | BRPC_ERPCAUTH | BRPC_ERPCTIMEDOUT | BRPC_EFAILEDSOCKET | BRPC_OTHER

definition BrpcErrorCodeToFuseErrno :: "brpc_error \<Rightarrow> int" where
  "BrpcErrorCodeToFuseErrno e = (case e of
     BRPC_ENOSERVICE \<Rightarrow> EOPNOTSUPP | BRPC_ENOMETHOD \<Rightarrow> EOPNOTSUPP | BRPC_EREQUEST \<Rightarrow> EINVAL | BRPC_ERPCAUTH \<Rightarrow> EPERM
   | BRPC_ERPCTIMEDOUT \<Rightarrow> ETIMEDOUT | BRPC_EFAILEDSOCKET \<Rightarrow> EIO | BRPC_OTHER \<Rightarrow> EFAULT)"

text \<open>The outcome of an RPC: the call failed, or there is a reply.\<close>

datatype 'a rpc = Failed brpc_error | Reply 'a

text \<open>
  \<open>rpc_write\<close> replies with the error code and the size written, \<open>rpc_close\<close> with the error code;
  \<open>pwrite\<close> gives the size written or a negative error number.
\<close>

record 'w io_env =
  rpc_write :: "u64 \<Rightarrow> u8 list \<Rightarrow> int \<Rightarrow> 'w \<Rightarrow> (int \<times> int) rpc \<times> 'w"
  rpc_close :: "u64 \<Rightarrow> bool \<Rightarrow> bool \<Rightarrow> u8 list \<Rightarrow> int \<Rightarrow> 'w \<Rightarrow> int rpc \<times> 'w"
  pwrite :: "u64 \<Rightarrow> u8 list \<Rightarrow> int \<Rightarrow> 'w \<Rightarrow> int \<times> 'w"
  write_pool_alloc :: "'w \<Rightarrow> bool \<times> 'w"
  aligned_alloc :: "nat \<Rightarrow> 'w \<Rightarrow> bool \<times> 'w"

subsection \<open>The stub of the other node\<close>

definition FalconIOClient_WriteFile :: "'w io_env \<Rightarrow> u64 \<Rightarrow> u8 list \<Rightarrow> int \<Rightarrow> 'w \<Rightarrow> int \<times> 'w" where
  "FalconIOClient_WriteFile io physicalFd writeBuffer offset w =
    (let (r, w) = rpc_write io physicalFd writeBuffer offset w in
     case r of
       Failed e \<Rightarrow> (- BrpcErrorCodeToFuseErrno e, w)
     | Reply (error_code, write_size) \<Rightarrow>
        if error_code \<noteq> 0 then (error_code, w)
        else if write_size \<noteq> int (length writeBuffer) then (- EIO, w)
        else (0, w))"

definition FalconIOClient_CloseFile :: "'w io_env \<Rightarrow> u64 \<Rightarrow> bool \<Rightarrow> bool \<Rightarrow> u8 list \<Rightarrow> int \<Rightarrow> 'w \<Rightarrow> int \<times> 'w" where
  "FalconIOClient_CloseFile io physicalFd isFlush isSync buf offset w =
    (let (r, w) = rpc_close io physicalFd isFlush isSync buf offset w in
     case r of
       Failed e \<Rightarrow> (- BrpcErrorCodeToFuseErrno e, w)
     | Reply error_code \<Rightarrow> if error_code \<noteq> 0 then (error_code, w) else (0, w))"

subsection \<open>The buffer\<close>

definition FALCON_STORE_STREAM_MAX_SIZE :: nat where
  "FALCON_STORE_STREAM_MAX_SIZE = 256 * 1024"

text \<open>\<open>bytes\<close> are the first \<open>size\<close> bytes of the memory block, \<open>has_mem\<close> that there is one.\<close>

record FixMemory =
  has_mem :: bool
  fm_bytes :: "u8 list"

definition FixMemory_Append :: "'w io_env \<Rightarrow> u8 list \<Rightarrow> FixMemory \<Rightarrow> 'w \<Rightarrow> bool \<times> FixMemory \<times> 'w" where
  "FixMemory_Append io buf m w =
    (let (ok, w) = (if has_mem m then (True, w) else write_pool_alloc io w) in
     if \<not> ok then (False, m, w)
     else
       let m = m\<lparr>has_mem := True\<rparr> in
       if length (fm_bytes m) + length buf > FALCON_STORE_STREAM_MAX_SIZE then (False, m, w)
       else (True, m\<lparr>fm_bytes := fm_bytes m @ buf\<rparr>, w))"

record SerialData =
  srd_buf :: FixMemory
  srd_size :: nat
  srd_offset :: int

definition SerialData_Append :: "'w io_env \<Rightarrow> u8 list \<Rightarrow> int \<Rightarrow> SerialData \<Rightarrow> 'w \<Rightarrow> bool \<times> SerialData \<times> 'w" where
  "SerialData_Append io appendBuf appendOffset d w =
    (let (ok, m, w) = FixMemory_Append io appendBuf (srd_buf d) w; d = d\<lparr>srd_buf := m\<rparr> in
     if \<not> ok then (False, d, w)
     else
       let d = (if srd_offset d = - 1 then d\<lparr>srd_offset := appendOffset\<rparr> else d) in
       (True, d\<lparr>srd_size := srd_size d + length appendBuf\<rparr>, w))"

definition SerialData_Clear :: "SerialData \<Rightarrow> SerialData" where
  "SerialData_Clear d = d\<lparr>srd_buf := (srd_buf d)\<lparr>fm_bytes := []\<rparr>, srd_offset := - 1, srd_size := 0\<rparr>"

definition SerialData_End :: "SerialData \<Rightarrow> int" where
  "SerialData_End d = int (srd_size d) + (if srd_offset d = - 1 then 0 else srd_offset d)"

subsection \<open>The stream\<close>

text \<open>The stream object with the world and the disk cache it acts on.\<close>

record ('w, 'fs) WriteStream =
  physicalFd :: u64
  has_client :: bool
  sdata :: SerialData
  ws_inodeId :: u64
  direct :: bool
  world :: 'w
  dcache :: "'fs DiskCache"

definition BRPC_RETRY_NUM :: nat where
  "BRPC_RETRY_NUM = 3"

text \<open>The retry loops: they go on while the call reports a timeout.\<close>

primrec retry :: "('w \<Rightarrow> int \<times> 'w) \<Rightarrow> nat \<Rightarrow> 'w \<Rightarrow> int \<times> 'w" where
  "retry call 0 w = (- ETIMEDOUT, w)"
| "retry call (Suc n) w =
    (let (ret, w) = call w in if ret = - ETIMEDOUT then retry call n w else (ret, w))"

definition PersistToFile :: "'w io_env \<Rightarrow> 'fs disk_env \<Rightarrow> u8 list \<Rightarrow> int \<Rightarrow> nat \<Rightarrow> ('w, 'fs) WriteStream \<Rightarrow> int \<times> ('w, 'fs) WriteStream" where
  "PersistToFile io env buf offset currentSize s =
    (if buf = [] then (0, s)
     else if has_client s then
       let (retSize, w) = retry (FalconIOClient_WriteFile io (physicalFd s) buf offset) BRPC_RETRY_NUM (world s);
           s = s\<lparr>world := w\<rparr> in
       (retSize, s)
     else
       let newSize = max (nat offset + length buf) currentSize; sizeToAdd = of_nat (newSize - currentSize);
           (ok, dc) = PreAllocSpace env sizeToAdd (dcache s); s = s\<lparr>dcache := dc\<rparr> in
       if \<not> ok then (- ENOSPC, s)
       else
         let (retSize, w) = pwrite io (physicalFd s) buf offset (world s); s = s\<lparr>world := w\<rparr> in
         if retSize < 0 then (retSize, s\<lparr>dcache := FreePreAllocSpace sizeToAdd (dcache s)\<rparr>)
         else
           let (ok, dc) = Add env (ws_inodeId s) sizeToAdd (dcache s); s = s\<lparr>dcache := FreePreAllocSpace sizeToAdd dc\<rparr> in
           if \<not> ok then (- ENOENT, s) else (0, s))"

definition Persist :: "'w io_env \<Rightarrow> 'fs disk_env \<Rightarrow> nat \<Rightarrow> ('w, 'fs) WriteStream \<Rightarrow> int \<times> ('w, 'fs) WriteStream" where
  "Persist io env currentSize s =
    (if \<not> has_client s \<and> physicalFd s = - 1 then (- EBADF, s)
     else
       let (ret, s) = (if srd_size (sdata s) \<noteq> 0
                       then PersistToFile io env (fm_bytes (srd_buf (sdata s))) (srd_offset (sdata s)) currentSize s
                       else (0, s)) in
       (ret, s\<lparr>sdata := SerialData_Clear (sdata s)\<rparr>))"

text \<open>The result of the append is not looked at.\<close>

definition Push :: "'w io_env \<Rightarrow> 'fs disk_env \<Rightarrow> u8 list \<Rightarrow> int \<Rightarrow> nat \<Rightarrow> ('w, 'fs) WriteStream \<Rightarrow> int \<times> ('w, 'fs) WriteStream" where
  "Push io env buf offset currentSize s =
    (if buf = [] then (0, s)
     else if \<not> has_client s then
       if \<not> direct s then PersistToFile io env buf offset currentSize s
       else
         let alignedNum = length buf div 512 + (if length buf mod 512 \<noteq> 0 then 1 else 0);
             (ok, w) = aligned_alloc io (512 * alignedNum) (world s); s = s\<lparr>world := w\<rparr> in
         if \<not> ok then (- ENOMEM, s) else PersistToFile io env buf offset currentSize s
     else
       let (ret, s) = (if SerialData_End (sdata s) \<noteq> offset \<or> length buf \<ge> FALCON_STORE_STREAM_MAX_SIZE
                       then Persist io env currentSize s else (0, s)) in
       if ret \<noteq> 0 then (ret, s)
       else if length buf \<ge> FALCON_STORE_STREAM_MAX_SIZE then PersistToFile io env buf offset currentSize s
       else
         let (ret, s) = (if srd_size (sdata s) + length buf > FALCON_STORE_STREAM_MAX_SIZE
                         then Persist io env currentSize s else (0, s)) in
         if ret \<noteq> 0 then (ret, s)
         else
           let (_, d, w) = SerialData_Append io buf offset (sdata s) (world s) in
           (0, s\<lparr>sdata := d, world := w\<rparr>))"

definition Complete :: "'w io_env \<Rightarrow> 'fs disk_env \<Rightarrow> nat \<Rightarrow> bool \<Rightarrow> bool \<Rightarrow> ('w, 'fs) WriteStream \<Rightarrow> int \<times> ('w, 'fs) WriteStream" where
  "Complete io env currentSize isFlush isSync s =
    (if has_client s then
       if srd_size (sdata s) \<noteq> 0 then
         let (ret, w) = retry (FalconIOClient_CloseFile io (physicalFd s) isFlush isSync (fm_bytes (srd_buf (sdata s)))
               (srd_offset (sdata s))) BRPC_RETRY_NUM (world s) in
         (ret, s\<lparr>world := w, sdata := SerialData_Clear (sdata s)\<rparr>)
       else
         let (ret, w) = FalconIOClient_CloseFile io (physicalFd s) isFlush isSync [] 0 (world s) in
         (ret, s\<lparr>world := w\<rparr>)
     else Persist io env currentSize s)"

definition SetFd :: "u64 \<Rightarrow> ('w, 'fs) WriteStream \<Rightarrow> int \<times> ('w, 'fs) WriteStream" where
  "SetFd newPhysicalFd s =
    (if physicalFd s \<noteq> - 1 \<and> physicalFd s \<noteq> newPhysicalFd then (- EBADF, s) else (0, s\<lparr>physicalFd := newPhysicalFd\<rparr>))"

definition GetSize :: "('w, 'fs) WriteStream \<Rightarrow> nat" where
  "GetSize s = srd_size (sdata s)"

subsection \<open>What the writes leave in the file\<close>

text \<open>The contents of a file, by offset, and a write at an offset.\<close>

type_synonym contents_of_file = "nat \<Rightarrow> u8 option"

definition write_at :: "contents_of_file \<Rightarrow> int \<Rightarrow> u8 list \<Rightarrow> contents_of_file" where
  "write_at f offset buf = (\<lambda>i. if nat offset \<le> i \<and> i - nat offset < length buf then Some (buf ! (i - nat offset)) else f i)"

lemma write_at_Nil [simp]: "write_at f offset [] = f"
  by (auto simp: write_at_def fun_eq_iff)

lemma write_at_prefixes: "write_at (write_at f offset (take k buf)) offset (take j buf) = write_at f offset (take (max k j) buf)"
  by (auto simp: write_at_def fun_eq_iff)

lemma write_at_prefix: "write_at (write_at f offset (take k buf)) offset buf = write_at f offset buf"
  using write_at_prefixes [of f offset k buf "length buf"] by (simp add: max_def)

lemma write_at_append:
  assumes "0 \<le> offset" and "next = offset + int (length xs)"
  shows "write_at (write_at f offset xs) next ys = write_at f offset (xs @ ys)"
  using assms by (auto simp: write_at_def fun_eq_iff nth_append nat_add_distrib)

text \<open>
  What is relied on: a call that fails may have written a part of the buffer, from its start on;
  a call that reports success has written all of it.
\<close>

definition writes :: "('w \<Rightarrow> contents_of_file) \<Rightarrow> ('w \<Rightarrow> int \<times> 'w) \<Rightarrow> int \<Rightarrow> u8 list \<Rightarrow> bool" where
  "writes content call offset buf \<longleftrightarrow> (\<forall>w ret w'. call w = (ret, w') \<longrightarrow>
     (\<exists>k. content w' = write_at (content w) offset (take k buf)) \<and> (ret = 0 \<longrightarrow> content w' = write_at (content w) offset buf))"

definition io_ok :: "'w io_env \<Rightarrow> u64 \<Rightarrow> ('w \<Rightarrow> contents_of_file) \<Rightarrow> bool" where
  "io_ok io fd content \<longleftrightarrow>
     (\<forall>buf offset w r w'. rpc_write io fd buf offset w = (r, w') \<longrightarrow>
        (\<exists>k. content w' = write_at (content w) offset (take k buf)) \<and>
        (r = Reply (0, int (length buf)) \<longrightarrow> content w' = write_at (content w) offset buf)) \<and>
     (\<forall>flush sync buf offset w r w'. rpc_close io fd flush sync buf offset w = (r, w') \<longrightarrow>
        (\<exists>k. content w' = write_at (content w) offset (take k buf)) \<and>
        (r = Reply 0 \<longrightarrow> content w' = write_at (content w) offset buf)) \<and>
     (\<forall>buf offset w n w'. pwrite io fd buf offset w = (n, w') \<longrightarrow> 0 \<le> n \<longrightarrow> content w' = write_at (content w) offset buf) \<and>
     (\<forall>w. fst (write_pool_alloc io w) \<and> content (snd (write_pool_alloc io w)) = content w) \<and>
     (\<forall>n w. content (snd (aligned_alloc io n w)) = content w)"

lemma writes_stub:
  assumes "io_ok io fd content"
  shows "writes content (FalconIOClient_WriteFile io fd buf offset) offset buf"
    and "writes content (FalconIOClient_CloseFile io fd flush sync buf offset) offset buf"
proof -
  have errno: "BrpcErrorCodeToFuseErrno e \<noteq> 0" for e by (cases e) (simp_all add: BrpcErrorCodeToFuseErrno_def errno_defs)
  have wr: "(\<exists>k. content w' = write_at (content w) offset (take k buf)) \<and>
      (r = Reply (0, int (length buf)) \<longrightarrow> content w' = write_at (content w) offset buf)"
    if "rpc_write io fd buf offset w = (r, w')" for w r w' using assms that unfolding io_ok_def by blast
  have cl: "(\<exists>k. content w' = write_at (content w) offset (take k buf)) \<and> (r = Reply 0 \<longrightarrow> content w' = write_at (content w) offset buf)"
    if "rpc_close io fd flush sync buf offset w = (r, w')" for w r w' using assms that unfolding io_ok_def by blast
  show "writes content (FalconIOClient_WriteFile io fd buf offset) offset buf"
    unfolding writes_def FalconIOClient_WriteFile_def
    using errno by (auto simp: EIO_def split: prod.splits rpc.splits if_splits dest: wr)
  show "writes content (FalconIOClient_CloseFile io fd flush sync buf offset) offset buf"
    unfolding writes_def FalconIOClient_CloseFile_def
    using errno by (auto split: prod.splits rpc.splits if_splits dest: cl)
qed

lemma writes_retry:
  assumes "writes content call offset buf"
  shows "writes content (retry call n) offset buf"
proof (induction n)
  case 0
  then show ?case by (auto simp: writes_def ETIMEDOUT_def intro!: exI [of _ 0])
next
  case (Suc n)
  show ?case
    unfolding writes_def
  proof (intro allI impI)
    fix w ret w' assume run: "retry call (Suc n) w = (ret, w')"
    obtain r w1 where c: "call w = (r, w1)" by (cases "call w")
    with assms have call: "(\<exists>k. content w1 = write_at (content w) offset (take k buf)) \<and> (r = 0 \<longrightarrow> content w1 = write_at (content w) offset buf)"
      unfolding writes_def by blast
    show "(\<exists>k. content w' = write_at (content w) offset (take k buf)) \<and> (ret = 0 \<longrightarrow> content w' = write_at (content w) offset buf)"
    proof (cases "r = - ETIMEDOUT")
      case True
      with run c have "retry call n w1 = (ret, w')" by simp
      with Suc have "(\<exists>k. content w' = write_at (content w1) offset (take k buf)) \<and> (ret = 0 \<longrightarrow> content w' = write_at (content w1) offset buf)"
        unfolding writes_def by blast
      with call show ?thesis by (auto simp: write_at_prefixes write_at_prefix)
    next
      case False
      with run c call show ?thesis by simp
    qed
  qed
qed

definition pending :: "('w \<Rightarrow> contents_of_file) \<Rightarrow> ('w, 'fs) WriteStream \<Rightarrow> contents_of_file" where
  "pending content s = write_at (content (world s)) (srd_offset (sdata s)) (fm_bytes (srd_buf (sdata s)))"

definition stream_ok :: "('w, 'fs) WriteStream \<Rightarrow> bool" where
  "stream_ok s \<longleftrightarrow> srd_size (sdata s) = length (fm_bytes (srd_buf (sdata s))) \<and>
     (if fm_bytes (srd_buf (sdata s)) = [] then srd_offset (sdata s) = - 1 else 0 \<le> srd_offset (sdata s) \<and> has_client s)"

definition same_stream :: "('w, 'fs) WriteStream \<Rightarrow> ('w, 'fs) WriteStream \<Rightarrow> bool" where
  "same_stream s t \<longleftrightarrow> physicalFd t = physicalFd s \<and> has_client t = has_client s"

lemma PersistToFile_ok:
  assumes "io_ok io (physicalFd s) content" and "PersistToFile io env buf offset currentSize s = (0, t)"
  shows "content (world t) = write_at (content (world s)) offset buf" and "sdata t = sdata s" and "same_stream s t"
proof -
  have rt: "content w' = write_at (content w) offset buf"
    if "retry (FalconIOClient_WriteFile io (physicalFd s) buf offset) BRPC_RETRY_NUM w = (0, w')" for w w'
    using writes_retry [OF writes_stub(1) [OF assms(1)]] that unfolding writes_def by blast
  have pw: "content w' = write_at (content w) offset buf" if "pwrite io (physicalFd s) buf offset w = (n, w')" "0 \<le> n" for n w w'
    using assms(1) that unfolding io_ok_def by blast
  show "content (world t) = write_at (content (world s)) offset buf" and "sdata t = sdata s" and "same_stream s t"
    using assms(2) rt pw
    by (auto simp: PersistToFile_def Let_def same_stream_def errno_defs split: if_splits prod.splits)
qed

lemma same_stream_refl [simp]: "same_stream s s"
  and same_stream_trans: "same_stream s t \<Longrightarrow> same_stream t u \<Longrightarrow> same_stream s u"
  by (simp_all add: same_stream_def)

lemma Persist_ok:
  assumes "io_ok io (physicalFd s) content" and "stream_ok s" and "Persist io env currentSize s = (0, t)"
  shows "content (world t) = pending content s" and "fm_bytes (srd_buf (sdata t)) = []" and "stream_ok t" and "same_stream s t"
proof -
  let ?d = "sdata s"
  obtain u where u: "(if srd_size ?d \<noteq> 0 then PersistToFile io env (fm_bytes (srd_buf ?d)) (srd_offset ?d) currentSize s else (0, s)) = (0, u)"
    and t: "t = u\<lparr>sdata := SerialData_Clear (sdata u)\<rparr>"
    using assms(3) by (auto simp: Persist_def errno_defs split: if_splits prod.splits)
  have "content (world u) = pending content s \<and> same_stream s u"
  proof (cases "srd_size ?d = 0")
    case True
    with u assms(2) show ?thesis by (simp add: stream_ok_def pending_def)
  next
    case False
    with u PersistToFile_ok [OF assms(1), of env "fm_bytes (srd_buf ?d)" "srd_offset ?d" currentSize u] show ?thesis by (simp add: pending_def)
  qed
  then show "content (world t) = pending content s" and "fm_bytes (srd_buf (sdata t)) = []" and "stream_ok t" and "same_stream s t"
    by (simp_all add: t SerialData_Clear_def stream_ok_def same_stream_def)
qed

lemma flush_ok:
  assumes "io_ok io (physicalFd s) content" and "stream_ok s" and "(if b then Persist io env currentSize s else (0, s)) = (0, t)"
  shows "pending content t = pending content s" and "b \<Longrightarrow> fm_bytes (srd_buf (sdata t)) = []" and "\<not> b \<Longrightarrow> t = s" and "stream_ok t"
    and "same_stream s t"
proof -
  have "pending content t = pending content s \<and> (b \<longrightarrow> fm_bytes (srd_buf (sdata t)) = []) \<and> (\<not> b \<longrightarrow> t = s) \<and> stream_ok t \<and> same_stream s t"
  proof (cases b)
    case True
    with assms(3) Persist_ok [OF assms(1,2), of env currentSize t] show ?thesis by (simp add: pending_def)
  qed (use assms in simp)
  then show "pending content t = pending content s" and "b \<Longrightarrow> fm_bytes (srd_buf (sdata t)) = []" and "\<not> b \<Longrightarrow> t = s" and "stream_ok t"
    and "same_stream s t" by simp_all
qed

lemma append_ok:
  assumes "io_ok io fd content" and "stream_ok s" and "has_client s" and "0 \<le> offset" and "buf \<noteq> []"
    and "srd_size (sdata s) + length buf \<le> FALCON_STORE_STREAM_MAX_SIZE" and "fm_bytes (srd_buf (sdata s)) \<noteq> [] \<Longrightarrow> SerialData_End (sdata s) = offset"
    and "SerialData_Append io buf offset (sdata s) (world s) = (ok, d, w)"
  shows "pending content (s\<lparr>sdata := d, world := w\<rparr>) = write_at (pending content s) offset buf" and "stream_ok (s\<lparr>sdata := d, world := w\<rparr>)"
proof -
  let ?bytes = "fm_bytes (srd_buf (sdata s))"
  have pool: "fst (write_pool_alloc io v) \<and> content (snd (write_pool_alloc io v)) = content v" for v using assms(1) unfolding io_ok_def by blast
  have d: "content w = content (world s)" "fm_bytes (srd_buf d) = ?bytes @ buf" "srd_size d = srd_size (sdata s) + length buf"
    "srd_offset d = (if srd_offset (sdata s) = - 1 then offset else srd_offset (sdata s))"
    using assms(2,6,8) pool [of "world s"]
    by (auto simp: SerialData_Append_def FixMemory_Append_def Let_def stream_ok_def split: if_splits prod.splits)
  show "stream_ok (s\<lparr>sdata := d, world := w\<rparr>)" using assms(2-5) d by (auto simp: stream_ok_def split: if_splits)
  show "pending content (s\<lparr>sdata := d, world := w\<rparr>) = write_at (pending content s) offset buf"
  proof (cases "?bytes = []")
    case True
    with assms(2) d show ?thesis by (simp add: pending_def stream_ok_def)
  next
    case False
    with assms(2) have o: "0 \<le> srd_offset (sdata s)" "srd_size (sdata s) = length ?bytes" by (auto simp: stream_ok_def split: if_splits)
    with assms(7) False have "offset = srd_offset (sdata s) + int (length ?bytes)" by (simp add: SerialData_End_def)
    with d o show ?thesis by (simp add: pending_def write_at_append)
  qed
qed

lemma Push_ok:
  assumes "io_ok io (physicalFd s) content" and "stream_ok s" and "0 \<le> offset" and "Push io env buf offset currentSize s = (0, t)"
  shows "pending content t = write_at (pending content s) offset buf \<and> stream_ok t \<and> same_stream s t"
proof (cases "buf = []")
  case True
  with assms show ?thesis by (simp add: Push_def)
next
  case ne: False
  show ?thesis
  proof (cases "has_client s")
    case False
    then have none: "fm_bytes (srd_buf (sdata s)) = []" using assms(2) by (auto simp: stream_ok_def split: if_splits)
    have al: "content w' = content w" if "aligned_alloc io n w = (b, w')" for n w b w'
      using assms(1) that unfolding io_ok_def by (metis snd_conv)
    obtain u where u: "PersistToFile io env buf offset currentSize u = (0, t)" "content (world u) = content (world s)" "sdata u = sdata s"
      "same_stream s u" "physicalFd u = physicalFd s"
      using assms(4) ne False al
      by (cases "direct s") (auto simp: Push_def Let_def errno_defs same_stream_def split: prod.splits if_splits)
    then have "content (world t) = write_at (content (world s)) offset buf" "sdata t = sdata s" "same_stream s t"
      using PersistToFile_ok [of io u content env buf offset currentSize t] assms(1) by (auto intro: same_stream_trans)
    with none assms(2) show ?thesis by (simp add: pending_def stream_ok_def same_stream_def)
  next
    case True
    let ?big = "FALCON_STORE_STREAM_MAX_SIZE \<le> length buf" and ?b1 = "SerialData_End (sdata s) \<noteq> offset \<or> FALCON_STORE_STREAM_MAX_SIZE \<le> length buf"
    obtain u where f1: "(if ?b1 then Persist io env currentSize s else (0, s)) = (0, u)"
      and rest: "(if ?big then PersistToFile io env buf offset currentSize u
        else let (ret, s) = (if srd_size (sdata u) + length buf > FALCON_STORE_STREAM_MAX_SIZE then Persist io env currentSize u else (0, u)) in
          if ret \<noteq> 0 then (ret, s)
          else let (_, d, w) = SerialData_Append io buf offset (sdata s) (world s) in (0, s\<lparr>sdata := d, world := w\<rparr>)) = (0, t)"
      using assms(4) ne True unfolding Push_def by (auto simp: Let_def split: prod.splits if_splits)
    note u = flush_ok [OF assms(1,2) f1]
    have fd: "physicalFd u = physicalFd s" "has_client u" using u(5) True by (simp_all add: same_stream_def)
    show ?thesis
    proof (cases ?big)
      case big: True
      then have "fm_bytes (srd_buf (sdata u)) = []" using u(2) by simp
      with rest big PersistToFile_ok [of io u content env buf offset currentSize t] assms(1) u fd show ?thesis
        by (auto simp: pending_def stream_ok_def same_stream_def)
    next
      case small: False
      let ?b2 = "srd_size (sdata u) + length buf > FALCON_STORE_STREAM_MAX_SIZE"
      obtain v ok d w where f2: "(if ?b2 then Persist io env currentSize u else (0, u)) = (0, v)"
        and app: "SerialData_Append io buf offset (sdata v) (world v) = (ok, d, w)" and t: "t = v\<lparr>sdata := d, world := w\<rparr>"
        using rest small by (auto simp: Let_def split: prod.splits if_splits)
      note v = flush_ok [OF assms(1) [folded fd(1)] u(4) f2]
      have vfd: "physicalFd v = physicalFd s" "has_client v" using v(5) fd by (simp_all add: same_stream_def)
      have empty: "srd_size (sdata v) = 0" if ?b2 using v(2) [OF that] v(4) by (simp add: stream_ok_def)
      have "srd_size (sdata v) + length buf \<le> FALCON_STORE_STREAM_MAX_SIZE" using empty small v(3) by (cases ?b2) auto
      moreover have "SerialData_End (sdata v) = offset" if "fm_bytes (srd_buf (sdata v)) \<noteq> []"
        using that u(2,3) v(2,3) by (cases ?b2; cases ?b1) auto
      ultimately have "pending content t = write_at (pending content v) offset buf" "stream_ok t"
        unfolding t using append_ok [OF assms(1) v(4) vfd(2) assms(3) ne _ _ app] by auto
      moreover have "same_stream s t" using u(5) v(5) by (simp add: t same_stream_def)
      ultimately show ?thesis using u(1) v(1) by simp
    qed
  qed
qed

lemma Complete_ok:
  assumes "io_ok io (physicalFd s) content" and "stream_ok s" and "Complete io env currentSize isFlush isSync s = (0, t)"
  shows "content (world t) = pending content s"
proof (cases "has_client s")
  case True
  have close: "writes content (FalconIOClient_CloseFile io (physicalFd s) isFlush isSync buf offset) offset buf" for buf offset
    by (rule writes_stub(2) [OF assms(1)])
  show ?thesis
  proof (cases "srd_size (sdata s) = 0")
    case True
    with \<open>has_client s\<close> assms(2,3) close [of "[]" 0] show ?thesis
      by (auto simp: Complete_def Let_def stream_ok_def pending_def writes_def split: prod.splits)
  next
    case False
    with \<open>has_client s\<close> assms(3) writes_retry [OF close [of "fm_bytes (srd_buf (sdata s))" "srd_offset (sdata s)"], of BRPC_RETRY_NUM] show ?thesis
      by (auto simp: Complete_def Let_def pending_def writes_def split: prod.splits)
  qed
next
  case False
  with assms(3) Persist_ok [OF assms(1,2), of env currentSize t] show ?thesis by (simp add: Complete_def)
qed

subsection \<open>Main results\<close>

text \<open>A sequence of writes, each with its buffer, its offset and the size of the file then, that all succeed.\<close>

fun push_all :: "'w io_env \<Rightarrow> 'fs disk_env \<Rightarrow> (u8 list \<times> int \<times> nat) list \<Rightarrow> ('w, 'fs) WriteStream \<Rightarrow> ('w, 'fs) WriteStream option" where
  "push_all io env [] s = Some s"
| "push_all io env ((buf, offset, currentSize) # ps) s =
    (let (ret, t) = Push io env buf offset currentSize s in if ret = 0 then push_all io env ps t else None)"

lemma push_all_ok:
  assumes "io_ok io (physicalFd s) content" and "stream_ok s" and "\<forall>(buf, offset, currentSize)\<in>set ps. 0 \<le> offset"
    and "push_all io env ps s = Some t"
  shows "pending content t = foldl (\<lambda>f (buf, offset, currentSize). write_at f offset buf) (pending content s) ps \<and>
    stream_ok t \<and> same_stream s t"
  using assms
proof (induction ps arbitrary: s)
  case (Cons p ps)
  obtain buf offset currentSize where p: "p = (buf, offset, currentSize)" by (cases p)
  from Cons.prems(4) obtain u where u: "Push io env buf offset currentSize s = (0, u)" "push_all io env ps u = Some t"
    by (auto simp: p split: prod.splits if_splits)
  have offset: "0 \<le> offset" using Cons.prems(3) by (simp add: p)
  note ok = Push_ok [OF Cons.prems(1,2) offset u(1)]
  then have "io_ok io (physicalFd u) content" using Cons.prems(1) by (simp add: same_stream_def)
  with Cons.IH [of u] ok u(2) Cons.prems(3) show ?case by (auto simp: p intro: same_stream_trans)
qed simp


text \<open>When the memory pool has no block, a small write of a file of another node is dropped and reported as done.\<close>

lemma Push_without_memory:
  assumes "has_client s" and "sdata s = \<lparr>srd_buf = \<lparr>has_mem = False, fm_bytes = []\<rparr>, srd_size = 0, srd_offset = - 1\<rparr>"
    and "write_pool_alloc io (world s) = (False, w)" and "buf \<noteq> []" and "length buf < FALCON_STORE_STREAM_MAX_SIZE"
  shows "Push io env buf 0 currentSize s = (0, s\<lparr>world := w\<rparr>)"
  using assms
  by (simp add: Push_def SerialData_End_def SerialData_Append_def FixMemory_Append_def Let_def)

text \<open>A node that answers every call, and a stream to it.\<close>

definition io_sample :: "contents_of_file io_env" where
  "io_sample = \<lparr>rpc_write = (\<lambda>fd buf offset w. (Reply (0, int (length buf)), write_at w offset buf)),
     rpc_close = (\<lambda>fd flush sync buf offset w. (Reply 0, write_at w offset buf)),
     pwrite = (\<lambda>fd buf offset w. (int (length buf), write_at w offset buf)),
     write_pool_alloc = (\<lambda>w. (True, w)), aligned_alloc = (\<lambda>n w. (True, w))\<rparr>"

definition stream_sample :: "(contents_of_file, u64 list) WriteStream" where
  "stream_sample = \<lparr>physicalFd = 5, has_client = True,
     sdata = \<lparr>srd_buf = \<lparr>has_mem = False, fm_bytes = []\<rparr>, srd_size = 0, srd_offset = - 1\<rparr>, ws_inodeId = 7, direct = False,
     world = Map.empty, dcache = DiskCache_init disk_sample_env []\<rparr>"


end
