(* ===== verification/Serialized_Data.thy ===== *)
theory Serialized_Data
  imports Falcon_Prelude
begin

text \<open>
  The message format between clients and metadata servers: a buffer of segments, each with its
  length in front (\<open>remote_connection_def/remote_connection_utils/serialized_data.h\<close>).

  \<^item> \<open>sd_bytes\<close> is the memory of the buffer, \<open>[]\<close> for a null pointer; its length is the capacity.
    Sizes are \<open>uint32_t\<close> and wrap around.
  \<^item> A memory manager is given by which allocations succeed and which bytes new memory holds;
    \<open>None\<close> is the null pointer.
  \<^item> \<open>little\<close> tells the byte order of the machine.
  \<^item> A read outside of the memory has no result: \<open>None\<close>.
\<close>

record MemoryManager =
  mm_ok :: "u32 \<Rightarrow> bool"
  mm_junk :: "nat \<Rightarrow> u8"

record SerializedData =
  sd_bytes :: "u8 list"
  sd_size :: u32
  sd_capacity :: u32
  sd_memoryManager :: "MemoryManager option"

definition SERIALIZED_DATA_DEFAULT_CAPACITY :: u32 where
  "SERIALIZED_DATA_DEFAULT_CAPACITY = 128"

definition SERIALIZED_DATA_ALIGNMENT :: u32 where
  "SERIALIZED_DATA_ALIGNMENT = 4"

definition SERIALIZED_DATA_ALIGNMENT_MASK :: u32 where
  "SERIALIZED_DATA_ALIGNMENT_MASK = 3"

definition ConvertBetweenBigAndLittleEndian :: "u32 \<Rightarrow> u32" where
  "ConvertBetweenBigAndLittleEndian value =
    drop_bit 24 (value AND 0xFF000000) OR drop_bit 8 (value AND 0x00FF0000) OR push_bit 8 (value AND 0x0000FF00) OR
    push_bit 24 (value AND 0x000000FF)"

text \<open>How the machine keeps a number in four bytes.\<close>

definition le_bytes :: "u32 \<Rightarrow> u8 list" where
  "le_bytes v = [ucast v, ucast (drop_bit 8 v), ucast (drop_bit 16 v), ucast (drop_bit 24 v)]"

definition of_le_bytes :: "u8 list \<Rightarrow> u32" where
  "of_le_bytes bs = ucast (bs ! 0) OR push_bit 8 (ucast (bs ! 1)) OR push_bit 16 (ucast (bs ! 2)) OR push_bit 24 (ucast (bs ! 3))"

definition native_bytes :: "bool \<Rightarrow> u32 \<Rightarrow> u8 list" where
  "native_bytes little v = (if little then le_bytes v else rev (le_bytes v))"

definition of_native_bytes :: "bool \<Rightarrow> u8 list \<Rightarrow> u32" where
  "of_native_bytes little bs = of_le_bytes (if little then bs else rev bs)"

definition put_bytes :: "nat \<Rightarrow> u8 list \<Rightarrow> u8 list \<Rightarrow> u8 list" where
  "put_bytes pos xs bs = take pos bs @ xs @ drop (pos + length xs) bs"

subsection \<open>Operations\<close>

text \<open>\<open>buffer\<close> is \<open>None\<close> for a null pointer; the buffer given has \<open>bufferSize\<close> bytes.\<close>

definition SerializedDataInit :: "MemoryManager \<Rightarrow> u8 list option \<Rightarrow> u32 \<Rightarrow> u32 \<Rightarrow> MemoryManager option \<Rightarrow> SerializedData option" where
  "SerializedDataInit DefaultMemoryManager buffer bufferSize validBytes memoryManager =
    (case buffer of
       Some bs \<Rightarrow>
        if bufferSize AND SERIALIZED_DATA_ALIGNMENT_MASK \<noteq> 0 \<or> validBytes AND SERIALIZED_DATA_ALIGNMENT_MASK \<noteq> 0 then None
        else Some \<lparr>sd_bytes = bs, sd_size = validBytes, sd_capacity = bufferSize, sd_memoryManager = memoryManager\<rparr>
     | None \<Rightarrow> Some \<lparr>sd_bytes = [], sd_size = 0, sd_capacity = 0,
        sd_memoryManager = Some (case memoryManager of None \<Rightarrow> DefaultMemoryManager | Some m \<Rightarrow> m)\<rparr>)"

definition SerializedDataClear :: "SerializedData \<Rightarrow> SerializedData" where
  "SerializedDataClear data = data\<lparr>sd_size := 0\<rparr>"

text \<open>The doubling loop; it does not end when the capacity has become zero.\<close>

partial_function (option) double_capacity :: "u32 \<Rightarrow> u32 \<Rightarrow> u32 option" where
  "double_capacity newCapacity wanted =
    (if newCapacity < wanted then double_capacity (newCapacity * 2) wanted else Some newCapacity)"

definition SerializedDataEnlarge :: "u32 \<Rightarrow> SerializedData \<Rightarrow> (bool \<times> SerializedData) option" where
  "SerializedDataEnlarge wanted data =
    (if wanted \<le> sd_capacity data then Some (True, data)
     else case sd_memoryManager data of
       None \<Rightarrow> Some (False, data)
     | Some m \<Rightarrow>
        Option.bind (double_capacity (if sd_capacity data = 0 then SERIALIZED_DATA_DEFAULT_CAPACITY else sd_capacity data * 2) wanted)
          (\<lambda>newCapacity.
            if mm_ok m newCapacity
            then Some (True, data\<lparr>sd_bytes := sd_bytes data @ map (mm_junk m) [length (sd_bytes data)..<unat newCapacity],
              sd_capacity := newCapacity\<rparr>)
            else Some (False, data)))"

definition aligned_size :: "u32 \<Rightarrow> u32" where
  "aligned_size bytes = bytes + ((NOT (bytes AND SERIALIZED_DATA_ALIGNMENT_MASK) + 1) AND SERIALIZED_DATA_ALIGNMENT_MASK)"

text \<open>The result is the position of the new segment.\<close>

definition SerializedDataApplyForSegment :: "bool \<Rightarrow> u32 \<Rightarrow> SerializedData \<Rightarrow> (nat option \<times> SerializedData) option" where
  "SerializedDataApplyForSegment little bytes data =
    (let bytes = aligned_size bytes in
     Option.bind (SerializedDataEnlarge (sd_size data + SERIALIZED_DATA_ALIGNMENT + bytes) data) (\<lambda>(ok, data).
     if \<not> ok then Some (None, data)
     else
       let p = unat (sd_size data);
           data = data\<lparr>sd_bytes := put_bytes p (native_bytes little (if little then bytes else ConvertBetweenBigAndLittleEndian bytes)) (sd_bytes data)\<rparr>;
           data = data\<lparr>sd_size := sd_size data + (SERIALIZED_DATA_ALIGNMENT + bytes)\<rparr> in
       Some (Some (p + unat SERIALIZED_DATA_ALIGNMENT), data)))"

definition SerializedDataAppend :: "SerializedData \<Rightarrow> SerializedData \<Rightarrow> (bool \<times> SerializedData) option" where
  "SerializedDataAppend src dest =
    Option.bind (SerializedDataEnlarge (sd_size dest + sd_size src) dest) (\<lambda>(ok, dest).
    if \<not> ok then Some (False, dest)
    else Some (True, dest\<lparr>sd_bytes := put_bytes (unat (sd_size dest)) (take (unat (sd_size src)) (sd_bytes src)) (sd_bytes dest),
      sd_size := sd_size dest + sd_size src\<rparr>))"

definition read_size :: "bool \<Rightarrow> nat \<Rightarrow> SerializedData \<Rightarrow> u32 option" where
  "read_size little p data =
    (if length (sd_bytes data) < p + 4 then None
     else
       let itemSize = of_native_bytes little (take 4 (drop p (sd_bytes data))) in
       Some (if little then itemSize else ConvertBetweenBigAndLittleEndian itemSize))"

text \<open>The loop over the items; \<open>Inl\<close> is the early return of -1, \<open>Inr\<close> the position behind the items.\<close>

primrec skip_items :: "bool \<Rightarrow> SerializedData \<Rightarrow> nat \<Rightarrow> nat \<Rightarrow> (unit + nat) option" where
  "skip_items little data 0 p = Some (Inr p)"
| "skip_items little data (Suc itemCount) p =
    Option.bind (read_size little p data) (\<lambda>itemSize.
    if itemSize AND SERIALIZED_DATA_ALIGNMENT_MASK \<noteq> 0 then Some (Inl ())
    else
      let p = p + (4 + unat itemSize) in
      if p > unat (sd_size data) then Some (Inl ()) else skip_items little data itemCount p)"

definition SerializedDataNextSeveralItemSize :: "bool \<Rightarrow> SerializedData \<Rightarrow> u32 \<Rightarrow> u32 \<Rightarrow> u32 option" where
  "SerializedDataNextSeveralItemSize little data start itemCount =
    (if start AND SERIALIZED_DATA_ALIGNMENT_MASK \<noteq> 0 then Some (- 1)
     else map_option (\<lambda>r. case r of Inl _ \<Rightarrow> - 1 | Inr p \<Rightarrow> of_nat p - start) (skip_items little data (unat itemCount) (unat start)))"

text \<open>The caller's copy of a payload into its segment.\<close>

definition fill_segment :: "nat \<Rightarrow> u8 list \<Rightarrow> SerializedData \<Rightarrow> SerializedData" where
  "fill_segment pos payload data = data\<lparr>sd_bytes := put_bytes pos payload (sd_bytes data)\<rparr>"

subsection \<open>Numbers in four bytes\<close>

lemma length_le_bytes [simp]: "length (le_bytes v) = 4"
  by (simp add: le_bytes_def)

lemma of_le_bytes_le_bytes [simp]: "of_le_bytes (le_bytes v) = v"
proof (rule bit_word_eqI)
  fix n assume "n < LENGTH(32)"
  then consider "n < 8" | "8 \<le> n" "n < 16" | "16 \<le> n" "n < 24" | "24 \<le> n" "n < 32" by simp linarith
  then show "bit (of_le_bytes (le_bytes v)) n = bit v n"
    by cases (auto simp: of_le_bytes_def le_bytes_def bit_simps)
qed

lemma byte_masks: "(0xFF000000 :: u32) = push_bit 24 (mask 8)" "(0x00FF0000 :: u32) = push_bit 16 (mask 8)"
  "(0x0000FF00 :: u32) = push_bit 8 (mask 8)" "(0x000000FF :: u32) = mask 8"
  by (simp_all add: push_bit_eq_mult mask_eq_exp_minus_1)

lemma convert_bytes: "rev (le_bytes (ConvertBetweenBigAndLittleEndian v)) = le_bytes v"
  unfolding le_bytes_def ConvertBetweenBigAndLittleEndian_def byte_masks
  by (simp, intro conjI; rule bit_word_eqI; auto simp: bit_simps)

lemma stored_is_little_endian:
  "native_bytes little (if little then v else ConvertBetweenBigAndLittleEndian v) = le_bytes v"
  by (simp add: native_bytes_def convert_bytes)

lemma convert_of_bytes:
  assumes "length bs = 4"
  shows "ConvertBetweenBigAndLittleEndian (of_le_bytes (rev bs)) = of_le_bytes bs"
proof -
  obtain a b c d where bs: "bs = [a, b, c, d]" using assms by (auto simp: length_Suc_conv eval_nat_numeral)
  show ?thesis
  proof (rule bit_word_eqI)
    fix n assume "n < LENGTH(32)"
    then consider "n < 8" | "8 \<le> n" "n < 16" | "16 \<le> n" "n < 24" | "24 \<le> n" "n < 32" by simp linarith
    then show "bit (ConvertBetweenBigAndLittleEndian (of_le_bytes (rev bs))) n = bit (of_le_bytes bs) n"
      unfolding ConvertBetweenBigAndLittleEndian_def byte_masks
      by cases (auto simp: of_le_bytes_def bs bit_simps dest: bit_imp_le_length)
  qed
qed

lemma read_is_little_endian:
  assumes "length bs = 4"
  shows "(if little then of_native_bytes little bs else ConvertBetweenBigAndLittleEndian (of_native_bytes little bs)) = of_le_bytes bs"
  using assms by (simp add: of_native_bytes_def convert_of_bytes)

subsection \<open>Alignment\<close>

definition padded :: "nat \<Rightarrow> nat" where
  "padded n = (n + 3) div 4 * 4"

lemma and_3: "(of_nat n :: u32) AND SERIALIZED_DATA_ALIGNMENT_MASK = of_nat (n mod 4)"
proof -
  have "SERIALIZED_DATA_ALIGNMENT_MASK = mask 2" by (simp add: SERIALIZED_DATA_ALIGNMENT_MASK_def mask_eq_exp_minus_1)
  then have "(of_nat n :: u32) AND SERIALIZED_DATA_ALIGNMENT_MASK = take_bit 2 (of_nat n)" by (simp add: take_bit_eq_mask)
  then show ?thesis by (simp add: take_bit_of_nat) (simp add: take_bit_eq_mod)
qed

lemma padded_eq: "padded n = n + (4 - n mod 4) mod 4"
proof -
  obtain q r where n: "n = 4 * q + r" "r < 4" by (metis mult_div_mod_eq mod_less_divisor zero_less_numeral)
  then have "r = 0 \<or> r = 1 \<or> r = 2 \<or> r = 3" by linarith
  then show ?thesis by (auto simp: padded_def n(1))
qed

lemma padded_dvd [simp]: "4 dvd padded n" and padded_ge: "n \<le> padded n"
  by (simp add: padded_def, simp add: padded_eq)

lemma align: "aligned_size (of_nat n) = of_nat (padded n)"
proof -
  have "n mod 4 = 0 \<or> n mod 4 = 1 \<or> n mod 4 = 2 \<or> n mod 4 = 3" using mod_less_divisor [of 4 n] by linarith
  then have "(NOT (of_nat (n mod 4) :: u32) + 1) AND SERIALIZED_DATA_ALIGNMENT_MASK = of_nat ((4 - n mod 4) mod 4)"
    by (elim disjE) (simp_all add: SERIALIZED_DATA_ALIGNMENT_MASK_def)
  then show ?thesis by (simp only: aligned_size_def and_3 padded_eq of_nat_add)
qed

subsection \<open>Growing\<close>

lemma double_capacity_returns:
  assumes "0 < unat c" and "unat wanted \<le> 2 ^ 31"
  shows "\<exists>c'. double_capacity c wanted = Some c' \<and> wanted \<le> c'"
  using assms(1)
proof (induction "unat wanted - unat c" arbitrary: c rule: less_induct)
  case less
  show ?case
  proof (cases "c < wanted")
    case True
    then have c: "unat c < unat wanted" by (simp add: word_less_nat_alt)
    with assms(2) have "unat (c * 2) = unat c * 2" by (simp add: unat_word_ariths)
    with less.prems c less.hyps [of "c * 2"] True show ?thesis by (subst double_capacity.simps) auto
  next
    case False
    then show ?thesis by (subst double_capacity.simps) (auto dest: leI)
  qed
qed

text \<open>The memory has the capacity, and the memory manager always has more.\<close>

definition buffer_ok :: "SerializedData \<Rightarrow> bool" where
  "buffer_ok d \<longleftrightarrow> length (sd_bytes d) = unat (sd_capacity d) \<and> (\<exists>m. sd_memoryManager d = Some m \<and> (\<forall>n. mm_ok m n))"

lemma Enlarge_ok:
  assumes "buffer_ok d" and "unat wanted \<le> 2 ^ 31"
  shows "\<exists>d'. SerializedDataEnlarge wanted d = Some (True, d') \<and> buffer_ok d' \<and> unat wanted \<le> length (sd_bytes d') \<and>
    sd_size d' = sd_size d \<and> take (length (sd_bytes d)) (sd_bytes d') = sd_bytes d"
proof (cases "wanted \<le> sd_capacity d")
  case True
  with assms(1) show ?thesis by (simp add: SerializedDataEnlarge_def buffer_ok_def word_le_nat_alt)
next
  case False
  then have cap: "unat (sd_capacity d) < unat wanted" by (simp add: word_le_nat_alt)
  let ?c = "if sd_capacity d = 0 then SERIALIZED_DATA_DEFAULT_CAPACITY else sd_capacity d * 2"
  have "0 < unat ?c"
  proof (cases "sd_capacity d = 0")
    case False
    have "unat (sd_capacity d * 2) = unat (sd_capacity d) * 2" using cap assms(2) by (simp add: unat_word_ariths)
    with False show ?thesis by (simp add: unat_gt_0)
  qed (simp add: SERIALIZED_DATA_DEFAULT_CAPACITY_def)
  then obtain c' where c': "double_capacity ?c wanted = Some c'" "wanted \<le> c'" using double_capacity_returns assms(2) by blast
  then have "unat wanted \<le> unat c'" by (simp add: word_le_nat_alt)
  with assms(1) c' cap False show ?thesis by (auto simp: SerializedDataEnlarge_def buffer_ok_def)
qed

subsection \<open>Segments\<close>

definition enc :: "u8 list list \<Rightarrow> u8 list" where
  "enc items = concat (map (\<lambda>item. le_bytes (of_nat (length item)) @ item) items)"

lemma enc_simps [simp]: "enc [] = []" "enc (item # items) = le_bytes (of_nat (length item)) @ item @ enc items"
  "enc (xs @ ys) = enc xs @ enc ys"
  by (simp_all add: enc_def)

text \<open>The buffer holds these segments.\<close>

definition rep :: "SerializedData \<Rightarrow> u8 list list \<Rightarrow> bool" where
  "rep d items \<longleftrightarrow> buffer_ok d \<and> sd_size d = of_nat (length (enc items)) \<and> length (enc items) \<le> 2 ^ 31 \<and>
     (\<exists>rest. sd_bytes d = enc items @ rest) \<and> (\<forall>item\<in>set items. 4 dvd length item)"

lemma unat_small: "n \<le> 2 ^ 31 \<Longrightarrow> unat (of_nat n :: u32) = n"
  by (rule of_nat_inverse [OF refl]) simp

lemma put_bytes_append: "put_bytes (length xs) ys (xs @ zs) = xs @ ys @ drop (length ys) zs"
  by (simp add: put_bytes_def)

lemma kept_prefix:
  assumes "take (length ys) zs = ys" and "ys = xs @ rest" and "length xs + n \<le> length zs"
  obtains new rest' where "zs = xs @ new @ rest'" and "length new = n"
proof -
  have "zs = ys @ drop (length ys) zs" using assms(1) by (metis append_take_drop_id)
  then obtain w where w: "zs = xs @ w" using assms(2) by simp
  with assms(3) show thesis by (intro that [of "take n w" "drop n w"]) simp_all
qed

text \<open>
  The segment got for a payload, filled with it, is a new last segment: the payload, and what the
  memory had behind it up to the next multiple of four.
\<close>

lemma ApplyForSegment_ok:
  assumes "rep d items" and "length (enc items) + 4 + padded (length payload) \<le> 2 ^ 31"
  shows "\<exists>d' item. SerializedDataApplyForSegment little (of_nat (length payload)) d = Some (Some (length (enc items) + 4), d') \<and>
    rep (fill_segment (length (enc items) + 4) payload d') (items @ [item]) \<and>
    length item = padded (length payload) \<and> take (length payload) item = payload"
proof -
  let ?L = "length (enc items)" and ?n = "length payload" and ?P = "padded (length payload)"
  obtain rest where d: "buffer_ok d" "sd_size d = of_nat ?L" "sd_bytes d = enc items @ rest" "\<forall>item\<in>set items. 4 dvd length item"
    using assms(1) by (auto simp: rep_def)
  have small: "unat (of_nat (?L + 4 + ?P) :: u32) = ?L + 4 + ?P" "unat (of_nat ?L :: u32) = ?L"
    using assms(2) by (auto intro: unat_small simp del: of_nat_add)
  obtain e where e: "SerializedDataEnlarge (of_nat (?L + 4 + ?P)) d = Some (True, e)" "buffer_ok e"
    "?L + 4 + ?P \<le> length (sd_bytes e)" "sd_size e = of_nat ?L" "take (length (sd_bytes d)) (sd_bytes e) = sd_bytes d"
    using Enlarge_ok [OF d(1), of "of_nat (?L + 4 + ?P)"] assms(2) d(2) unfolding small by auto
  obtain head body pad tail where bytes: "sd_bytes e = enc items @ head @ body @ pad @ tail" "length head = 4"
    "length body = ?n" "length pad = ?P - ?n"
  proof -
    obtain new tail where "sd_bytes e = enc items @ new @ tail" "length new = 4 + ?P"
      using kept_prefix [OF e(5) d(3)] e(3) by (metis add.assoc)
    with padded_ge [of ?n] show thesis
      by (intro that [of "take 4 new" "take ?n (drop 4 new)" "drop ?n (drop 4 new)" tail]) (simp_all del: drop_drop)
  qed
  define d' where "d' = e\<lparr>sd_bytes := enc items @ le_bytes (of_nat ?P) @ body @ pad @ tail, sd_size := of_nat (?L + 4 + ?P)\<rparr>"
  have "SerializedDataApplyForSegment little (of_nat ?n) d = Some (Some (?L + 4), d')"
    using e(1,4) d(2) small(2) bytes
    by (simp only: SerializedDataApplyForSegment_def Let_def align stored_is_little_endian d'_def SERIALIZED_DATA_ALIGNMENT_def)
      (simp add: put_bytes_append add.assoc)
  moreover have "rep (fill_segment (?L + 4) payload d') (items @ [payload @ pad])"
  proof -
    have "sd_bytes (fill_segment (?L + 4) payload d') = (enc items @ le_bytes (of_nat ?P)) @ payload @ pad @ tail"
      using put_bytes_append [of "enc items @ le_bytes (of_nat ?P)" payload "body @ pad @ tail"] bytes(3)
      by (simp add: fill_segment_def d'_def)
    moreover have "length (payload @ pad) = ?P" using bytes(4) padded_ge [of ?n] by simp
    moreover have "buffer_ok (fill_segment (?L + 4) payload d')"
      using e(2) bytes calculation by (simp add: buffer_ok_def) (simp add: fill_segment_def d'_def)
    moreover have "sd_size (fill_segment (?L + 4) payload d') = of_nat (?L + 4 + ?P)" by (simp add: fill_segment_def d'_def)
    ultimately show ?thesis using d(4) assms(2) unfolding rep_def by (simp add: add.assoc)
  qed
  ultimately show ?thesis using bytes(4) padded_ge [of ?n] by (intro exI [of _ d'] exI [of _ "payload @ pad"]) simp
qed

lemma Append_ok:
  assumes "rep a xs" and "rep b ys" and "length (enc xs) + length (enc ys) \<le> 2 ^ 31"
  shows "\<exists>d. SerializedDataAppend b a = Some (True, d) \<and> rep d (xs @ ys)"
proof -
  let ?X = "length (enc xs)" and ?Y = "length (enc ys)"
  obtain rest where a: "buffer_ok a" "sd_size a = of_nat ?X" "sd_bytes a = enc xs @ rest" "\<forall>item\<in>set xs. 4 dvd length item"
    using assms(1) by (auto simp: rep_def)
  obtain rest' where b: "sd_size b = of_nat ?Y" "sd_bytes b = enc ys @ rest'" "\<forall>item\<in>set ys. 4 dvd length item"
    using assms(2) by (auto simp: rep_def)
  have small: "unat (of_nat (?X + ?Y) :: u32) = ?X + ?Y" "unat (of_nat ?X :: u32) = ?X" "unat (of_nat ?Y :: u32) = ?Y"
    using assms(3) by (auto intro: unat_small simp del: of_nat_add)
  obtain e where e: "SerializedDataEnlarge (of_nat (?X + ?Y)) a = Some (True, e)" "buffer_ok e"
    "?X + ?Y \<le> length (sd_bytes e)" "sd_size e = of_nat ?X" "take (length (sd_bytes a)) (sd_bytes e) = sd_bytes a"
    using Enlarge_ok [OF a(1), of "of_nat (?X + ?Y)"] assms(3) a(2) unfolding small by auto
  obtain new tail where bytes: "sd_bytes e = enc xs @ new @ tail" "length new = ?Y"
    using kept_prefix [OF e(5) a(3)] e(3) by metis
  define d where "d = e\<lparr>sd_bytes := enc xs @ enc ys @ tail, sd_size := of_nat (?X + ?Y)\<rparr>"
  have "SerializedDataAppend b a = Some (True, d)"
    using e(1,4) a(2) b(1,2) small(2,3) bytes by (simp add: SerializedDataAppend_def d_def put_bytes_append)
  moreover have "rep d (xs @ ys)"
    using e(2) a(4) b(3) bytes assms(3) by (auto simp: rep_def buffer_ok_def d_def)
  ultimately show ?thesis by blast
qed

subsection \<open>Reading\<close>

lemma read_size_ok:
  assumes "rep d (pre @ item # post)"
  shows "read_size little (length (enc pre)) d = Some (of_nat (length item))"
proof -
  obtain rest where "sd_bytes d = enc pre @ le_bytes (of_nat (length item)) @ item @ enc post @ rest"
    using assms by (auto simp: rep_def)
  then have "take 4 (drop (length (enc pre)) (sd_bytes d)) = le_bytes (of_nat (length item))"
    "length (enc pre) + 4 \<le> length (sd_bytes d)" by simp_all
  then show ?thesis by (simp only: read_size_def Let_def read_is_little_endian length_le_bytes of_le_bytes_le_bytes) simp
qed

lemma skip_items_ok:
  assumes "rep d (pre @ mid @ post)"
  shows "skip_items little d (length mid) (length (enc pre)) = Some (Inr (length (enc (pre @ mid))))"
  using assms
proof (induction mid arbitrary: pre)
  case (Cons item mid)
  then have rep: "rep d (pre @ item # mid @ post)" "rep d ((pre @ [item]) @ mid @ post)" by simp_all
  have small: "length (enc (pre @ item # mid @ post)) \<le> 2 ^ 31" "4 dvd length item"
    "sd_size d = of_nat (length (enc (pre @ item # mid @ post)))" using rep(1) by (simp_all add: rep_def)
  then have n: "unat (of_nat (length item) :: u32) = length item"
    "unat (sd_size d) = length (enc (pre @ item # mid @ post))"
    by (simp add: unat_small, simp only: unat_small)
  have "(of_nat (length item) :: u32) AND SERIALIZED_DATA_ALIGNMENT_MASK = 0" using small(2) by (simp add: and_3)
  with Cons.IH [OF rep(2)] n show ?case by (simp add: read_size_ok [OF rep(1)] Let_def)
qed simp

lemma NextSeveralItemSize_ok:
  assumes "rep d (pre @ mid @ post)"
  shows "SerializedDataNextSeveralItemSize little d (of_nat (length (enc pre))) (of_nat (length mid)) = Some (of_nat (length (enc mid)))"
proof -
  have "length (enc (pre @ mid @ post)) \<le> 2 ^ 31" "\<forall>item\<in>set pre. 4 dvd length item" using assms by (auto simp: rep_def)
  moreover have "length mid \<le> length (enc mid)" by (induction mid) auto
  moreover have "(\<forall>item\<in>set pre. 4 dvd length item) \<Longrightarrow> 4 dvd length (enc pre)" by (induction pre) auto
  ultimately have "unat (of_nat (length (enc pre)) :: u32) = length (enc pre)" "unat (of_nat (length mid) :: u32) = length mid"
    "length (enc pre) mod 4 = 0" by (auto intro!: unat_small)
  then show ?thesis by (simp add: SerializedDataNextSeveralItemSize_def skip_items_ok [OF assms] and_3)
qed

subsection \<open>Messages\<close>

text \<open>A writer's loop: one segment per payload.\<close>

primrec build :: "bool \<Rightarrow> u8 list list \<Rightarrow> SerializedData \<Rightarrow> SerializedData option" where
  "build little [] d = Some d"
| "build little (payload # ps) d =
    (case SerializedDataApplyForSegment little (of_nat (length payload)) d of
       Some (Some pos, d) \<Rightarrow> build little ps (fill_segment pos payload d)
     | _ \<Rightarrow> None)"

text \<open>The bytes that the segments of these payloads take.\<close>

definition message_size :: "u8 list list \<Rightarrow> nat" where
  "message_size ps = sum_list (map (\<lambda>p. 4 + padded (length p)) ps)"

definition segment_of :: "u8 list \<Rightarrow> u8 list \<Rightarrow> bool" where
  "segment_of payload item \<longleftrightarrow> length item = padded (length payload) \<and> take (length payload) item = payload"

lemma enc_size: "list_all2 segment_of ps items \<Longrightarrow> length (enc items) = message_size ps"
  by (induction rule: list_all2_induct) (simp_all add: message_size_def segment_of_def)

lemma build_ok:
  assumes "rep d items" and "length (enc items) + message_size ps \<le> 2 ^ 31"
  shows "\<exists>d' new. build little ps d = Some d' \<and> rep d' (items @ new) \<and> list_all2 segment_of ps new"
  using assms
proof (induction ps arbitrary: d items)
  case (Cons payload ps)
  have "length (enc items) + 4 + padded (length payload) \<le> 2 ^ 31" using Cons.prems(2) by (simp add: message_size_def)
  from ApplyForSegment_ok [OF Cons.prems(1) this, of little] obtain e item where
    e: "SerializedDataApplyForSegment little (of_nat (length payload)) d = Some (Some (length (enc items) + 4), e)"
      "rep (fill_segment (length (enc items) + 4) payload e) (items @ [item])" "segment_of payload item"
    by (auto simp: segment_of_def)
  then have "length (enc (items @ [item])) + message_size ps \<le> 2 ^ 31"
    using Cons.prems(2) by (simp add: message_size_def segment_of_def)
  from Cons.IH [OF e(2) this] obtain d' new where "build little ps (fill_segment (length (enc items) + 4) payload e) = Some d'"
    "rep d' ((items @ [item]) @ new)" "list_all2 segment_of ps new" by blast
  with e show ?case by (auto intro: exI [of _ "item # new"])
qed auto

text \<open>What a reader gets from a buffer that holds these segments.\<close>

lemma payload_at:
  assumes "rep d items" and "list_all2 segment_of ps items" and "i < length ps"
  shows "take (length (ps ! i)) (drop (message_size (take i ps) + 4) (sd_bytes d)) = ps ! i"
proof -
  have len: "length items = length ps" using assms(2) by (simp add: list_all2_lengthD)
  then have items: "items = take i items @ items ! i # drop (Suc i) items" using assms(3) id_take_nth_drop by metis
  obtain rest where "sd_bytes d = enc (take i items @ items ! i # drop (Suc i) items) @ rest"
    using assms(1) items unfolding rep_def by metis
  moreover have "list_all2 segment_of (take i ps) (take i items)" using assms(2) by (rule list_all2_takeI)
  then have "length (enc (take i items)) = message_size (take i ps)" by (rule enc_size)
  moreover have seg: "segment_of (ps ! i) (items ! i)" using assms(2,3) by (simp add: list_all2_nthD)
  then have "length (ps ! i) \<le> length (items ! i)" using padded_ge by (simp add: segment_of_def)
  ultimately show ?thesis using seg by (simp add: segment_of_def)
qed

lemma items_at:
  assumes "rep d items" and "list_all2 segment_of ps items" and "i + n \<le> length ps"
  shows "SerializedDataNextSeveralItemSize little d (of_nat (message_size (take i ps))) (of_nat n) =
    Some (of_nat (message_size (take n (drop i ps))))"
proof -
  have len: "length items = length ps" using assms(2) by (simp add: list_all2_lengthD)
  have "items = take i items @ take n (drop i items) @ drop n (drop i items)" by (simp only: append_take_drop_id)
  with assms(1) have "rep d (take i items @ take n (drop i items) @ drop n (drop i items))" by metis
  note read = NextSeveralItemSize_ok [OF this, of little]
  have "list_all2 segment_of (take i ps) (take i items)" "list_all2 segment_of (take n (drop i ps)) (take n (drop i items))"
    using assms(2) by (auto intro: list_all2_takeI list_all2_dropI)
  moreover have "length (take n (drop i items)) = n" using len assms(3) by simp
  ultimately show ?thesis using read by (simp only: enc_size)
qed

text \<open>
  C17. Messages can be read on every machine.  Two parts of a message are built segment by segment
  in fresh buffers, on a machine of either byte order, and the second part is appended to the first.
  As long as the message has at most 2 GB and there is memory, this ends and succeeds, however often
  the buffers had to grow.  On a machine of either byte order every payload is found unchanged at
  the start of its segment, and from the start of each segment the size of any number of segments
  that follow is computed without a read outside of the memory.
\<close>

theorem serialized_data_roundtrip:
  assumes "\<forall>n. mm_ok memory n" and "message_size (ps @ qs) \<le> 2 ^ 31"
  shows "\<exists>start a b d. SerializedDataInit memory None 0 0 None = Some start \<and>
    build little ps start = Some a \<and> build little qs start = Some b \<and> SerializedDataAppend b a = Some (True, d) \<and>
    unat (sd_size d) = message_size (ps @ qs) \<and>
    (\<forall>i < length (ps @ qs). take (length ((ps @ qs) ! i)) (drop (message_size (take i (ps @ qs)) + 4) (sd_bytes d)) = (ps @ qs) ! i) \<and>
    (\<forall>i n. i + n \<le> length (ps @ qs) \<longrightarrow>
      SerializedDataNextSeveralItemSize little' d (of_nat (message_size (take i (ps @ qs)))) (of_nat n) =
        Some (of_nat (message_size (take n (drop i (ps @ qs))))))"
proof -
  obtain start where start: "SerializedDataInit memory None 0 0 None = Some start" "rep start []"
    using assms(1) by (simp add: SerializedDataInit_def rep_def buffer_ok_def)
  have bound: "message_size ps + message_size qs \<le> 2 ^ 31" using assms(2) by (simp add: message_size_def)
  obtain a xs where a: "build little ps start = Some a" "rep a xs" "list_all2 segment_of ps xs"
    using build_ok [OF start(2), of ps little] bound by auto
  obtain b ys where b: "build little qs start = Some b" "rep b ys" "list_all2 segment_of qs ys"
    using build_ok [OF start(2), of qs little] bound by auto
  have "length (enc xs) + length (enc ys) \<le> 2 ^ 31" using bound a(3) b(3) by (simp add: enc_size)
  from Append_ok [OF a(2) b(2) this] obtain d where d: "SerializedDataAppend b a = Some (True, d)" "rep d (xs @ ys)" by blast
  have all: "list_all2 segment_of (ps @ qs) (xs @ ys)" using a(3) b(3) by (rule list_all2_appendI)
  from d(2) have "sd_size d = of_nat (length (enc (xs @ ys)))" "length (enc (xs @ ys)) \<le> 2 ^ 31" by (simp_all only: rep_def)
  then have "unat (sd_size d) = message_size (ps @ qs)" by (simp only: unat_small enc_size [OF all])
  with start a b d payload_at [OF d(2) all] items_at [OF d(2) all, of _ _ little'] show ?thesis by blast
qed

text \<open>A big-endian writer and a little-endian reader.\<close>

theorem serialized_data_roundtrip_witness:
  "\<exists>start a b d. SerializedDataInit \<lparr>mm_ok = (\<lambda>_. True), mm_junk = (\<lambda>_. 7)\<rparr> None 0 0 None = Some start \<and>
    build False [[1, 2, 3], []] start = Some a \<and> build False [[4, 5, 6, 7, 8]] start = Some b \<and>
    SerializedDataAppend b a = Some (True, d) \<and> unat (sd_size d) = 24 \<and>
    take 5 (drop 16 (sd_bytes d)) = [4, 5, 6, 7, 8] \<and> SerializedDataNextSeveralItemSize True d 8 2 = Some 16"
proof -
  let ?m = "\<lparr>mm_ok = (\<lambda>_. True), mm_junk = (\<lambda>_. 7)\<rparr>" and ?ps = "[[1, 2, 3], []] @ [[4, 5, 6, 7, 8]] :: u8 list list"
  have bound: "\<forall>n. mm_ok ?m n" "message_size ?ps \<le> 2 ^ 31" by (simp_all add: message_size_def padded_def)
  obtain start a b d where d: "SerializedDataInit ?m None 0 0 None = Some start"
    "build False [[1, 2, 3], []] start = Some a" "build False [[4, 5, 6, 7, 8]] start = Some b" "SerializedDataAppend b a = Some (True, d)"
    and bytes: "unat (sd_size d) = message_size ?ps"
    and payloads: "\<forall>i < length ?ps. take (length (?ps ! i)) (drop (message_size (take i ?ps) + 4) (sd_bytes d)) = ?ps ! i"
    and sizes: "\<forall>i n. i + n \<le> length ?ps \<longrightarrow> SerializedDataNextSeveralItemSize True d (of_nat (message_size (take i ?ps))) (of_nat n) =
        Some (of_nat (message_size (take n (drop i ?ps))))"
    using serialized_data_roundtrip [OF bound, of False True] by (elim exE conjE) (rule that)
  have "take 5 (drop 16 (sd_bytes d)) = [4, 5, 6, 7, 8]"
    using payloads [rule_format, of 2] by (simp add: message_size_def padded_def numeral_2_eq_2) (simp add: eval_nat_numeral)
  moreover have "SerializedDataNextSeveralItemSize True d 8 2 = Some 16"
    using sizes [rule_format, of 1 2] by (simp add: message_size_def padded_def)
  moreover have "unat (sd_size d) = 24" using bytes by (simp add: message_size_def padded_def)
  ultimately show ?thesis using d by (intro exI conjI)
qed

text \<open>
  Outside of these bounds: a wish for 2 GB and more makes the doubling loop pass through zero and
  never end, and a size within three of the maximum wraps to an empty segment.
\<close>

lemma aligned_size_wraps: "aligned_size 0xFFFFFFFD = 0"
  by (simp add: aligned_size_def SERIALIZED_DATA_ALIGNMENT_MASK_def)

lemma double_capacity_from_zero: "double_capacity c wanted = Some c' \<Longrightarrow> c \<noteq> 0 \<or> wanted = 0"
  by (rule double_capacity.raw_induct [where P = "\<lambda>c w y. c \<noteq> 0 \<or> w = 0"]) (auto split: if_splits simp: word_gt_0)

lemma double_capacity_endless: "wanted \<noteq> 0 \<Longrightarrow> double_capacity 0 wanted = None"
  using double_capacity_from_zero [of 0 wanted] by (cases "double_capacity 0 wanted") auto

end
