(* ===== verification/Foreign_Server.thy ===== *)
theory Foreign_Server
  imports Pg_Table Shmem_Cache Falcon_Monad "HOL-Library.AList"
begin

text \<open>
  The list of servers of the cluster (\<open>falcon/metadb/foreign_server.c\<close>): the catalog table
  \<open>falcon_foreign_server\<close>, its shared-memory cache, and the connections that a backend keeps to
  other servers.

  \<^item> The table is a parameter (\<open>Pg_Table\<close>) with the server id as its key.  The cache and the
    connection manager are association lists; \<open>hash_order\<close> is the order in which
    \<open>hash_seq_search\<close> visits the cache.
  \<^item> libpq is a parameter that acts on the rest of the world.  A connection is a number; a null
    pointer is \<open>None\<close>.
  \<^item> The locks of the cache serialise its readers and writers.  A reader that finds the cache
    invalid reloads it until it is valid, which is after one round when nobody invalidates it in
    between.
\<close>

subsection \<open>Data\<close>

definition FALCON_CN_SERVER_ID :: int where
  "FALCON_CN_SERVER_ID = 0"

definition FOREIGN_SERVER_NAME_MAX_LENGTH :: nat where
  "FOREIGN_SERVER_NAME_MAX_LENGTH = 128"

definition HOST_MAX_LENGTH :: nat where
  "HOST_MAX_LENGTH = 16"

definition FOREIGN_SERVER_NUM_MAX :: nat where
  "FOREIGN_SERVER_NUM_MAX = 128"

record FormData_falcon_foreign_server =
  server_id :: int
  server_name :: string
  server_host :: string
  server_port :: int
  is_local :: bool
  user_name :: string

datatype FalconRemoteTransactionState = FALCON_REMOTE_TRANSACTION_NONE | FALCON_REMOTE_TRANSACTION_BEGIN_FOR_WRITE
  | FALCON_REMOTE_TRANSACTION_BEGIN_FOR_SNAPSHOT | FALCON_REMOTE_TRANSACTION_PREPARE

record ForeignServerConnection =
  conn :: "nat option"
  transactionState :: FalconRemoteTransactionState

datatype ConnStatusType = CONNECTION_OK | CONNECTION_BAD | CONNECTION_STARTED

datatype PGresult = PGRES_COMMAND_OK | PGRES_TUPLES_OK "string list list" | PGRES_PIPELINE_SYNC | PGRES_FATAL_ERROR

record 'w pq_env =
  pq_connect :: "string \<Rightarrow> int \<Rightarrow> string \<Rightarrow> 'w \<Rightarrow> nat option \<times> 'w"
  pq_status :: "'w \<Rightarrow> nat \<Rightarrow> ConnStatusType"
  pq_poll :: "nat \<Rightarrow> 'w \<Rightarrow> 'w"
  pq_finish :: "nat \<Rightarrow> 'w \<Rightarrow> 'w"
  pq_hostaddr :: "'w \<Rightarrow> nat \<Rightarrow> string"
  pq_port :: "'w \<Rightarrow> nat \<Rightarrow> int"
  pq_pipeline :: "nat \<Rightarrow> 'w \<Rightarrow> bool \<times> 'w"
  pq_send :: "nat \<Rightarrow> string \<Rightarrow> 'w \<Rightarrow> bool \<times> 'w"
  pq_sync :: "nat \<Rightarrow> 'w \<Rightarrow> bool \<times> 'w"
  pq_result :: "nat \<Rightarrow> 'w \<Rightarrow> PGresult option \<times> 'w"
  hash_order :: "(int \<times> FormData_falcon_foreign_server) list \<Rightarrow> (int \<times> FormData_falcon_foreign_server) list"

record ('db, 'w) server_state =
  server_db :: 'db
  ForeignServerShmemCache :: "(int \<times> FormData_falcon_foreign_server) list"
  ForeignServerShmemCacheVersion :: int
  ForeignServerShmemCacheInvalid :: bool
  ForeignServerConnectionManager :: "(int \<times> ForeignServerConnection) list"
  ForeignServerLocalConnectionManagerVersion :: int
  LocalServerId :: int
  LocalServerName :: string
  pq_world :: 'w

subsection \<open>The table\<close>

definition InsertForeignServerByRel :: "('db, int, FormData_falcon_foreign_server) pg_ops \<Rightarrow> int \<Rightarrow> string \<Rightarrow> string \<Rightarrow> int \<Rightarrow>
    bool \<Rightarrow> string \<Rightarrow> 'db \<Rightarrow> 'db falcon" where
  "InsertForeignServerByRel ops serverId serverName host port isLocal userName db =
    map_sum id (pg_cci ops) (pg_raise (pg_insert ops db serverId
      \<lparr>server_id = serverId, server_name = serverName, server_host = host, server_port = port, is_local = isLocal,
       user_name = userName\<rparr>))"

definition DeleteForeignServerByRel :: "('db, int, FormData_falcon_foreign_server) pg_ops \<Rightarrow> int \<Rightarrow> 'db \<Rightarrow> 'db falcon" where
  "DeleteForeignServerByRel ops serverId db =
    (case pg_vis ops db serverId of
       None \<Rightarrow> Inl ARGUMENT_ERROR
     | Some _ \<Rightarrow> map_sum id (pg_cci ops) (pg_raise (pg_delete ops db serverId)))"

definition UpdateForeignServerByRel :: "('db, int, FormData_falcon_foreign_server) pg_ops \<Rightarrow> int \<Rightarrow> string \<Rightarrow> int \<Rightarrow> 'db \<Rightarrow> 'db falcon" where
  "UpdateForeignServerByRel ops serverId host port db =
    (case pg_vis ops db serverId of
       None \<Rightarrow> Inl ARGUMENT_ERROR
     | Some row \<Rightarrow> map_sum id (pg_cci ops) (pg_raise (pg_update ops db serverId (row\<lparr>server_host := host, server_port := port\<rparr>))))"

subsection \<open>The cache\<close>

definition InvalidateForeignServerShmemCache :: "('db, 'w) server_state \<Rightarrow> ('db, 'w) server_state" where
  "InvalidateForeignServerShmemCache s = s\<lparr>ForeignServerShmemCacheInvalid := True\<rparr>"

definition InvalidateForeignServerShmemCacheCallback :: "nat \<Rightarrow> nat \<Rightarrow> ('db, 'w) server_state \<Rightarrow> ('db, 'w) server_state" where
  "InvalidateForeignServerShmemCacheCallback ForeignServerRelationId relationId s =
    (if relationId = 0 \<or> relationId = ForeignServerRelationId then InvalidateForeignServerShmemCache s else s)"

text \<open>The state of a new backend on a server that was just started.\<close>

definition ForeignServerShmemInit :: "'db \<Rightarrow> 'w \<Rightarrow> ('db, 'w) server_state" where
  "ForeignServerShmemInit db w = \<lparr>server_db = db, ForeignServerShmemCache = [], ForeignServerShmemCacheVersion = 0,
     ForeignServerShmemCacheInvalid = True, ForeignServerConnectionManager = [],
     ForeignServerLocalConnectionManagerVersion = 0, LocalServerId = - 1, LocalServerName = [], pq_world = w\<rparr>"

definition text_to_cstring_buffer :: "string \<Rightarrow> nat \<Rightarrow> string" where
  "text_to_cstring_buffer t n = take (n - 1) t"

definition cache_entry :: "int \<Rightarrow> FormData_falcon_foreign_server \<Rightarrow> FormData_falcon_foreign_server" where
  "cache_entry serverId row = \<lparr>server_id = serverId,
     server_name = text_to_cstring_buffer (server_name row) FOREIGN_SERVER_NAME_MAX_LENGTH,
     server_host = text_to_cstring_buffer (server_host row) HOST_MAX_LENGTH, server_port = server_port row,
     is_local = is_local row, user_name = text_to_cstring_buffer (user_name row) FOREIGN_SERVER_NAME_MAX_LENGTH\<rparr>"

text \<open>The scan of the table; the flag tells that it has too many rows.\<close>

fun load_servers :: "(int \<times> FormData_falcon_foreign_server) list \<Rightarrow> (int \<times> FormData_falcon_foreign_server) list \<Rightarrow>
    bool \<times> (int \<times> FormData_falcon_foreign_server) list" where
  "load_servers [] cache = (False, cache)"
| "load_servers ((serverId, row) # rows) cache =
    (if length cache \<ge> FOREIGN_SERVER_NUM_MAX then (True, cache)
     else load_servers rows (AList.update serverId (cache_entry serverId row) cache))"

text \<open>After an error the cache stays invalid, so that what is in it is never read.\<close>

definition ReloadForeignServerShmemCache :: "('db, int, FormData_falcon_foreign_server) pg_ops \<Rightarrow> ('db, 'w) server_state \<Rightarrow>
    ('db, 'w) server_state falcon" where
  "ReloadForeignServerShmemCache ops s =
    (if \<not> ForeignServerShmemCacheInvalid s then Inr s
     else
       let (exceedMaxNumOfForeignServer, cache) = load_servers (pg_rows ops (server_db s)) [] in
       if exceedMaxNumOfForeignServer then Inl PROGRAM_ERROR
       else Inr (s\<lparr>ForeignServerShmemCache := cache, ForeignServerShmemCacheInvalid := False,
         ForeignServerShmemCacheVersion := ForeignServerShmemCacheVersion s + 1\<rparr>))"

definition on_table :: "('db \<Rightarrow> 'db falcon) \<Rightarrow> ('db, 'w) server_state \<Rightarrow> ('db, 'w) server_state falcon" where
  "on_table f s = map_sum id (\<lambda>db. InvalidateForeignServerShmemCache (s\<lparr>server_db := db\<rparr>)) (f (server_db s))"

definition falcon_insert_foreign_server :: "('db, int, FormData_falcon_foreign_server) pg_ops \<Rightarrow> int \<Rightarrow> string \<Rightarrow> string \<Rightarrow> int \<Rightarrow>
    bool \<Rightarrow> string \<Rightarrow> ('db, 'w) server_state \<Rightarrow> ('db, 'w) server_state falcon" where
  "falcon_insert_foreign_server ops serverId serverName host port isLocal userName =
    on_table (InsertForeignServerByRel ops serverId serverName host port isLocal userName)"

definition falcon_delete_foreign_server :: "('db, int, FormData_falcon_foreign_server) pg_ops \<Rightarrow> int \<Rightarrow> ('db, 'w) server_state \<Rightarrow>
    ('db, 'w) server_state falcon" where
  "falcon_delete_foreign_server ops serverId = on_table (DeleteForeignServerByRel ops serverId)"

definition falcon_update_foreign_server :: "('db, int, FormData_falcon_foreign_server) pg_ops \<Rightarrow> int \<Rightarrow> string \<Rightarrow> int \<Rightarrow>
    ('db, 'w) server_state \<Rightarrow> ('db, 'w) server_state falcon" where
  "falcon_update_foreign_server ops serverId host port = on_table (UpdateForeignServerByRel ops serverId host port)"

definition falcon_reload_foreign_server_cache :: "('db, int, FormData_falcon_foreign_server) pg_ops \<Rightarrow> ('db, 'w) server_state \<Rightarrow>
    ('db, 'w) server_state falcon" where
  "falcon_reload_foreign_server_cache ops s = ReloadForeignServerShmemCache ops (InvalidateForeignServerShmemCache s)"

subsection \<open>Readers of the cache\<close>

definition GetForeignServerCount :: "('db, int, FormData_falcon_foreign_server) pg_ops \<Rightarrow> (('db, 'w) server_state, nat) proc" where
  "GetForeignServerCount ops =
    bindM (of_falcon (ReloadForeignServerShmemCache ops)) (\<lambda>_. gets (\<lambda>s. length (ForeignServerShmemCache s)))"

text \<open>A null pointer is copied from when a server is not in the cache: no result.\<close>

definition GetForeignServerInfo :: "('db, int, FormData_falcon_foreign_server) pg_ops \<Rightarrow> int list \<Rightarrow>
    (('db, 'w) server_state, FormData_falcon_foreign_server list) proc" where
  "GetForeignServerInfo ops foreignServerIdList =
    bindM (of_falcon (ReloadForeignServerShmemCache ops)) (\<lambda>_.
    mapM (\<lambda>serverId s. map_option (\<lambda>foreignServerInfo. (Inr foreignServerInfo, s)) (map_of (ForeignServerShmemCache s) serverId))
      foreignServerIdList)"

definition GetForeignServerConnectionInfo :: "('db, int, FormData_falcon_foreign_server) pg_ops \<Rightarrow> int list \<Rightarrow>
    (('db, 'w) server_state, (string \<times> int) list) proc" where
  "GetForeignServerConnectionInfo ops foreignServerIdList =
    bindM (of_falcon (ReloadForeignServerShmemCache ops)) (\<lambda>_.
    mapM (\<lambda>serverId. bindM (gets (\<lambda>s. map_of (ForeignServerShmemCache s) serverId)) (\<lambda>found.
        case found of
          None \<Rightarrow> raise PROGRAM_ERROR
        | Some foreignServerInfo \<Rightarrow> return (server_host foreignServerInfo, server_port foreignServerInfo)))
      foreignServerIdList)"

definition GetAllForeignServerId :: "'w pq_env \<Rightarrow> ('db, int, FormData_falcon_foreign_server) pg_ops \<Rightarrow> bool \<Rightarrow> bool \<Rightarrow>
    (('db, 'w) server_state, int list) proc" where
  "GetAllForeignServerId env ops exceptSelf exceptCn =
    bindM (of_falcon (ReloadForeignServerShmemCache ops)) (\<lambda>_.
    gets (\<lambda>s. map (server_id \<circ> snd) (filter (\<lambda>(_, foreignServerInfo).
      \<not> (exceptSelf \<and> is_local foreignServerInfo) \<and> \<not> (exceptCn \<and> server_id foreignServerInfo = FALCON_CN_SERVER_ID))
      (hash_order env (ForeignServerShmemCache s)))))"

subsection \<open>Connections\<close>

definition PQfinish :: "'w pq_env \<Rightarrow> nat option \<Rightarrow> 'w \<Rightarrow> 'w" where
  "PQfinish env c w = (case c of None \<Rightarrow> w | Some c \<Rightarrow> pq_finish env c w)"

definition PQstatus :: "'w pq_env \<Rightarrow> 'w \<Rightarrow> nat option \<Rightarrow> ConnStatusType" where
  "PQstatus env w c = (case c of None \<Rightarrow> CONNECTION_BAD | Some c \<Rightarrow> pq_status env w c)"

definition CleanupForeignServerConnections :: "'w pq_env \<Rightarrow> ('db, 'w) server_state \<Rightarrow> ('db, 'w) server_state" where
  "CleanupForeignServerConnections env s = s\<lparr>ForeignServerConnectionManager := [],
     pq_world := foldl (\<lambda>w (_, foreignServerConnection). PQfinish env (conn foreignServerConnection) w) (pq_world s)
       (ForeignServerConnectionManager s)\<rparr>"

definition connection_current :: "'w pq_env \<Rightarrow> 'w \<Rightarrow> (int \<times> FormData_falcon_foreign_server) list \<Rightarrow> int \<times> ForeignServerConnection \<Rightarrow> bool" where
  "connection_current env w cache = (\<lambda>(serverId, foreignServerConnection).
    case (map_of cache serverId, conn foreignServerConnection) of
      (Some foreignServerInfo, Some c) \<Rightarrow>
        pq_hostaddr env w c = server_host foreignServerInfo \<and> pq_port env w c = server_port foreignServerInfo
    | _ \<Rightarrow> False)"

fun renew_connections :: "'w pq_env \<Rightarrow> (int \<times> FormData_falcon_foreign_server) list \<Rightarrow> (int \<times> ForeignServerConnection) list \<Rightarrow>
    'w \<Rightarrow> (int \<times> ForeignServerConnection) list \<times> 'w" where
  "renew_connections env cache [] w = ([], w)"
| "renew_connections env cache (entry # manager) w =
    (if connection_current env w cache entry
     then let (manager, w) = renew_connections env cache manager w in (entry # manager, w)
     else renew_connections env cache manager (PQfinish env (conn (snd entry)) w))"

definition RenewForeignServerLocalCache :: "'w pq_env \<Rightarrow> ('db, 'w) server_state \<Rightarrow> ('db, 'w) server_state" where
  "RenewForeignServerLocalCache env s =
    (let (manager, w) = renew_connections env (ForeignServerShmemCache s) (ForeignServerConnectionManager s) (pq_world s);
         s = s\<lparr>ForeignServerConnectionManager := manager, pq_world := w\<rparr>;
         s = (if LocalServerId s = - 1 then
                case find (\<lambda>(_, foreignServerInfo). is_local foreignServerInfo) (hash_order env (ForeignServerShmemCache s)) of
                  None \<Rightarrow> s
                | Some (_, foreignServerInfo) \<Rightarrow>
                    s\<lparr>LocalServerId := server_id foreignServerInfo, LocalServerName := server_name foreignServerInfo\<rparr>
              else s) in
     s\<lparr>ForeignServerLocalConnectionManagerVersion := ForeignServerShmemCacheVersion s\<rparr>)"

definition GetLocalServerId :: "'w pq_env \<Rightarrow> ('db, int, FormData_falcon_foreign_server) pg_ops \<Rightarrow> (('db, 'w) server_state, int) proc" where
  "GetLocalServerId env ops =
    bindM (gets LocalServerId) (\<lambda>localId.
    if localId \<noteq> - 1 then return localId
    else
      bindM (of_falcon (ReloadForeignServerShmemCache ops)) (\<lambda>_.
      bindM (modify (RenewForeignServerLocalCache env)) (\<lambda>_. gets LocalServerId)))"

definition GetLocalServerName :: "'w pq_env \<Rightarrow> ('db, int, FormData_falcon_foreign_server) pg_ops \<Rightarrow> (('db, 'w) server_state, string) proc" where
  "GetLocalServerName env ops = bindM (GetLocalServerId env ops) (\<lambda>_. gets LocalServerName)"

text \<open>\<open>PGconnPrepare\<close>: the results of the call of \<open>falcon_prepare_commands\<close>, one by one.\<close>

definition PGconnPrepare :: "'w pq_env \<Rightarrow> nat \<Rightarrow> 'w \<Rightarrow> bool \<times> 'w" where
  "PGconnPrepare env c w =
    (let (ok, w) = pq_pipeline env c w in
     if \<not> ok then (False, w)
     else let (ok, w) = pq_send env c ''select falcon_prepare_commands();'' w in
     if \<not> ok then (False, w)
     else let (ok, w) = pq_sync env c w in
     if \<not> ok then (False, w)
     else let (res, w) = pq_result env c w in
     if res \<noteq> Some (PGRES_TUPLES_OK [[''0'']]) then (False, w)
     else let (res, w) = pq_result env c w in
     if res \<noteq> None then (False, w)
     else let (res, w) = pq_result env c w in
     if res \<noteq> Some PGRES_PIPELINE_SYNC then (False, w)
     else let (res, w) = pq_result env c w in
     if res \<noteq> None then (False, w)
     else (True, w))"

text \<open>The wait for a started connection; it may be polled without end.\<close>

partial_function (option) wait_connection :: "'w pq_env \<Rightarrow> nat option \<Rightarrow> 'w \<Rightarrow> (bool \<times> 'w) option" where
  "wait_connection env c w =
    (if PQstatus env w c = CONNECTION_OK then Some (True, w)
     else if PQstatus env w c = CONNECTION_BAD then Some (False, w)
     else wait_connection env c (pq_poll env (the c) w))"

definition set_connection :: "int \<Rightarrow> ForeignServerConnection \<Rightarrow> ('db, 'w) server_state \<Rightarrow> ('db, 'w) server_state" where
  "set_connection serverId foreignServerConnection s =
    s\<lparr>ForeignServerConnectionManager := AList.update serverId foreignServerConnection (ForeignServerConnectionManager s)\<rparr>"

text \<open>
  The first loop: the entry of a server, with a connection that exists or is started now (the
  flag).  A new entry has no transaction state yet; it is read only after a connection was made.
\<close>

definition start_connection :: "'w pq_env \<Rightarrow> int \<Rightarrow> (('db, 'w) server_state, bool) proc" where
  "start_connection env serverId =
    bindM (gets (\<lambda>s. case map_of (ForeignServerConnectionManager s) serverId of
        None \<Rightarrow> \<lparr>conn = None, transactionState = FALCON_REMOTE_TRANSACTION_NONE\<rparr> | Some e \<Rightarrow> e)) (\<lambda>entry.
    bindM (modify (set_connection serverId entry)) (\<lambda>_.
    bindM (gets (\<lambda>s. conn entry \<noteq> None \<and> PQstatus env (pq_world s) (conn entry) = CONNECTION_BAD)) (\<lambda>bad.
    bindM (if bad then modify (\<lambda>s. set_connection serverId (entry\<lparr>conn := None\<rparr>) (s\<lparr>pq_world := PQfinish env (conn entry) (pq_world s)\<rparr>))
           else return ()) (\<lambda>_.
    if conn entry \<noteq> None \<and> \<not> bad then return False
    else
      bindM (gets (\<lambda>s. map_of (ForeignServerShmemCache s) serverId)) (\<lambda>found.
      case found of
        None \<Rightarrow> raise PROGRAM_ERROR
      | Some info \<Rightarrow>
          bindM (modify (\<lambda>s.
            let (c, w) = pq_connect env (server_host info) (server_port info) (user_name info) (pq_world s) in
            set_connection serverId \<lparr>conn = c, transactionState = FALCON_REMOTE_TRANSACTION_NONE\<rparr> (s\<lparr>pq_world := w\<rparr>))) (\<lambda>_.
          return True))))))"

text \<open>The second loop: a started connection is waited for and prepared; the result tells whether it can be used.\<close>

definition finish_connection :: "'w pq_env \<Rightarrow> int \<times> bool \<Rightarrow> (('db, 'w) server_state, bool) proc" where
  "finish_connection env = (\<lambda>(serverId, newStartedConn) s.
    if \<not> newStartedConn then Some (Inr True, s)
    else
      let entry = the (map_of (ForeignServerConnectionManager s) serverId) in
      map_option (\<lambda>(connected, w).
        let (validConnection, w) = (if connected then PGconnPrepare env (the (conn entry)) w else (False, w)) in
        if validConnection then (Inr True, s\<lparr>pq_world := w\<rparr>)
        else (Inr False, set_connection serverId (entry\<lparr>conn := None\<rparr>) (s\<lparr>pq_world := PQfinish env (conn entry) w\<rparr>)))
      (wait_connection env (conn entry) (pq_world s)))"

definition GetForeignServerConnection :: "'w pq_env \<Rightarrow> ('db, int, FormData_falcon_foreign_server) pg_ops \<Rightarrow> bool \<Rightarrow> int list \<Rightarrow>
    (('db, 'w) server_state, int list) proc" where
  "GetForeignServerConnection env ops FalconIsInAbortProgress foreignServerIdList =
    bindM (of_falcon (ReloadForeignServerShmemCache ops)) (\<lambda>_.
    bindM (modify (\<lambda>s. if ForeignServerLocalConnectionManagerVersion s < ForeignServerShmemCacheVersion s
                       then RenewForeignServerLocalCache env s else s)) (\<lambda>_.
    bindM (mapM (start_connection env) foreignServerIdList) (\<lambda>newStartedConn.
    bindM (mapM (finish_connection env) (zip foreignServerIdList newStartedConn)) (\<lambda>valid.
    if \<not> list_all id valid \<and> \<not> FalconIsInAbortProgress then raise PROGRAM_ERROR else return foreignServerIdList))))"

subsection \<open>The cache follows the table\<close>

lemma load_servers_map:
  "load_servers rows cache = (False, cache') \<Longrightarrow> map_of cache' = foldl (\<lambda>m (k, r). m(k \<mapsto> cache_entry k r)) (map_of cache) rows"
  by (induction rows cache rule: load_servers.induct) (auto simp: update_conv' split: if_splits)

interpretation server_cache: shmem_cache "ReloadForeignServerShmemCache ops" InvalidateForeignServerShmemCache
  ForeignServerShmemCacheInvalid "\<lambda>s. map_of (ForeignServerShmemCache s)"
  "\<lambda>s. foldl (\<lambda>m (k, r). m(k \<mapsto> cache_entry k r)) Map.empty (pg_rows ops (server_db s))" for ops
  by unfold_locales
    (auto simp: ReloadForeignServerShmemCache_def InvalidateForeignServerShmemCache_def load_servers_map split: if_splits prod.splits)

lemma foldl_rows:
  "distinct (map fst rows) \<Longrightarrow>
    foldl (\<lambda>m (k, r). m(k \<mapsto> cache_entry k r)) m rows = m ++ (\<lambda>k. map_option (cache_entry k) (map_of rows k))"
proof (induction rows arbitrary: m)
  case (Cons p rows)
  obtain k r where p: "p = (k, r)" by (cases p)
  have new: "map_of rows k = None" using Cons.prems by (simp add: p map_of_eq_None_iff)
  have "(m(k \<mapsto> cache_entry k r) ++ (\<lambda>k. map_option (cache_entry k) (map_of rows k))) x =
      (m ++ (\<lambda>k. map_option (cache_entry k) (map_of (p # rows) k))) x" for x
    using new by (cases "x = k") (simp_all add: p map_add_def split: option.split)
  then have "m(k \<mapsto> cache_entry k r) ++ (\<lambda>k. map_option (cache_entry k) (map_of rows k)) =
      m ++ (\<lambda>k. map_option (cache_entry k) (map_of (p # rows) k))" by (rule ext)
  with Cons show ?case by (simp add: p fun_upd_def)
qed (simp add: fun_eq_iff map_add_def)

text \<open>What a reader finds in the cache of the current table.\<close>

lemma current_cache:
  assumes "pg_ok ops"
  shows "foldl (\<lambda>m (k, r). m(k \<mapsto> cache_entry k r)) Map.empty (pg_rows ops db) = (\<lambda>k. map_option (cache_entry k) (pg_vis ops db k))"
  using foldl_rows [of "pg_rows ops db" Map.empty] pg_rowsD(2,3) [OF assms, of db] by simp

subsection \<open>Connections\<close>

text \<open>
  libpq as documented: a new connection is none of the open ones and goes to the given address;
  no call changes the address of another open connection; only \<open>PQfinish\<close> ends a connection.
\<close>

definition address :: "'w pq_env \<Rightarrow> 'w \<Rightarrow> nat \<Rightarrow> string \<times> int" where
  "address env w c = (pq_hostaddr env w c, pq_port env w c)"

definition undisturbed :: "'w pq_env \<Rightarrow> ('w \<Rightarrow> nat set) \<Rightarrow> nat set \<Rightarrow> 'w \<Rightarrow> 'w \<Rightarrow> bool" where
  "undisturbed env opened cs w w' \<longleftrightarrow> cs \<subseteq> opened w' \<and> (\<forall>c\<in>cs. address env w' c = address env w c)"

definition pq_ok :: "'w pq_env \<Rightarrow> ('w \<Rightarrow> nat set) \<Rightarrow> bool" where
  "pq_ok env opened \<longleftrightarrow>
    (\<forall>h p u w. undisturbed env opened (opened w) w (snd (pq_connect env h p u w))) \<and>
    (\<forall>h p u w c. fst (pq_connect env h p u w) = Some c \<longrightarrow> c \<notin> opened w \<and> c \<in> opened (snd (pq_connect env h p u w)) \<and>
       address env (snd (pq_connect env h p u w)) c = (h, p)) \<and>
    (\<forall>c w. undisturbed env opened (opened w - {c}) w (pq_finish env c w)) \<and>
    (\<forall>c w. undisturbed env opened (opened w) w (pq_poll env c w)) \<and>
    (\<forall>c w. undisturbed env opened (opened w) w (snd (pq_pipeline env c w))) \<and>
    (\<forall>c q w. undisturbed env opened (opened w) w (snd (pq_send env c q w))) \<and>
    (\<forall>c w. undisturbed env opened (opened w) w (snd (pq_sync env c w))) \<and>
    (\<forall>c w. undisturbed env opened (opened w) w (snd (pq_result env c w)))"

lemma undisturbed_refl: "cs \<subseteq> opened w \<Longrightarrow> undisturbed env opened cs w w"
  by (simp add: undisturbed_def)

lemma undisturbed_trans:
  "undisturbed env opened cs w w' \<Longrightarrow> (cs \<subseteq> opened w' \<Longrightarrow> undisturbed env opened (opened w') w' w'') \<Longrightarrow> undisturbed env opened cs w w''"
  by (auto simp: undisturbed_def)

lemma PGconnPrepare_ok:
  assumes "pq_ok env opened"
  shows "undisturbed env opened (opened w) w (snd (PGconnPrepare env c w))"
proof -
  define P where "P = undisturbed env opened (opened w) w"
  have "undisturbed env opened (opened w0) w0 (snd (pq_pipeline env c w0))" "undisturbed env opened (opened w0) w0 (snd (pq_send env c q w0))"
    "undisturbed env opened (opened w0) w0 (snd (pq_sync env c w0))" "undisturbed env opened (opened w0) w0 (snd (pq_result env c w0))"
    for w0 q using assms by (simp_all add: pq_ok_def)
  then have step: "P w0 \<Longrightarrow> P (snd (pq_pipeline env c w0))" "P w0 \<Longrightarrow> P (snd (pq_send env c q w0))"
    "P w0 \<Longrightarrow> P (snd (pq_sync env c w0))" "P w0 \<Longrightarrow> P (snd (pq_result env c w0))" for w0 q
    unfolding P_def by (blast intro: undisturbed_trans)+
  have "P w" by (simp add: P_def undisturbed_refl)
  then have "P (snd (PGconnPrepare env c w))" unfolding PGconnPrepare_def Let_def split_def by (simp add: step)
  then show ?thesis by (simp only: P_def)
qed

lemma wait_connection_ok:
  assumes "pq_ok env opened" and "wait_connection env c w = Some (b, w')"
  shows "undisturbed env opened (opened w) w w' \<and> (b \<longrightarrow> c \<noteq> None)"
proof -
  have poll: "undisturbed env opened (opened w0) w0 (pq_poll env c0 w0)" for c0 w0 using assms(1) by (simp add: pq_ok_def)
  let ?P = "\<lambda>e c w r. e = env \<longrightarrow> undisturbed env opened (opened w) w (snd r) \<and> (fst r \<longrightarrow> c \<noteq> None)"
  have "?P env c w (b, w')"
  proof (rule wait_connection.raw_induct [where P = ?P, OF _ assms(2)])
    fix f :: "_ \<Rightarrow> _ \<Rightarrow> _ \<Rightarrow> _" and e c w r
    assume hyp: "\<And>e c w r. f e c w = Some r \<Longrightarrow> ?P e c w r"
      and res: "(if PQstatus e w c = CONNECTION_OK then Some (True, w) else if PQstatus e w c = CONNECTION_BAD then Some (False, w)
        else f e c (pq_poll e (the c) w)) = Some r"
    show "?P e c w r"
    proof (cases "PQstatus e w c = CONNECTION_OK \<or> PQstatus e w c = CONNECTION_BAD")
      case True
      with res show ?thesis by (cases "PQstatus e w c = CONNECTION_OK") (auto simp: PQstatus_def undisturbed_refl split: option.splits)
    next
      case False
      with res have "f e c (pq_poll e (the c) w) = Some r" by simp
      from hyp [OF this] show ?thesis using undisturbed_trans [OF poll] by blast
    qed
  qed
  then show ?thesis by simp
qed

text \<open>
  The connection manager of a backend: every connection is open and belongs to one server, and once
  the backend has seen the current cache it goes to the address in the cache.
\<close>

definition conns_ok :: "'w pq_env \<Rightarrow> ('w \<Rightarrow> nat set) \<Rightarrow> (int \<times> FormData_falcon_foreign_server) list \<Rightarrow> bool \<Rightarrow>
    (int \<times> ForeignServerConnection) list \<Rightarrow> 'w \<Rightarrow> bool" where
  "conns_ok env opened cache seen manager w \<longleftrightarrow> distinct (map fst manager) \<and>
    (\<forall>k e c. map_of manager k = Some e \<and> conn e = Some c \<longrightarrow> c \<in> opened w \<and>
       (seen \<longrightarrow> connection_current env w cache (k, e)) \<and>
       (\<forall>k' e'. map_of manager k' = Some e' \<and> conn e' = Some c \<longrightarrow> k' = k))"

lemma conns_okD:
  assumes "conns_ok env opened cache seen manager w" and "map_of manager k = Some e" and "conn e = Some c"
  shows "c \<in> opened w" and "seen \<Longrightarrow> connection_current env w cache (k, e)"
    and "map_of manager k' = Some e' \<Longrightarrow> conn e' = Some c \<Longrightarrow> k' = k"
  using assms by (auto simp: conns_ok_def)

lemma connection_current_cong: "conn e = Some c \<Longrightarrow> address env w' c = address env w c \<Longrightarrow>
    connection_current env w' cache (k, e) = connection_current env w cache (k, e)"
  by (simp add: connection_current_def address_def split: option.split)

text \<open>A change of the world that leaves the connections of the manager alone.\<close>

lemma conns_ok_world:
  assumes "conns_ok env opened cache seen manager w" and "undisturbed env opened cs w w'"
    and "\<And>k e c. map_of manager k = Some e \<Longrightarrow> conn e = Some c \<Longrightarrow> c \<in> cs"
  shows "conns_ok env opened cache seen manager w'"
  using assms connection_current_cong [of _ _ env w' w cache]
  unfolding conns_ok_def undisturbed_def by (metis subsetD)

lemma conns_ok_undisturbed:
  "conns_ok env opened cache seen manager w \<Longrightarrow> undisturbed env opened (opened w) w w' \<Longrightarrow> conns_ok env opened cache seen manager w'"
  by (rule conns_ok_world) (auto dest: conns_okD(1))

lemma conns_ok_drop:
  assumes "conns_ok env opened cache seen manager w"
  shows "conns_ok env opened cache seen (AList.update k (e\<lparr>conn := None\<rparr>) manager) w"
  using assms by (auto simp: conns_ok_def update_conv' distinct_update split: if_splits)

lemma conns_ok_finish:
  assumes "pq_ok env opened" and "conns_ok env opened cache seen manager w"
    and "\<And>k' e' c'. map_of manager k' = Some e' \<Longrightarrow> conn e' = Some c' \<Longrightarrow> c \<noteq> Some c'"
  shows "conns_ok env opened cache seen manager (PQfinish env c w)"
proof (cases c)
  case (Some d)
  have "undisturbed env opened (opened w - {d}) w (pq_finish env d w)" using assms(1) by (simp add: pq_ok_def)
  then show ?thesis
    using assms(3) conns_okD(1) [OF assms(2)] unfolding Some PQfinish_def option.case
    by (intro conns_ok_world [OF assms(2)]) auto
qed (use assms(2) in \<open>simp add: PQfinish_def\<close>)

text \<open>An entry loses its connection, which is closed.\<close>

lemma conns_ok_close:
  assumes "pq_ok env opened" and "conns_ok env opened cache seen manager w" and "map_of manager k = Some e"
  shows "conns_ok env opened cache seen (AList.update k (e\<lparr>conn := None\<rparr>) manager) (PQfinish env (conn e) w)"
proof (rule conns_ok_finish [OF assms(1) conns_ok_drop [OF assms(2)]])
  fix k' e' c' assume "map_of (AList.update k (e\<lparr>conn := None\<rparr>) manager) k' = Some e'" "conn e' = Some c'"
  then have "map_of manager k' = Some e'" "k' \<noteq> k" by (auto simp: update_conv' split: if_splits)
  with conns_okD(3) [OF assms(2,3)] \<open>conn e' = Some c'\<close> show "conn e \<noteq> Some c'" by metis
qed

text \<open>An entry gets a new connection to the address in the cache.\<close>

lemma conns_ok_connect:
  assumes "pq_ok env opened" and "conns_ok env opened cache seen manager w" and "map_of cache k = Some info"
    and "pq_connect env (server_host info) (server_port info) user w = (c, w')"
  shows "conns_ok env opened cache seen (AList.update k \<lparr>conn = c, transactionState = st\<rparr> manager) w'"
proof -
  have w': "undisturbed env opened (opened w) w w'" and new: "c = Some d \<Longrightarrow> d \<notin> opened w \<and> d \<in> opened w' \<and>
      address env w' d = (server_host info, server_port info)" for d
    using assms(1,4) unfolding pq_ok_def by (metis snd_conv, metis fst_conv snd_conv)
  have old: "conns_ok env opened cache seen manager w'" using assms(2) w' by (rule conns_ok_undisturbed)
  have here: "connection_current env w' cache (k, \<lparr>conn = Some d, transactionState = st\<rparr>)" if "c = Some d" for d
    using new [OF that] assms(3) by (simp add: connection_current_def address_def)
  have other: "conn e' \<noteq> Some d" if "map_of manager k' = Some e'" "c = Some d" for k' e' d
    using conns_okD(1) [OF assms(2) that(1)] new [OF that(2)] by blast
  show ?thesis
    using old here new unfolding conns_ok_def
    by (auto simp: update_conv' distinct_update simp del: map_of_eq_Some_iff split: if_splits dest: other)
qed

lemma conns_ok_remove:
  assumes "conns_ok env opened cache seen (xs @ (k, e) # ys) w"
  shows "conns_ok env opened cache seen (xs @ ys) w" and "map_of (xs @ ys) k' = Some e' \<Longrightarrow> conn e' = Some c \<Longrightarrow> conn e \<noteq> Some c"
proof -
  have d: "distinct (map fst (xs @ (k, e) # ys))" using assms by (simp add: conns_ok_def)
  have sub: "map_of (xs @ (k, e) # ys) k' = Some e'" "k' \<noteq> k" if "map_of (xs @ ys) k' = Some e'" for k' e'
  proof -
    have mem: "(k', e') \<in> set (xs @ ys)" using that by (rule map_of_SomeD)
    then show "map_of (xs @ (k, e) # ys) k' = Some e'" by (intro map_of_is_SomeI [OF d]) auto
    from mem d show "k' \<noteq> k" by force
  qed
  show "conns_ok env opened cache seen (xs @ ys) w"
    unfolding conns_ok_def
  proof (intro conjI allI impI; (elim conjE)?)
    show "distinct (map fst (xs @ ys))" using d by simp
    fix k' e' c assume e': "map_of (xs @ ys) k' = Some e'" "conn e' = Some c"
    note found = conns_okD [OF assms sub(1) [OF e'(1)] e'(2)]
    show "c \<in> opened w" by (rule found(1))
    show "connection_current env w cache (k', e')" if seen using that by (rule found(2))
    show "k'' = k'" if "map_of (xs @ ys) k'' = Some e''" "conn e'' = Some c" for k'' e''
      using sub(1) [OF that(1)] that(2) by (rule found(3))
  qed
  have here: "map_of (xs @ (k, e) # ys) k = Some e" by (rule map_of_is_SomeI [OF d]) simp
  show "conn e \<noteq> Some c" if "map_of (xs @ ys) k' = Some e'" "conn e' = Some c"
    using conns_okD(3) [OF assms here _ sub(1) [OF that(1)] that(2)] sub(2) [OF that(1)] by blast
qed

lemma PQfinish_address:
  assumes "pq_ok env opened" and "d \<in> opened w" and "c \<noteq> Some d"
  shows "address env (PQfinish env c w) d = address env w d"
proof (cases c)
  case (Some c')
  have "undisturbed env opened (opened w - {c'}) w (pq_finish env c' w)" using assms(1) by (simp add: pq_ok_def)
  with assms(2,3) Some show ?thesis by (simp add: undisturbed_def PQfinish_def)
qed (simp add: PQfinish_def)

lemma current_after_finish:
  assumes "pq_ok env opened" and "conns_ok env opened cache seen manager w" and "(k, e) \<in> set manager" and "connection_current env w cache (k, e)"
    and "\<And>k' e' c'. map_of manager k' = Some e' \<Longrightarrow> conn e' = Some c' \<Longrightarrow> c \<noteq> Some c'"
  shows "connection_current env (PQfinish env c w) cache (k, e)"
proof -
  obtain d where d: "conn e = Some d" using assms(4) by (auto simp: connection_current_def split: option.splits)
  have "distinct (map fst manager)" using assms(2) unfolding conns_ok_def by blast
  then have e: "map_of manager k = Some e" using assms(3) by (rule map_of_is_SomeI)
  have "address env (PQfinish env c w) d = address env w d"
    by (rule PQfinish_address [OF assms(1) conns_okD(1) [OF assms(2) e d] assms(5) [OF e d]])
  then show ?thesis using assms(4) connection_current_cong [OF d] by metis
qed

lemma renew_connections_ok:
  assumes "pq_ok env opened" and "conns_ok env opened cache seen (kept @ manager) w"
    and "list_all (connection_current env w cache) kept" and "renew_connections env cache manager w = (manager', w')"
  shows "conns_ok env opened cache True (kept @ manager') w'"
  using assms(2-)
proof (induction manager arbitrary: kept w manager')
  case Nil
  then have "connection_current env w cache (k, e)" if "map_of kept k = Some e" for k e
    using map_of_SomeD [OF that] by (auto simp: list_all_iff)
  with Nil show ?case unfolding conns_ok_def by simp
next
  case (Cons entry manager)
  obtain k e where entry: "entry = (k, e)" by (cases entry)
  show ?case
  proof (cases "connection_current env w cache entry")
    case True
    with Cons.prems(3) obtain m where m: "renew_connections env cache manager w = (m, w')" "manager' = entry # m"
      by (auto split: prod.splits)
    with Cons.IH [OF _ _ m(1), of "kept @ [entry]"] Cons.prems True show ?thesis by simp
  next
    case False
    note rest = conns_ok_remove [OF Cons.prems(1) [unfolded entry]]
    have "list_all (connection_current env (PQfinish env (conn e) w) cache) kept"
      using current_after_finish [OF assms(1) rest(1), where c = "conn e"] Cons.prems(2) rest(2) by (auto simp: list_all_iff)
    moreover have "conns_ok env opened cache seen (kept @ manager) (PQfinish env (conn e) w)"
      by (rule conns_ok_finish [OF assms(1) rest(1)]) (rule rest(2))
    ultimately show ?thesis using Cons.IH [of kept] Cons.prems(3) False by (simp add: entry)
  qed
qed

text \<open>The calls below change only the connection manager and the world.\<close>

definition only_connections :: "('db, 'w) server_state \<Rightarrow> ('db, 'w) server_state \<Rightarrow> bool" where
  "only_connections s t \<longleftrightarrow> t = s\<lparr>ForeignServerConnectionManager := ForeignServerConnectionManager t, pq_world := pq_world t\<rparr>"

definition ready :: "'w pq_env \<Rightarrow> ('w \<Rightarrow> nat set) \<Rightarrow> ('db, 'w) server_state \<Rightarrow> bool" where
  "ready env opened s \<longleftrightarrow> conns_ok env opened (ForeignServerShmemCache s) True (ForeignServerConnectionManager s) (pq_world s)"

lemma only_connections_refl [simp]: "only_connections s s"
  by (simp add: only_connections_def)

lemma only_connections_trans: "only_connections s t \<Longrightarrow> only_connections t u \<Longrightarrow> only_connections s u"
  by (cases s; cases t; cases u) (simp add: only_connections_def)

lemma only_connectionsD:
  assumes "only_connections s t"
  shows "server_db t = server_db s" "ForeignServerShmemCache t = ForeignServerShmemCache s"
    "ForeignServerShmemCacheVersion t = ForeignServerShmemCacheVersion s"
    "ForeignServerShmemCacheInvalid t = ForeignServerShmemCacheInvalid s"
    "ForeignServerLocalConnectionManagerVersion t = ForeignServerLocalConnectionManagerVersion s"
  using assms by (cases s; cases t; simp add: only_connections_def)+

lemma conns_ok_cong:
  assumes "conns_ok env opened cache seen m w" and "map_of m' = map_of m" and "distinct (map fst m')"
  shows "conns_ok env opened cache seen m' w"
  using assms by (simp add: conns_ok_def)

text \<open>The entry of a server, made when it is missing.\<close>

lemma ready_entry:
  assumes "ready env opened s"
    and "entry = (case map_of (ForeignServerConnectionManager s) serverId of
      None \<Rightarrow> \<lparr>conn = None, transactionState = FALCON_REMOTE_TRANSACTION_NONE\<rparr> | Some e \<Rightarrow> e)"
  shows "ready env opened (set_connection serverId entry s)"
proof (cases "map_of (ForeignServerConnectionManager s) serverId")
  case None
  with assms conns_ok_drop [where e = entry and k = serverId] show ?thesis by (simp add: ready_def set_connection_def)
next
  case (Some e)
  have "distinct (map fst (ForeignServerConnectionManager s))" using assms(1) unfolding ready_def conns_ok_def by blast
  with assms Some show ?thesis
    unfolding ready_def set_connection_def
    by (simp add: conns_ok_cong [OF assms(1) [unfolded ready_def]] update_conv' distinct_update fun_upd_idem)
qed

lemma start_connection_ok:
  assumes "pq_ok env opened" and "ready env opened s" and "start_connection env serverId s = Some (r, t)"
  shows "ready env opened t \<and> only_connections s t \<and>
    (\<forall>k. k \<noteq> serverId \<longrightarrow> map_of (ForeignServerConnectionManager t) k = map_of (ForeignServerConnectionManager s) k) \<and>
    (\<forall>started. r = Inr started \<longrightarrow> (\<exists>e. map_of (ForeignServerConnectionManager t) serverId = Some e \<and> (started \<or> conn e \<noteq> None)))"
proof -
  define entry where "entry = (case map_of (ForeignServerConnectionManager s) serverId of
      None \<Rightarrow> \<lparr>conn = None, transactionState = FALCON_REMOTE_TRANSACTION_NONE\<rparr> | Some e \<Rightarrow> e)"
  define s1 where "s1 = set_connection serverId entry s"
  define s2 where "s2 = (if conn entry \<noteq> None \<and> PQstatus env (pq_world s1) (conn entry) = CONNECTION_BAD
    then set_connection serverId (entry\<lparr>conn := None\<rparr>) (s1\<lparr>pq_world := PQfinish env (conn entry) (pq_world s1)\<rparr>) else s1)"
  have here: "map_of (ForeignServerConnectionManager s1) serverId = Some entry" by (simp add: s1_def set_connection_def update_conv')
  have ready1: "ready env opened s1" unfolding s1_def using assms(2) entry_def by (rule ready_entry)
  have ready2: "ready env opened s2"
    using ready1 conns_ok_close [OF assms(1) ready1 [unfolded ready_def] here] by (simp add: s2_def ready_def set_connection_def)
  have frame: "only_connections s s2" "k \<noteq> serverId \<Longrightarrow> map_of (ForeignServerConnectionManager s2) k = map_of (ForeignServerConnectionManager s) k"
    "\<exists>e. map_of (ForeignServerConnectionManager s2) serverId = Some e" for k
    by (simp_all add: s2_def s1_def set_connection_def only_connections_def update_conv')
  show ?thesis
  proof (cases "conn entry \<noteq> None \<and> PQstatus env (pq_world s1) (conn entry) \<noteq> CONNECTION_BAD")
    case True
    with assms(3) have "r = Inr False" "t = s1" by (simp_all add: start_connection_def entry_def [symmetric] s1_def return_def)
    with True ready1 here frame show ?thesis by (simp add: s2_def)
  next
    case False
    then have run: "start_connection env serverId s = (case map_of (ForeignServerShmemCache s2) serverId of
        None \<Rightarrow> Some (Inl PROGRAM_ERROR, s2)
      | Some info \<Rightarrow> let (c, w) = pq_connect env (server_host info) (server_port info) (user_name info) (pq_world s2) in
          Some (Inr True, set_connection serverId \<lparr>conn = c, transactionState = FALCON_REMOTE_TRANSACTION_NONE\<rparr> (s2\<lparr>pq_world := w\<rparr>)))"
      by (auto simp: start_connection_def entry_def [symmetric] s1_def [symmetric] s2_def return_def raise_def bindM_def modify_def gets_def
          Let_def split: option.split prod.split)
    show ?thesis
    proof (cases "map_of (ForeignServerShmemCache s2) serverId")
      case None
      with run assms(3) ready2 frame show ?thesis by simp
    next
      case (Some info)
      obtain c w where c: "pq_connect env (server_host info) (server_port info) (user_name info) (pq_world s2) = (c, w)" by (rule prod.exhaust)
      with run Some assms(3) have t: "r = Inr True"
        "t = set_connection serverId \<lparr>conn = c, transactionState = FALCON_REMOTE_TRANSACTION_NONE\<rparr> (s2\<lparr>pq_world := w\<rparr>)" by simp_all
      have "ready env opened t"
        using conns_ok_connect [OF assms(1) ready2 [unfolded ready_def] Some c] by (simp add: t ready_def set_connection_def)
      moreover have "only_connections s2 t" by (simp add: t set_connection_def only_connections_def)
      ultimately show ?thesis using frame only_connections_trans by (auto simp: t set_connection_def update_conv')
    qed
  qed
qed

lemma finish_connection_ok:
  assumes "pq_ok env opened" and "ready env opened s" and "finish_connection env (serverId, started) s = Some (r, t)"
    and "map_of (ForeignServerConnectionManager s) serverId = Some e" and "started \<or> conn e \<noteq> None"
  shows "ready env opened t \<and> only_connections s t \<and>
    (\<forall>k. k \<noteq> serverId \<longrightarrow> map_of (ForeignServerConnectionManager t) k = map_of (ForeignServerConnectionManager s) k) \<and>
    (\<exists>valid. r = Inr valid \<and> (valid \<longrightarrow> (\<exists>e. map_of (ForeignServerConnectionManager t) serverId = Some e \<and> conn e \<noteq> None)))"
proof (cases started)
  case False
  with assms(2-5) show ?thesis by (auto simp: finish_connection_def)
next
  case True
  have "map_option (\<lambda>(connected, w). let (validConnection, w) = (if connected then PGconnPrepare env (the (conn e)) w else (False, w)) in
        if validConnection then (Inr True, s\<lparr>pq_world := w\<rparr>)
        else (Inr False, set_connection serverId (e\<lparr>conn := None\<rparr>) (s\<lparr>pq_world := PQfinish env (conn e) w\<rparr>)))
      (wait_connection env (conn e) (pq_world s)) = Some (r, t)"
    using assms(3,4) True by (simp add: finish_connection_def)
  then obtain connected w where w: "wait_connection env (conn e) (pq_world s) = Some (connected, w)"
    and rt: "(let (validConnection, w) = (if connected then PGconnPrepare env (the (conn e)) w else (False, w)) in
        if validConnection then (Inr True, s\<lparr>pq_world := w\<rparr>)
        else (Inr False, set_connection serverId (e\<lparr>conn := None\<rparr>) (s\<lparr>pq_world := PQfinish env (conn e) w\<rparr>))) = (r, t)"
    by auto
  note waited = wait_connection_ok [OF assms(1) w]
  obtain valid w' where w': "(if connected then PGconnPrepare env (the (conn e)) w else (False, w)) = (valid, w')" by (rule prod.exhaust)
  have "undisturbed env opened (opened w) w w'"
    using w' PGconnPrepare_ok [OF assms(1), of w "the (conn e)"] by (auto simp: undisturbed_refl split: if_splits dest: arg_cong [where f = snd])
  with waited have world: "undisturbed env opened (opened (pq_world s)) (pq_world s) w'" by (blast intro: undisturbed_trans)
  have conns: "conns_ok env opened (ForeignServerShmemCache s) True (ForeignServerConnectionManager s) w'"
    using assms(2) world unfolding ready_def by (rule conns_ok_undisturbed)
  have connected: "valid \<Longrightarrow> conn e \<noteq> None" using waited w' by (auto split: if_splits)
  show ?thesis
  proof (cases valid)
    case True
    with rt w' have "r = Inr True" "t = s\<lparr>pq_world := w'\<rparr>" by simp_all
    with conns connected True assms(4) show ?thesis by (auto simp: ready_def only_connections_def)
  next
    case False
    with rt w' have t: "r = Inr False" "t = set_connection serverId (e\<lparr>conn := None\<rparr>) (s\<lparr>pq_world := PQfinish env (conn e) w'\<rparr>)" by simp_all
    with conns_ok_close [OF assms(1) conns assms(4)] show ?thesis
      by (auto simp: ready_def set_connection_def only_connections_def update_conv')
  qed
qed

lemma start_connections_ok:
  assumes "pq_ok env opened" and "ready env opened s" and "mapM (start_connection env) ids s = Some (r, t)" and "distinct ids"
  shows "ready env opened t \<and> only_connections s t \<and>
    (\<forall>k. k \<notin> set ids \<longrightarrow> map_of (ForeignServerConnectionManager t) k = map_of (ForeignServerConnectionManager s) k) \<and>
    (\<forall>flags. r = Inr flags \<longrightarrow> list_all2 (\<lambda>k started. \<exists>e. map_of (ForeignServerConnectionManager t) k = Some e \<and>
      (started \<or> conn e \<noteq> None)) ids flags)"
  using assms(2-4)
proof (induction ids arbitrary: s r)
  case Nil
  then show ?case by (auto simp: return_def)
next
  case (Cons k ids)
  from Cons.prems(2) have "bindM (start_connection env k) (\<lambda>y. bindM (mapM (start_connection env) ids) (\<lambda>ys. return (y # ys))) s = Some (r, t)" by simp
  then show ?case
  proof (cases rule: bindM_E)
    case (raised e)
    from start_connection_ok [OF assms(1) Cons.prems(1) raised(1)] raised(2) show ?thesis by auto
  next
    case (continued y u)
    note first = start_connection_ok [OF assms(1) Cons.prems(1) continued(1)]
    then have u: "ready env opened u" and k: "k \<notin> set ids" "distinct ids" using Cons.prems(3) by simp_all
    from continued(2) show ?thesis
    proof (cases rule: bindM_E)
      case (raised e)
      from Cons.IH [OF u raised(1) k(2)] first raised(2) k(1) show ?thesis by (auto intro: only_connections_trans)
    next
      case more: (continued ys v)
      then have "v = t" "r = Inr (y # ys)" by (simp_all add: return_def)
      with Cons.IH [OF u _ k(2)] more(1) first k(1) show ?thesis by (auto intro: only_connections_trans)
    qed
  qed
qed

lemma finish_connections_ok:
  assumes "pq_ok env opened" and "ready env opened s" and "mapM (finish_connection env) (zip ids flags) s = Some (r, t)" and "distinct ids"
    and "list_all2 (\<lambda>k started. \<exists>e. map_of (ForeignServerConnectionManager s) k = Some e \<and> (started \<or> conn e \<noteq> None)) ids flags"
  shows "ready env opened t \<and> only_connections s t \<and>
    (\<forall>k. k \<notin> set ids \<longrightarrow> map_of (ForeignServerConnectionManager t) k = map_of (ForeignServerConnectionManager s) k) \<and>
    (\<exists>valid. r = Inr valid \<and> (list_all id valid \<longrightarrow>
      (\<forall>k\<in>set ids. \<exists>e. map_of (ForeignServerConnectionManager t) k = Some e \<and> conn e \<noteq> None)))"
  using assms(2-)
proof (induction ids arbitrary: s r flags)
  case Nil
  then show ?case by (auto simp: return_def)
next
  case (Cons k ids)
  then obtain started flags' where flags: "flags = started # flags'" by (cases flags) auto
  with Cons.prems(4) obtain e where e: "map_of (ForeignServerConnectionManager s) k = Some e" "started \<or> conn e \<noteq> None" by auto
  from Cons.prems(2) have "bindM (finish_connection env (k, started)) (\<lambda>y. bindM (mapM (finish_connection env) (zip ids flags')) (\<lambda>ys. return (y # ys))) s = Some (r, t)"
    by (simp add: flags)
  then show ?case
  proof (cases rule: bindM_E)
    case (raised x)
    from finish_connection_ok [OF assms(1) Cons.prems(1) raised(1) e] show ?thesis by simp
  next
    case (continued y u)
    note first = finish_connection_ok [OF assms(1) Cons.prems(1) continued(1) e]
    have k: "k \<notin> set ids" "distinct ids" using Cons.prems(3) by simp_all
    have u: "ready env opened u" using first by simp
    have rest: "list_all2 (\<lambda>k started. \<exists>e. map_of (ForeignServerConnectionManager u) k = Some e \<and> (started \<or> conn e \<noteq> None)) ids flags'"
    proof (rule list.rel_mono_strong)
      show "list_all2 (\<lambda>k started. \<exists>e. map_of (ForeignServerConnectionManager s) k = Some e \<and> (started \<or> conn e \<noteq> None)) ids flags'"
        using Cons.prems(4) by (simp add: flags)
    qed (use first k(1) in metis)
    note IH = Cons.IH [OF u _ k(2) rest]
    from continued(2) show ?thesis
    proof (cases rule: bindM_E)
      case (raised x)
      from IH [OF raised(1)] show ?thesis by simp
    next
      case more: (continued ys v)
      then have "v = t" "r = Inr (y # ys)" by (simp_all add: return_def)
      with IH more(1) first k(1) show ?thesis by (auto intro: only_connections_trans)
    qed
  qed
qed

subsection \<open>Runs\<close>

definition server_ok :: "'w pq_env \<Rightarrow> ('w \<Rightarrow> nat set) \<Rightarrow> ('db, int, FormData_falcon_foreign_server) pg_ops \<Rightarrow> ('db, 'w) server_state \<Rightarrow> bool" where
  "server_ok env opened ops s \<longleftrightarrow> server_cache.coherent ops s \<and>
    ForeignServerLocalConnectionManagerVersion s \<le> ForeignServerShmemCacheVersion s \<and>
    conns_ok env opened (ForeignServerShmemCache s) (ForeignServerLocalConnectionManagerVersion s = ForeignServerShmemCacheVersion s)
      (ForeignServerConnectionManager s) (pq_world s)"

lemma server_ok_init: "server_ok env opened ops (ForeignServerShmemInit db w)"
  by (simp add: server_ok_def ForeignServerShmemInit_def server_cache.coherent_def conns_ok_def)

lemma server_ok_table: "server_ok env opened ops s \<Longrightarrow> on_table f s = Inr t \<Longrightarrow> server_ok env opened ops t"
  by (cases "f (server_db s)") (auto simp: server_ok_def on_table_def InvalidateForeignServerShmemCache_def server_cache.coherent_def)

lemma conns_ok_weaken: "conns_ok env opened cache seen m w \<Longrightarrow> conns_ok env opened cache' False m w"
  by (auto simp: conns_ok_def)

lemma server_ok_reload:
  assumes "server_ok env opened ops s" and "ReloadForeignServerShmemCache ops s = Inr t"
  shows "server_ok env opened ops t"
proof -
  have coh: "server_cache.coherent ops t" using assms server_cache.coherent_reload by (auto simp: server_ok_def)
  with assms conns_ok_weaken [of env opened _ _ "ForeignServerConnectionManager s" "pq_world s"] show ?thesis
    by (auto simp: server_ok_def ReloadForeignServerShmemCache_def split: if_splits prod.splits)
qed

lemma server_ok_renew:
  assumes "pq_ok env opened" and "server_ok env opened ops s"
  shows "server_ok env opened ops (RenewForeignServerLocalCache env s)" and "ready env opened (RenewForeignServerLocalCache env s)"
    and "ForeignServerShmemCacheInvalid (RenewForeignServerLocalCache env s) = ForeignServerShmemCacheInvalid s"
    and "server_db (RenewForeignServerLocalCache env s) = server_db s"
    and "ForeignServerLocalConnectionManagerVersion (RenewForeignServerLocalCache env s) =
      ForeignServerShmemCacheVersion (RenewForeignServerLocalCache env s)"
proof -
  obtain m w where mw: "renew_connections env (ForeignServerShmemCache s) (ForeignServerConnectionManager s) (pq_world s) = (m, w)"
    by (rule prod.exhaust)
  have "conns_ok env opened (ForeignServerShmemCache s) True ([] @ m) w"
    by (rule renew_connections_ok [OF assms(1) _ _ mw]) (use assms(2) in \<open>auto simp: server_ok_def\<close>)
  moreover have "\<exists>i n. RenewForeignServerLocalCache env s = s\<lparr>ForeignServerConnectionManager := m, pq_world := w,
      LocalServerId := i, LocalServerName := n, ForeignServerLocalConnectionManagerVersion := ForeignServerShmemCacheVersion s\<rparr>"
    by (rule exI [of _ "LocalServerId (RenewForeignServerLocalCache env s)"], rule exI [of _ "LocalServerName (RenewForeignServerLocalCache env s)"])
      (rule server_state.equality, simp_all add: RenewForeignServerLocalCache_def mw Let_def split: option.split)
  then obtain i n where "RenewForeignServerLocalCache env s = s\<lparr>ForeignServerConnectionManager := m, pq_world := w,
      LocalServerId := i, LocalServerName := n, ForeignServerLocalConnectionManagerVersion := ForeignServerShmemCacheVersion s\<rparr>" by blast
  ultimately show "server_ok env opened ops (RenewForeignServerLocalCache env s)" "ready env opened (RenewForeignServerLocalCache env s)"
    "ForeignServerShmemCacheInvalid (RenewForeignServerLocalCache env s) = ForeignServerShmemCacheInvalid s"
    "server_db (RenewForeignServerLocalCache env s) = server_db s"
    "ForeignServerLocalConnectionManagerVersion (RenewForeignServerLocalCache env s) = ForeignServerShmemCacheVersion (RenewForeignServerLocalCache env s)"
    using assms(2) by (simp_all add: server_ok_def ready_def server_cache.coherent_def)
qed

lemma server_ok_connections:
  assumes "only_connections s t" and "ready env opened t" and "server_ok env opened ops s"
    and "ForeignServerLocalConnectionManagerVersion s = ForeignServerShmemCacheVersion s"
  shows "server_ok env opened ops t"
  using assms only_connectionsD [OF assms(1)] by (simp add: server_ok_def ready_def server_cache.coherent_def)

lemma GetForeignServerConnection_ok:
  assumes "pq_ok env opened" and "server_ok env opened ops s" and "distinct ids"
    and "GetForeignServerConnection env ops aborting ids s = Some (r, t)"
  shows "server_ok env opened ops t \<and> server_db t = server_db s \<and>
    (\<forall>conns. r = Inr conns \<and> \<not> aborting \<longrightarrow> conns = ids \<and> \<not> ForeignServerShmemCacheInvalid t \<and> ready env opened t \<and>
      (\<forall>k\<in>set ids. \<exists>e. map_of (ForeignServerConnectionManager t) k = Some e \<and> conn e \<noteq> None))"
  using assms(4) unfolding GetForeignServerConnection_def
proof (cases rule: bindM_E)
  case (raised e)
  then have "t = s" by (auto simp: of_falcon_def split: sum.splits)
  with raised assms(2) show ?thesis by simp
next
  case (continued x u)
  then have reload: "ReloadForeignServerShmemCache ops s = Inr u" by (auto simp: of_falcon_def split: sum.splits)
  have u: "server_ok env opened ops u" using assms(2) reload by (rule server_ok_reload)
  have fresh: "\<not> ForeignServerShmemCacheInvalid u" "server_db u = server_db s"
    using server_cache.reload_fresh(1) reload assms(2) by (auto simp: server_ok_def ReloadForeignServerShmemCache_def split: if_splits prod.splits)
  define v where "v = (if ForeignServerLocalConnectionManagerVersion u < ForeignServerShmemCacheVersion u then RenewForeignServerLocalCache env u else u)"
  have v: "server_ok env opened ops v" "ready env opened v" "\<not> ForeignServerShmemCacheInvalid v" "server_db v = server_db s"
    "ForeignServerLocalConnectionManagerVersion v = ForeignServerShmemCacheVersion v"
    using server_ok_renew [OF assms(1) u] u fresh by (auto simp: v_def server_ok_def ready_def)
  from continued(2) have "bindM (mapM (start_connection env) ids) (\<lambda>flags. bindM (mapM (finish_connection env) (zip ids flags))
      (\<lambda>valid. if \<not> list_all id valid \<and> \<not> aborting then raise PROGRAM_ERROR else return ids)) v = Some (r, t)"
    by (simp add: v_def)
  then show ?thesis
  proof (cases rule: bindM_E)
    case (raised e)
    from start_connections_ok [OF assms(1) v(2) raised(1) assms(3)] v server_ok_connections raised(2) show ?thesis
      by (auto dest: only_connectionsD)
  next
    case started: (continued flags w)
    note first = start_connections_ok [OF assms(1) v(2) started(1) assms(3)]
    then have w: "server_ok env opened ops w" "ready env opened w" using v server_ok_connections by auto
    from started(2) show ?thesis
    proof (cases rule: bindM_E)
      case (raised e)
      from finish_connections_ok [OF assms(1) w(2) raised(1) assms(3)] first show ?thesis by auto
    next
      case finished: (continued valid y)
      have second: "ready env opened y \<and> only_connections w y \<and> (list_all id valid \<longrightarrow>
          (\<forall>k\<in>set ids. \<exists>e. map_of (ForeignServerConnectionManager y) k = Some e \<and> conn e \<noteq> None))"
        using finish_connections_ok [OF assms(1) w(2) finished(1) assms(3)] first by auto
      have frame: "only_connections v y" using first second by (auto intro: only_connections_trans)
      have "server_ok env opened ops y" using server_ok_connections [OF frame _ v(1,5)] second by simp
      moreover have "t = y" "r = (if \<not> list_all id valid \<and> \<not> aborting then Inl PROGRAM_ERROR else Inr ids)"
        using finished(2) by (auto simp: raise_def return_def split: if_splits)
      ultimately show ?thesis using second frame v(3,4) by (auto dest: only_connectionsD)
    qed
  qed
qed

text \<open>
  What happens to the server list of a backend: changes of the table by this and by other backends,
  which invalidate the cache, reloads, requests for connections whatever their outcome, and the
  close of all connections.
\<close>

inductive server_run :: "'w pq_env \<Rightarrow> ('db, int, FormData_falcon_foreign_server) pg_ops \<Rightarrow> ('db, 'w) server_state \<Rightarrow> bool" for env ops where
  init: "server_run env ops (ForeignServerShmemInit db w)"
| insert: "server_run env ops s \<Longrightarrow> falcon_insert_foreign_server ops i n h p l u s = Inr t \<Longrightarrow> server_run env ops t"
| delete: "server_run env ops s \<Longrightarrow> falcon_delete_foreign_server ops i s = Inr t \<Longrightarrow> server_run env ops t"
| update: "server_run env ops s \<Longrightarrow> falcon_update_foreign_server ops i h p s = Inr t \<Longrightarrow> server_run env ops t"
| elsewhere: "server_run env ops s \<Longrightarrow> server_run env ops (InvalidateForeignServerShmemCacheCallback r r (s\<lparr>server_db := db\<rparr>))"
| reload: "server_run env ops s \<Longrightarrow> falcon_reload_foreign_server_cache ops s = Inr t \<Longrightarrow> server_run env ops t"
| local_id: "server_run env ops s \<Longrightarrow> GetLocalServerId env ops s = Some (r, t) \<Longrightarrow> server_run env ops t"
| connect: "server_run env ops s \<Longrightarrow> distinct ids \<Longrightarrow> GetForeignServerConnection env ops aborting ids s = Some (res, t) \<Longrightarrow> server_run env ops t"
| cleanup: "server_run env ops s \<Longrightarrow> server_run env ops (CleanupForeignServerConnections env s)"

lemma server_ok_invalidate: "server_ok env opened ops s \<Longrightarrow> server_ok env opened ops (InvalidateForeignServerShmemCache (s\<lparr>server_db := db\<rparr>))"
  by (simp add: server_ok_def InvalidateForeignServerShmemCache_def server_cache.coherent_def)

lemma GetLocalServerId_ok:
  assumes "pq_ok env opened" and "server_ok env opened ops s" and "GetLocalServerId env ops s = Some (r, t)"
  shows "server_ok env opened ops t"
proof (cases "LocalServerId s = - 1")
  case True
  show ?thesis
  proof (cases "ReloadForeignServerShmemCache ops s")
    case (Inl e)
    with True assms(2,3) show ?thesis by (simp add: GetLocalServerId_def of_falcon_def bindM_def gets_def)
  next
    case (Inr u)
    with True assms(3) have "t = RenewForeignServerLocalCache env u" by (simp add: GetLocalServerId_def of_falcon_def bindM_def gets_def modify_def)
    with server_ok_renew(1) [OF assms(1) server_ok_reload [OF assms(2) Inr]] show ?thesis by simp
  qed
qed (use assms in \<open>simp add: GetLocalServerId_def return_def\<close>)

lemma server_run_ok:
  assumes "pq_ok env opened" and "server_run env ops s"
  shows "server_ok env opened ops s"
  using assms(2)
proof (induction rule: server_run.induct)
  case (elsewhere s r db)
  then show ?case by (simp add: InvalidateForeignServerShmemCacheCallback_def server_ok_invalidate)
next
  case (reload s t)
  then show ?case
    using server_ok_invalidate [OF reload.IH, of "server_db s"] by (auto simp: falcon_reload_foreign_server_cache_def intro: server_ok_reload)
next
  case (cleanup s)
  then show ?case by (simp add: server_ok_def CleanupForeignServerConnections_def server_cache.coherent_def conns_ok_def)
qed (auto simp: falcon_insert_foreign_server_def falcon_delete_foreign_server_def falcon_update_foreign_server_def
    intro: server_ok_init server_ok_table GetLocalServerId_ok [OF assms(1)] dest: GetForeignServerConnection_ok [OF assms(1)])


text \<open>A libpq that always connects, and a table with one server that is moved after a connection was made.\<close>

declare wait_connection.simps [code]

definition pq_sample :: "((string \<times> int) list \<times> PGresult option list) pq_env" where
  "pq_sample = \<lparr>pq_connect = (\<lambda>h p u (cs, q). (Some (length cs), cs @ [(h, p)], q)), pq_status = (\<lambda>_ _. CONNECTION_OK),
     pq_poll = (\<lambda>_ w. w), pq_finish = (\<lambda>_ w. w), pq_hostaddr = (\<lambda>(cs, q) c. fst (cs ! c)), pq_port = (\<lambda>(cs, q) c. snd (cs ! c)),
     pq_pipeline = (\<lambda>_ w. (True, w)),
     pq_send = (\<lambda>_ _ (cs, q). (True, cs, [Some (PGRES_TUPLES_OK [[''0'']]), None, Some PGRES_PIPELINE_SYNC, None])),
     pq_sync = (\<lambda>_ w. (True, w)), pq_result = (\<lambda>_ (cs, q). (case q of [] \<Rightarrow> None | r # _ \<Rightarrow> r, cs, tl q)), hash_order = id\<rparr>"

lemma pq_sample_ok: "pq_ok pq_sample (\<lambda>w. {..<length (fst w)})"
  by (auto simp: pq_ok_def pq_sample_def undisturbed_def address_def nth_append)

type_synonym server_sample_state = "((int, FormData_falcon_foreign_server) pg_alist, (string \<times> int) list \<times> PGresult option list) server_state"

definition server_sample0 :: server_sample_state where
  "server_sample0 = projr (falcon_insert_foreign_server pg_alist_ops 3 ''w3'' ''10.0.0.3'' 5432 False ''falcon''
     (ForeignServerShmemInit ([], [], []) ([], [])))"

definition server_sample1 :: server_sample_state where
  "server_sample1 = snd (the (GetForeignServerConnection pq_sample pg_alist_ops False [3] server_sample0))"

definition server_sample :: server_sample_state where
  "server_sample = projr (falcon_update_foreign_server pg_alist_ops 3 ''10.0.0.4'' 5433 server_sample1)"

lemma server_sample_results:
  "\<not> isl (falcon_insert_foreign_server pg_alist_ops 3 ''w3'' ''10.0.0.3'' 5432 False ''falcon''
     (ForeignServerShmemInit ([], [], []) ([], []) :: server_sample_state))"
  "map_option fst (GetForeignServerConnection pq_sample pg_alist_ops False [3] server_sample0) = Some (Inr [3])"
  "\<not> isl (falcon_update_foreign_server pg_alist_ops 3 ''10.0.0.4'' 5433 server_sample1)"
  "map_option fst (GetForeignServerConnection pq_sample pg_alist_ops False [3] server_sample) = Some (Inr [3])"
  "map_option server_host (pg_vis pg_alist_ops (server_db server_sample) 3) = Some ''10.0.0.4''"
  by code_simp+

lemma server_sample_run: "server_run pq_sample pg_alist_ops server_sample"
proof -
  have "server_run pq_sample pg_alist_ops server_sample0"
    by (rule server_run.insert [OF server_run.init]) (simp add: server_sample0_def server_sample_results(1))
  moreover obtain r where "GetForeignServerConnection pq_sample pg_alist_ops False [3] server_sample0 = Some (r, server_sample1)"
    using server_sample_results(2) by (auto simp: server_sample1_def)
  ultimately have "server_run pq_sample pg_alist_ops server_sample1" by (auto intro: server_run.connect [where ids = "[3]"])
  then show ?thesis by (rule server_run.update) (simp add: server_sample_def server_sample_results(3))
qed


end
