(* ===== verification/Two_Phase.thy ===== *)
theory Two_Phase
  imports Foreign_Server "HOL-Library.List_Lexorder" "HOL-Library.Char_ord"
begin

text \<open>
  Distributed transactions: the two-phase commit of the transaction callbacks
  (\<open>falcon/transaction/transaction.c\<close>, \<open>falcon/distributed_backend/remote_comm_falcon.c\<close>) and the
  cleanup of what crashes and lost connections leave behind
  (\<open>falcon/transaction/transaction_cleanup.c\<close>).

  One coordinator with any number of backends, its cleanup process, and the other servers run at
  the same time.  The state is kept per transaction name (gid): whether the name is in the
  shared-memory table of transactions in progress, the committed rows for it in
  \<open>falcon_distributed_transaction\<close>, the outcome in the commit log of the coordinator, what each
  server has of it, the commands under way, and the backend that runs it.  A step is one access of
  a backend to shared memory, to a connection or to the commit log, one command at a server, one
  phase of the cleanup, or a failure:

  \<^item> A command that was sent is executed at some time, or fails, or is lost; its result may never
    arrive.  A server rolls back an open transaction when its connection breaks.
  \<^item> The coordinator can crash at any time.  Shared memory and backends are gone then, commands
    under way are not; what is not committed in its commit log is aborted.
  \<^item> The transaction names of other coordinators at a server change in any way.
\<close>

subsection \<open>Transaction names\<close>

definition FALCON_TRANSACTION_2PC_HEAD :: string where
  "FALCON_TRANSACTION_2PC_HEAD = ''falcon_xact_''"

definition MAX_TRANSACTION_GID_LENGTH :: nat where
  "MAX_TRANSACTION_GID_LENGTH = 127"

text \<open>\<open>%u\<close> and \<open>%d\<close>.\<close>

function dec :: "nat \<Rightarrow> string" where
  "dec n = (if n < 10 then [''0123456789'' ! n] else dec (n div 10) @ [''0123456789'' ! (n mod 10)])"
  by auto
termination by (relation "measure id") auto

declare dec.simps [simp del]

definition dec_int :: "int \<Rightarrow> string" where
  "dec_int i = (if i < 0 then CHR ''-'' # dec (nat (- i)) else dec (nat i))"

definition gid_of :: "u32 \<Rightarrow> int \<Rightarrow> bool \<Rightarrow> string" where
  "gid_of xid serverId localWrite = FALCON_TRANSACTION_2PC_HEAD @ dec (unat xid) @ '':'' @ dec_int serverId @ '':'' @
     (if localWrite then ''T'' else ''F'')"

definition GetImplicitTransactionGid :: "u32 \<Rightarrow> int \<Rightarrow> bool \<Rightarrow> string falcon" where
  "GetImplicitTransactionGid xid localId localWrite =
    (let str = gid_of xid localId localWrite in
     if length str > MAX_TRANSACTION_GID_LENGTH then Inl PROGRAM_ERROR else Inr str)"

text \<open>The operator \<open>LIKE\<close> of SQL: \<open>%\<close> stands for any characters and \<open>_\<close> for one.\<close>

fun like :: "string \<Rightarrow> string \<Rightarrow> bool" where
  "like [] s = (s = [])"
| "like (c # pat) s =
    (if c = CHR ''%'' then (like pat s \<or> (case s of [] \<Rightarrow> False | _ # t \<Rightarrow> like (c # pat) t))
     else case s of [] \<Rightarrow> False | d # t \<Rightarrow> (c = CHR ''_'' \<or> c = d) \<and> like pat t)"

text \<open>The pattern with which the cleanup asks a server for the prepared transactions of this coordinator.\<close>

definition own_pattern :: "int \<Rightarrow> string" where
  "own_pattern localId = FALCON_TRANSACTION_2PC_HEAD @ ''%:'' @ dec_int localId @ '':%''"

lemma digit_inj: "i < 10 \<Longrightarrow> j < 10 \<Longrightarrow> ''0123456789'' ! i = ''0123456789'' ! j \<longleftrightarrow> i = j"
  by (auto simp: less_Suc_eq numeral_eq_Suc)

lemma digit_char: "i < 10 \<Longrightarrow> ''0123456789'' ! i \<notin> {CHR '':'', CHR ''%'', CHR ''_'', CHR ''-''}"
  by (auto simp: less_Suc_eq numeral_eq_Suc)

lemma dec_chars: "c \<in> set (dec n) \<Longrightarrow> c \<notin> {CHR '':'', CHR ''%'', CHR ''_'', CHR ''-''}"
proof (induction n rule: dec.induct)
  case (1 n)
  then show ?case using digit_char [of n] digit_char [of "n mod 10"] by (subst (asm) (2) dec.simps) (auto split: if_splits)
qed

lemma dec_not_Nil: "dec n \<noteq> []"
  by (subst dec.simps) simp

lemma dec_inj: "dec m = dec n \<longleftrightarrow> m = n"
proof (induction m arbitrary: n rule: dec.induct)
  case (1 m)
  show ?case
  proof (cases "m < 10 \<or> n < 10")
    case True
    then show ?thesis
      using digit_inj [of m n] dec_not_Nil [of "m div 10"] dec_not_Nil [of "n div 10"]
      by (subst (1 2) dec.simps) (auto simp: append_eq_Cons_conv Cons_eq_append_conv)
  next
    case False
    then have "dec m = dec n \<longleftrightarrow> m div 10 = n div 10 \<and> m mod 10 = n mod 10"
      using 1 [of "n div 10"] digit_inj [of "m mod 10" "n mod 10"] by (subst (1 2) dec.simps) simp
    then show ?thesis by (metis div_mult_mod_eq)
  qed
qed

lemma dec_int_chars: "c \<in> set (dec_int i) \<Longrightarrow> c \<notin> {CHR '':'', CHR ''%'', CHR ''_''}"
  using dec_chars by (fastforce simp: dec_int_def split: if_splits)

lemma dec_int_inj: "dec_int i = dec_int j \<longleftrightarrow> i = j"
  using dec_chars [of "CHR ''-''"] by (auto simp: dec_int_def dec_inj split: if_splits)
    (metis list.set_intros(1) insertCI)+

lemma like_any: "like (CHR ''%'' # pat) s \<longleftrightarrow> (\<exists>u v. s = u @ v \<and> like pat v)"
proof (induction s)
  case (Cons d t)
  have "(\<exists>u v. d # t = u @ v \<and> like pat v) \<longleftrightarrow> like pat (d # t) \<or> (\<exists>u v. t = u @ v \<and> like pat v)"
    by (auto simp: Cons_eq_append_conv)
  with Cons.IH show ?case by simp
qed simp

lemma like_literal: "\<forall>c\<in>set lit. c \<noteq> CHR ''%'' \<and> c \<noteq> CHR ''_'' \<Longrightarrow> like (lit @ pat) s \<longleftrightarrow> (\<exists>v. s = lit @ v \<and> like pat v)"
  by (induction lit arbitrary: s) (auto split: list.splits)

text \<open>The middle part of a name with two colons is determined.\<close>

lemma between_colons:
  assumes "CHR '':'' \<notin> set a" and "CHR '':'' \<notin> set b" and "CHR '':'' \<notin> set c" and "CHR '':'' \<notin> set m"
    and "a @ '':'' @ b @ '':'' @ c = u @ '':'' @ m @ '':'' @ v"
  shows "b = m"
proof -
  have free: "CHR '':'' \<notin> set x \<Longrightarrow> filter ((=) CHR '':'') x = []" for x by (induction x) auto
  have "length (filter ((=) CHR '':'') (a @ '':'' @ b @ '':'' @ c)) = length (filter ((=) CHR '':'') (u @ '':'' @ m @ '':'' @ v))"
    using assms(5) by simp
  then have "filter ((=) CHR '':'') u = []" using free [OF assms(1)] free [OF assms(2)] free [OF assms(3)] free [OF assms(4)] by simp
  then have u: "CHR '':'' \<notin> set u" by (auto simp: filter_empty_conv)
  have tw: "CHR '':'' \<notin> set x \<Longrightarrow> takeWhile ((\<noteq>) CHR '':'') (x @ '':'' @ y) = x" for x y by (induction x) auto
  have "a = u" using arg_cong [OF assms(5), of "takeWhile ((\<noteq>) CHR '':'')"] tw [OF assms(1)] tw [OF u] by metis
  with assms(5) have "b @ '':'' @ c = m @ '':'' @ v" by simp
  from arg_cong [OF this, of "takeWhile ((\<noteq>) CHR '':'')"] show ?thesis using tw [OF assms(2)] tw [OF assms(4)] by metis
qed

lemma like_own_pattern: "like (own_pattern l) (gid_of xid serverId localWrite) \<longleftrightarrow> serverId = l"
proof -
  have head: "like (''falcon_xact_'' @ pat) (''falcon_xact_'' @ s) = like pat s" for pat s by simp
  have no_colon: "CHR '':'' \<notin> set (dec (unat xid))" "CHR '':'' \<notin> set (dec_int i)" "CHR '':'' \<notin> set (if localWrite then ''T'' else ''F'')" for i
    using dec_chars [of "CHR '':''" "unat xid"] dec_int_chars [of "CHR '':''" i] by auto
  have lit: "\<forall>c\<in>set ('':'' @ dec_int l @ '':''). c \<noteq> CHR ''%'' \<and> c \<noteq> CHR ''_''"
    using dec_int_chars [of "CHR ''%''" l] dec_int_chars [of "CHR ''_''" l] by auto
  have split_literal: "(\<exists>u v. x = u @ v \<and> (\<exists>w. v = y @ w \<and> True)) \<longleftrightarrow> (\<exists>u w. x = u @ y @ w)" for x y :: string by blast
  have all: "like ''%'' v" for v unfolding like_any by (rule exI [of _ v]) simp
  have pattern: "own_pattern l = ''falcon_xact_'' @ CHR ''%'' # ('':'' @ dec_int l @ '':'') @ ''%''"
    by (simp add: own_pattern_def FALCON_TRANSACTION_2PC_HEAD_def)
  have "like (own_pattern l) (gid_of xid serverId localWrite) \<longleftrightarrow>
      (\<exists>u v. dec (unat xid) @ '':'' @ dec_int serverId @ '':'' @ (if localWrite then ''T'' else ''F'') = u @ '':'' @ dec_int l @ '':'' @ v)"
    unfolding pattern gid_of_def FALCON_TRANSACTION_2PC_HEAD_def head like_any [of "('':'' @ dec_int l @ '':'') @ ''%''"] like_literal [OF lit] by (simp only: all split_literal) (simp only: append_assoc)
  moreover have "\<dots> \<longleftrightarrow> dec_int serverId = dec_int l"
  proof
    assume "\<exists>u v. dec (unat xid) @ '':'' @ dec_int serverId @ '':'' @ (if localWrite then ''T'' else ''F'') = u @ '':'' @ dec_int l @ '':'' @ v"
    then show "dec_int serverId = dec_int l" using between_colons no_colon by blast
  qed auto
  ultimately show ?thesis by (simp add: dec_int_inj)
qed

subsection \<open>The state of a transaction\<close>

text \<open>Commands sent to a server for a transaction, and what a server has of it.\<close>

datatype command = CMD_PREPARE | CMD_COMMIT | CMD_ROLLBACK | CMD_COMMIT_PREPARED | CMD_ROLLBACK_PREPARED

datatype remote_state = Idle | Active | Prepared | Committed | RolledBack

text \<open>
  Where a backend is in the callbacks: the loops that send and that fetch have the position in the
  list of connections; the flag tells that a server has reported an error.
\<close>

datatype phase = PreCommit | SendPrepare nat | FetchPrepare nat bool | LocalCommit | SendCommit nat | FetchCommit nat
  | SendRollback nat | FetchRollback nat | ClearGid

record backend =
  b_phase :: phase
  b_conns :: "(int \<times> FalconRemoteTransactionState) list"
  LocalServerWrite :: bool
  gid_set :: bool
  b_records :: "int list"

text \<open>\<open>writers\<close> and \<open>local_write\<close> keep, for the statements, where the transaction has written.\<close>

record txn =
  inprogress :: bool
  rows :: "int set"
  clog :: "bool option"
  remote :: "int \<Rightarrow> remote_state"
  net :: "(int \<times> command) set"
  reply :: "int \<Rightarrow> bool option"
  backend :: "backend option"
  writers :: "int set"
  local_write :: bool

definition fresh_txn :: txn where
  "fresh_txn = \<lparr>inprogress = False, rows = {}, clog = None, remote = (\<lambda>_. Idle), net = {}, reply = (\<lambda>_. None), backend = None,
     writers = {}, local_write = False\<rparr>"

definition send :: "int \<Rightarrow> command \<Rightarrow> txn \<Rightarrow> txn" where
  "send p cmd t = t\<lparr>net := insert (p, cmd) (net t), reply := (reply t)(p := None)\<rparr>"

subsection \<open>A server\<close>

text \<open>What a command does when it succeeds, as PostgreSQL documents it.\<close>

fun executed :: "command \<Rightarrow> remote_state \<Rightarrow> remote_state option" where
  "executed CMD_PREPARE Active = Some Prepared"
| "executed CMD_COMMIT Active = Some Committed"
| "executed CMD_COMMIT Idle = Some Idle"
| "executed CMD_ROLLBACK Active = Some RolledBack"
| "executed CMD_ROLLBACK Idle = Some Idle"
| "executed CMD_COMMIT_PREPARED Prepared = Some Committed"
| "executed CMD_ROLLBACK_PREPARED Prepared = Some RolledBack"
| "executed _ _ = None"

text \<open>
  A command succeeds, fails without an effect, or is lost with or without having had its effect;
  an open transaction ends when its connection breaks.
\<close>

inductive server_step :: "txn \<Rightarrow> txn \<Rightarrow> bool" where
  succeeds: "(p, cmd) \<in> net t \<Longrightarrow> executed cmd (remote t p) = Some r \<Longrightarrow>
    server_step t (t\<lparr>remote := (remote t)(p := r), net := net t - {(p, cmd)}, reply := (reply t)(p := Some True)\<rparr>)"
| fails: "(p, cmd) \<in> net t \<Longrightarrow> server_step t (t\<lparr>net := net t - {(p, cmd)}, reply := (reply t)(p := Some False)\<rparr>)"
| lost: "(p, cmd) \<in> net t \<Longrightarrow> server_step t (t\<lparr>net := net t - {(p, cmd)}\<rparr>)"
| silent: "(p, cmd) \<in> net t \<Longrightarrow> executed cmd (remote t p) = Some r \<Longrightarrow>
    server_step t (t\<lparr>remote := (remote t)(p := r), net := net t - {(p, cmd)}\<rparr>)"
| disconnected: "remote t p = Active \<Longrightarrow> server_step t (t\<lparr>remote := (remote t)(p := RolledBack)\<rparr>)"

subsection \<open>A backend\<close>

definition write_server_count :: "bool \<Rightarrow> (int \<times> FalconRemoteTransactionState) list \<Rightarrow> nat" where
  "write_server_count localWrite connList =
    (if localWrite then 1 else 0) + length (filter (\<lambda>(_, st). st = FALCON_REMOTE_TRANSACTION_BEGIN_FOR_WRITE) connList)"

definition need2pc :: "backend \<Rightarrow> bool" where
  "need2pc b \<longleftrightarrow> b_conns b \<noteq> [] \<and> write_server_count (LocalServerWrite b) (b_conns b) \<ge> 2"

fun commit_command :: "FalconRemoteTransactionState \<Rightarrow> command option" where
  "commit_command FALCON_REMOTE_TRANSACTION_BEGIN_FOR_SNAPSHOT = Some CMD_COMMIT"
| "commit_command FALCON_REMOTE_TRANSACTION_BEGIN_FOR_WRITE = Some CMD_COMMIT"
| "commit_command FALCON_REMOTE_TRANSACTION_PREPARE = Some CMD_COMMIT_PREPARED"
| "commit_command FALCON_REMOTE_TRANSACTION_NONE = None"

fun rollback_command :: "FalconRemoteTransactionState \<Rightarrow> command option" where
  "rollback_command FALCON_REMOTE_TRANSACTION_BEGIN_FOR_SNAPSHOT = Some CMD_ROLLBACK"
| "rollback_command FALCON_REMOTE_TRANSACTION_BEGIN_FOR_WRITE = Some CMD_ROLLBACK"
| "rollback_command FALCON_REMOTE_TRANSACTION_PREPARE = Some CMD_ROLLBACK_PREPARED"
| "rollback_command FALCON_REMOTE_TRANSACTION_NONE = None"

definition conn_server :: "backend \<Rightarrow> nat \<Rightarrow> int" where
  "conn_server b i = fst (b_conns b ! i)"

definition conn_state :: "backend \<Rightarrow> nat \<Rightarrow> FalconRemoteTransactionState" where
  "conn_state b i = snd (b_conns b ! i)"

definition set_conn_state :: "nat \<Rightarrow> FalconRemoteTransactionState \<Rightarrow> backend \<Rightarrow> backend" where
  "set_conn_state i st b = b\<lparr>b_conns := (b_conns b)[i := (conn_server b i, st)]\<rparr>"

definition Write2PCRecord :: "int \<Rightarrow> backend \<Rightarrow> backend" where
  "Write2PCRecord serverId b = b\<lparr>b_records := b_records b @ [serverId]\<rparr>"

definition AddInprogressTransaction :: "txn \<Rightarrow> txn falcon" where
  "AddInprogressTransaction t = (if inprogress t then Inl PROGRAM_ERROR else Inr (t\<lparr>inprogress := True\<rparr>))"

definition RemoveInprogressTransaction :: "txn \<Rightarrow> txn" where
  "RemoveInprogressTransaction t = t\<lparr>inprogress := False\<rparr>"

text \<open>\<open>goes\<close>: the backend moves on, with its new state.\<close>

definition goes :: "backend \<Rightarrow> phase \<Rightarrow> txn \<Rightarrow> txn" where
  "goes b ph t = t\<lparr>backend := Some (b\<lparr>b_phase := ph\<rparr>)\<rparr>"

text \<open>Before the commit record: an error leads to the abort callback.\<close>

fun undecided :: "phase \<Rightarrow> bool" where
  "undecided PreCommit = True"
| "undecided (SendPrepare _) = True"
| "undecided (FetchPrepare _ _) = True"
| "undecided LocalCommit = True"
| "undecided _ = False"

text \<open>
  The steps of a backend.  \<open>reconnects\<close> says whether \<open>GetForeignServerConnection\<close> can come upon a
  broken connection when the transaction is about to commit; it makes a new one then, whose state is
  \<open>FALCON_REMOTE_TRANSACTION_NONE\<close>.
\<close>

inductive backend_step :: "bool \<Rightarrow> txn \<Rightarrow> txn \<Rightarrow> bool" for reconnects where
  pre_reconnect: "reconnects \<Longrightarrow> backend t = Some b \<Longrightarrow> b_phase b = PreCommit \<Longrightarrow> i < length (b_conns b) \<Longrightarrow>
    backend_step reconnects t (goes (set_conn_state i FALCON_REMOTE_TRANSACTION_NONE b) PreCommit t)"
| prepare_not_needed: "backend t = Some b \<Longrightarrow> b_phase b = PreCommit \<Longrightarrow> \<not> need2pc b \<Longrightarrow>
    backend_step reconnects t (goes b LocalCommit t)"
| prepare_begin: "backend t = Some b \<Longrightarrow> b_phase b = PreCommit \<Longrightarrow> need2pc b \<Longrightarrow> AddInprogressTransaction t = Inr u \<Longrightarrow>
    backend_step reconnects t (goes (b\<lparr>gid_set := True\<rparr>) (SendPrepare 0) u)"
| prepare_send: "backend t = Some b \<Longrightarrow> b_phase b = SendPrepare i \<Longrightarrow> i < length (b_conns b) \<Longrightarrow>
    conn_state b i = FALCON_REMOTE_TRANSACTION_BEGIN_FOR_WRITE \<Longrightarrow>
    backend_step reconnects t (goes b (SendPrepare (Suc i)) (send (conn_server b i) CMD_PREPARE t))"
| prepare_send_none: "backend t = Some b \<Longrightarrow> b_phase b = SendPrepare i \<Longrightarrow> i < length (b_conns b) \<Longrightarrow>
    conn_state b i \<noteq> FALCON_REMOTE_TRANSACTION_BEGIN_FOR_WRITE \<Longrightarrow>
    backend_step reconnects t (goes b (SendPrepare (Suc i)) t)"
| prepare_sent: "backend t = Some b \<Longrightarrow> b_phase b = SendPrepare (length (b_conns b)) \<Longrightarrow>
    backend_step reconnects t (goes b (FetchPrepare 0 False) t)"
| prepare_fetch_none: "backend t = Some b \<Longrightarrow> b_phase b = FetchPrepare i err \<Longrightarrow> i < length (b_conns b) \<Longrightarrow>
    conn_state b i \<noteq> FALCON_REMOTE_TRANSACTION_BEGIN_FOR_WRITE \<Longrightarrow>
    backend_step reconnects t (goes b (FetchPrepare (Suc i) err) t)"
| prepare_fetch_ok: "backend t = Some b \<Longrightarrow> b_phase b = FetchPrepare i err \<Longrightarrow> i < length (b_conns b) \<Longrightarrow>
    conn_state b i = FALCON_REMOTE_TRANSACTION_BEGIN_FOR_WRITE \<Longrightarrow> reply t (conn_server b i) = Some True \<Longrightarrow>
    backend_step reconnects t (goes (Write2PCRecord (conn_server b i) (set_conn_state i FALCON_REMOTE_TRANSACTION_PREPARE b))
      (FetchPrepare (Suc i) err) t)"
| prepare_fetch_error: "backend t = Some b \<Longrightarrow> b_phase b = FetchPrepare i err \<Longrightarrow> i < length (b_conns b) \<Longrightarrow>
    conn_state b i = FALCON_REMOTE_TRANSACTION_BEGIN_FOR_WRITE \<Longrightarrow>
    backend_step reconnects t (goes b (FetchPrepare (Suc i) True) t)"
| prepare_done: "backend t = Some b \<Longrightarrow> b_phase b = FetchPrepare (length (b_conns b)) False \<Longrightarrow>
    backend_step reconnects t (goes b LocalCommit t)"
| local_commit: "backend t = Some b \<Longrightarrow> b_phase b = LocalCommit \<Longrightarrow>
    backend_step reconnects t (goes b (SendCommit 0) (t\<lparr>clog := Some True, rows := rows t \<union> set (b_records b)\<rparr>))"
| commit_send: "backend t = Some b \<Longrightarrow> b_phase b = SendCommit i \<Longrightarrow> i < length (b_conns b) \<Longrightarrow> commit_command (conn_state b i) = Some cmd \<Longrightarrow>
    backend_step reconnects t (goes b (SendCommit (Suc i)) (send (conn_server b i) cmd t))"
| commit_send_none: "backend t = Some b \<Longrightarrow> b_phase b = SendCommit i \<Longrightarrow> i < length (b_conns b) \<Longrightarrow>
    backend_step reconnects t (goes (set_conn_state i FALCON_REMOTE_TRANSACTION_NONE b) (SendCommit (Suc i)) t)"
| commit_sent: "backend t = Some b \<Longrightarrow> b_phase b = SendCommit (length (b_conns b)) \<Longrightarrow>
    backend_step reconnects t (goes b (FetchCommit 0) t)"
| commit_fetch: "backend t = Some b \<Longrightarrow> b_phase b = FetchCommit i \<Longrightarrow> i < length (b_conns b) \<Longrightarrow>
    commit_command (conn_state b i) = None \<or> reply t (conn_server b i) = Some True \<Longrightarrow>
    backend_step reconnects t (goes (set_conn_state i FALCON_REMOTE_TRANSACTION_NONE b) (FetchCommit (Suc i)) t)"
| commit_done: "backend t = Some b \<Longrightarrow> b_phase b = FetchCommit (length (b_conns b)) \<Longrightarrow> backend_step reconnects t (goes b ClearGid t)"
| commit_warning: "backend t = Some b \<Longrightarrow> b_phase b \<in> {SendCommit i, FetchCommit i} \<Longrightarrow> backend_step reconnects t (goes b ClearGid t)"
| abort: "backend t = Some b \<Longrightarrow> undecided (b_phase b) \<Longrightarrow>
    backend_step reconnects t (goes b (SendRollback 0) (t\<lparr>clog := Some False\<rparr>))"
| abort_send: "backend t = Some b \<Longrightarrow> b_phase b = SendRollback i \<Longrightarrow> i < length (b_conns b) \<Longrightarrow> rollback_command (conn_state b i) = Some cmd \<Longrightarrow>
    backend_step reconnects t (goes b (SendRollback (Suc i)) (send (conn_server b i) cmd t))"
| abort_send_none: "backend t = Some b \<Longrightarrow> b_phase b = SendRollback i \<Longrightarrow> i < length (b_conns b) \<Longrightarrow>
    backend_step reconnects t (goes b (SendRollback (Suc i)) t)"
| abort_sent: "backend t = Some b \<Longrightarrow> b_phase b = SendRollback (length (b_conns b)) \<Longrightarrow>
    backend_step reconnects t (goes b (FetchRollback 0) t)"
| abort_fetch: "backend t = Some b \<Longrightarrow> b_phase b = FetchRollback i \<Longrightarrow> i < length (b_conns b) \<Longrightarrow>
    backend_step reconnects t (goes (set_conn_state i FALCON_REMOTE_TRANSACTION_NONE b) (FetchRollback (Suc i)) t)"
| abort_done: "backend t = Some b \<Longrightarrow> b_phase b = FetchRollback (length (b_conns b)) \<Longrightarrow> backend_step reconnects t (goes b ClearGid t)"
| clear_gid: "backend t = Some b \<Longrightarrow> b_phase b = ClearGid \<Longrightarrow>
    backend_step reconnects t ((if gid_set b then RemoveInprogressTransaction t else t)\<lparr>backend := None\<rparr>)"

text \<open>A backend has done the work of a transaction: the servers it has written to hold it open.\<close>

definition begun :: "(int \<times> FalconRemoteTransactionState) list \<Rightarrow> bool \<Rightarrow> txn" where
  "begun cs localWrite =
    (let W = {p. (p, FALCON_REMOTE_TRANSACTION_BEGIN_FOR_WRITE) \<in> set cs} in
     fresh_txn\<lparr>remote := (\<lambda>p. if p \<in> W then Active else Idle), writers := W, local_write := localWrite,
       backend := Some \<lparr>b_phase = PreCommit, b_conns = cs, LocalServerWrite = localWrite, gid_set = False, b_records = []\<rparr>\<rparr>)"

subsection \<open>The cleanup\<close>

text \<open>
  The sets of the comments in the code: A and D are the transactions prepared at a server, before
  and after the others were taken, B those in progress, C those with a row for the server.
\<close>

datatype cleaner = Sleeping | HasA int "string set" | HasB int "string set" "string set" | HasC int "string set" "string set" "string list"
  | Records int "string set" "string set" "string list" "string set" | Rest int "string set" "string list"

type_synonym txns = "string \<Rightarrow> txn"

definition GetRemotePreparedTransactionSet :: "int \<Rightarrow> int \<Rightarrow> txns \<Rightarrow> string set" where
  "GetRemotePreparedTransactionSet localId serverId ts = {g. remote (ts g) serverId = Prepared \<and> like (own_pattern localId) g}"

definition GetActiveTransactionSet :: "txns \<Rightarrow> string set" where
  "GetActiveTransactionSet ts = {g. inprogress (ts g)}"

definition record_set :: "int \<Rightarrow> txns \<Rightarrow> string set" where
  "record_set serverId ts = {g. serverId \<in> rows (ts g)}"

type_synonym deleted = "(string \<times> int) set"

text \<open>
  One row of the scan: what becomes of set A, of the rows deleted in this transaction and of the
  transactions.  \<open>issue\<close> is how a command is issued.
\<close>

fun clean_record :: "(int \<Rightarrow> command \<Rightarrow> txn \<Rightarrow> txn) \<Rightarrow> int \<Rightarrow> string set \<Rightarrow> string set \<Rightarrow> string \<Rightarrow>
    string set \<times> deleted \<times> txns \<Rightarrow> string set \<times> deleted \<times> txns" where
  "clean_record issue serverId setB setD g (setA, del, ts) =
    (if g \<in> setB then (setA, del, ts)
     else if g \<in> setA \<and> g \<in> setD then (setA - {g}, del, ts(g := issue serverId CMD_COMMIT_PREPARED (ts g)))
     else if g \<notin> setA \<and> g \<in> setD then (setA, del, ts)
     else (setA - {g}, insert (g, serverId) del, ts))"

text \<open>One element of what is left of set A.\<close>

definition clean_rest :: "(int \<Rightarrow> command \<Rightarrow> txn \<Rightarrow> txn) \<Rightarrow> int \<Rightarrow> string set \<Rightarrow> string \<Rightarrow> txns \<Rightarrow> txns" where
  "clean_rest issue serverId setB g ts = (if g \<in> setB then ts else ts(g := issue serverId CMD_ROLLBACK_PREPARED (ts g)))"

text \<open>The transaction of the cleanup commits: the rows it has deleted are gone.\<close>

definition delete_rows :: "deleted \<Rightarrow> txns \<Rightarrow> txns" where
  "delete_rows del ts = (\<lambda>g. (ts g)\<lparr>rows := rows (ts g) - {p. (g, p) \<in> del}\<rparr>)"

subsection \<open>The system\<close>

record tpc =
  txns :: txns
  cleaner :: cleaner
  deleted :: deleted

definition tpc_init :: tpc where
  "tpc_init = \<lparr>txns = (\<lambda>_. fresh_txn), cleaner = Sleeping, deleted = {}\<rparr>"

definition own :: "int \<Rightarrow> string \<Rightarrow> bool" where
  "own localId g \<longleftrightarrow> (\<exists>xid localWrite. g = gid_of xid localId localWrite)"

text \<open>After a crash: memory, backends and replies are gone; what was not committed is aborted.\<close>

definition crashed :: "txn \<Rightarrow> txn" where
  "crashed t = (if t = fresh_txn then t else t\<lparr>inprogress := False, backend := None, reply := (\<lambda>_. None),
     clog := Some (clog t = Some True)\<rparr>)"

text \<open>
  A pass over a server ends after its last command or at an error, which is caught.  Deleted rows are
  gone when the transaction of the cleanup commits; the lock that keeps two passes apart is released
  before, so that the commit can fall into the next pass.
\<close>

inductive tpc_step :: "int \<Rightarrow> bool \<Rightarrow> tpc \<Rightarrow> tpc \<Rightarrow> bool" for localId reconnects where
  start: "txns s g = fresh_txn \<Longrightarrow> GetImplicitTransactionGid xid localId localWrite = Inr g \<Longrightarrow> distinct (map fst cs) \<Longrightarrow>
    (\<forall>(p, st)\<in>set cs. st \<noteq> FALCON_REMOTE_TRANSACTION_PREPARE) \<Longrightarrow>
    tpc_step localId reconnects s (s\<lparr>txns := (txns s)(g := begun cs localWrite)\<rparr>)"
| at_server: "own localId g \<Longrightarrow> server_step (txns s g) t \<Longrightarrow> tpc_step localId reconnects s (s\<lparr>txns := (txns s)(g := t)\<rparr>)"
| at_backend: "backend_step reconnects (txns s g) t \<Longrightarrow> tpc_step localId reconnects s (s\<lparr>txns := (txns s)(g := t)\<rparr>)"
| elsewhere: "\<not> like (own_pattern localId) g \<Longrightarrow> tpc_step localId reconnects s
    (s\<lparr>txns := (txns s)(g := (txns s g)\<lparr>remote := r\<rparr>)\<rparr>)"
| crash: "tpc_step localId reconnects s
    \<lparr>txns = (\<lambda>g. if own localId g then crashed (txns s g) else txns s g), cleaner = Sleeping, deleted = {}\<rparr>"
| cleanup_A: "cleaner s = Sleeping \<Longrightarrow>
    tpc_step localId reconnects s (s\<lparr>cleaner := HasA p (GetRemotePreparedTransactionSet localId p (txns s))\<rparr>)"
| cleanup_B: "cleaner s = HasA p A \<Longrightarrow> tpc_step localId reconnects s (s\<lparr>cleaner := HasB p A (GetActiveTransactionSet (txns s))\<rparr>)"
| cleanup_C: "cleaner s = HasB p A B \<Longrightarrow> set C = record_set p (txns s) \<Longrightarrow> tpc_step localId reconnects s (s\<lparr>cleaner := HasC p A B C\<rparr>)"
| cleanup_D: "cleaner s = HasC p A B C \<Longrightarrow>
    tpc_step localId reconnects s (s\<lparr>cleaner := Records p A B C (GetRemotePreparedTransactionSet localId p (txns s))\<rparr>)"
| cleanup_record: "cleaner s = Records p A B (g # C) D \<Longrightarrow> clean_record send p B D g (A, deleted s, txns s) = (A', del, ts) \<Longrightarrow>
    tpc_step localId reconnects s \<lparr>txns = ts, cleaner = Records p A' B C D, deleted = del\<rparr>"
| cleanup_scanned: "cleaner s = Records p A B [] D \<Longrightarrow> set todo = A \<Longrightarrow> tpc_step localId reconnects s (s\<lparr>cleaner := Rest p B todo\<rparr>)"
| cleanup_rest: "cleaner s = Rest p B (g # todo) \<Longrightarrow>
    tpc_step localId reconnects s (s\<lparr>txns := clean_rest send p B g (txns s), cleaner := Rest p B todo\<rparr>)"
| cleanup_end: "tpc_step localId reconnects s (s\<lparr>cleaner := Sleeping\<rparr>)"
| cleanup_commit: "tpc_step localId reconnects s (s\<lparr>txns := delete_rows (deleted s) (txns s), deleted := {}\<rparr>)"
| cleanup_abort: "tpc_step localId reconnects s (s\<lparr>deleted := {}\<rparr>)"

inductive tpc_reachable :: "int \<Rightarrow> bool \<Rightarrow> tpc \<Rightarrow> bool" for localId reconnects where
  init: "tpc_reachable localId reconnects tpc_init"
| step: "tpc_reachable localId reconnects s \<Longrightarrow> tpc_step localId reconnects s s' \<Longrightarrow> tpc_reachable localId reconnects s'"

subsection \<open>Invariant of a transaction\<close>

text \<open>The transaction has written on at least two servers, this one included.\<close>

definition two_servers :: "txn \<Rightarrow> bool" where
  "two_servers t \<longleftrightarrow> (if local_write t then 1 else 0) + card (writers t) \<ge> 2"

definition net_ok :: "txn \<Rightarrow> bool" where
  "net_ok t \<longleftrightarrow> (\<forall>p. ((p, CMD_COMMIT) \<in> net t \<or> (p, CMD_COMMIT_PREPARED) \<in> net t \<longrightarrow> clog t = Some True) \<and>
    ((p, CMD_ROLLBACK) \<in> net t \<or> (p, CMD_ROLLBACK_PREPARED) \<in> net t \<longrightarrow> clog t = Some False) \<and>
    ((p, CMD_PREPARE) \<in> net t \<longrightarrow> two_servers t \<and> (inprogress t \<or> clog t \<noteq> None)))"

definition remote_ok :: "txn \<Rightarrow> bool" where
  "remote_ok t \<longleftrightarrow> (\<forall>p. (remote t p \<noteq> Idle \<longrightarrow> p \<in> writers t) \<and> (remote t p = Committed \<longrightarrow> clog t = Some True) \<and>
    (remote t p = Prepared \<longrightarrow> two_servers t \<and> (inprogress t \<or> clog t \<noteq> None)) \<and>
    (reply t p = Some True \<and> clog t = None \<longrightarrow> remote t p = Prepared))"

definition rows_ok :: "txn \<Rightarrow> bool" where
  "rows_ok t \<longleftrightarrow> rows t \<subseteq> writers t \<and> (rows t \<noteq> {} \<longrightarrow> clog t = Some True \<and> two_servers t)"

definition decided_ok :: "txn \<Rightarrow> bool" where
  "decided_ok t \<longleftrightarrow> (two_servers t \<and> clog t = Some True \<longrightarrow>
    (\<forall>p\<in>writers t. remote t p = Prepared \<and> p \<in> rows t \<or> remote t p = Committed))"

definition write_conns :: "backend \<Rightarrow> int set" where
  "write_conns b = {p. (p, FALCON_REMOTE_TRANSACTION_BEGIN_FOR_WRITE) \<in> set (b_conns b)}"

definition phase_ok :: "txn \<Rightarrow> backend \<Rightarrow> bool" where
  "phase_ok t b = (case b_phase b of
      PreCommit \<Rightarrow> clog t = None \<and> \<not> gid_set b \<and> b_records b = [] \<and> write_conns b = writers t
    | SendPrepare i \<Rightarrow> clog t = None \<and> gid_set b \<and> b_records b = [] \<and> write_conns b = writers t
    | FetchPrepare i err \<Rightarrow> clog t = None \<and> gid_set b \<and> i \<le> length (b_conns b) \<and> writers t \<subseteq> fst ` set (b_conns b) \<and>
        (\<forall>j < length (b_conns b). i \<le> j \<and> conn_state b j \<noteq> FALCON_REMOTE_TRANSACTION_BEGIN_FOR_WRITE \<longrightarrow> conn_server b j \<notin> writers t) \<and>
        (\<not> err \<longrightarrow> (\<forall>j < i. conn_server b j \<in> writers t \<longrightarrow> remote t (conn_server b j) = Prepared \<and> conn_server b j \<in> set (b_records b)))
    | LocalCommit \<Rightarrow> clog t = None \<and>
        (two_servers t \<longrightarrow> gid_set b \<and> (\<forall>p\<in>writers t. remote t p = Prepared \<and> p \<in> set (b_records b)))
    | SendCommit i \<Rightarrow> clog t = Some True
    | FetchCommit i \<Rightarrow> clog t = Some True
    | SendRollback i \<Rightarrow> clog t = Some False
    | FetchRollback i \<Rightarrow> clog t = Some False
    | ClearGid \<Rightarrow> clog t \<noteq> None)"

definition backend_ok :: "txn \<Rightarrow> bool" where
  "backend_ok t = (case backend t of
      None \<Rightarrow> clog t \<noteq> None \<or> t = fresh_txn
    | Some b \<Rightarrow> distinct (map fst (b_conns b)) \<and> LocalServerWrite b = local_write t \<and> phase_ok t b \<and>
        (gid_set b \<longrightarrow> inprogress t \<and> two_servers t) \<and> set (b_records b) \<subseteq> writers t \<and>
        (b_records b \<noteq> [] \<longrightarrow> two_servers t) \<and> (inprogress t \<longrightarrow> gid_set b))"

definition txn_ok :: "txn \<Rightarrow> bool" where
  "txn_ok t \<longleftrightarrow> finite (writers t) \<and> net_ok t \<and> remote_ok t \<and> rows_ok t \<and> decided_ok t \<and> backend_ok t"

lemmas txn_parts = net_ok_def remote_ok_def rows_ok_def decided_ok_def

lemma fresh_txn_ok: "txn_ok fresh_txn"
  by (simp add: txn_ok_def txn_parts backend_ok_def fresh_txn_def two_servers_def)

lemma begun_ok: "distinct (map fst cs) \<Longrightarrow> txn_ok (begun cs localWrite)"
proof -
  assume d: "distinct (map fst cs)"
  have "{p. (p, FALCON_REMOTE_TRANSACTION_BEGIN_FOR_WRITE) \<in> set cs} \<subseteq> fst ` set cs" by force
  then have "finite {p. (p, FALCON_REMOTE_TRANSACTION_BEGIN_FOR_WRITE) \<in> set cs}" by (rule finite_subset) simp
  with d show ?thesis
    by (auto simp: txn_ok_def txn_parts backend_ok_def begun_def fresh_txn_def Let_def phase_ok_def write_conns_def)
qed

lemma executed_iff: "executed cmd r = Some r' \<longleftrightarrow>
    cmd = CMD_PREPARE \<and> r = Active \<and> r' = Prepared \<or> cmd = CMD_COMMIT \<and> r = Active \<and> r' = Committed \<or>
    cmd = CMD_COMMIT \<and> r = Idle \<and> r' = Idle \<or> cmd = CMD_ROLLBACK \<and> r = Active \<and> r' = RolledBack \<or>
    cmd = CMD_ROLLBACK \<and> r = Idle \<and> r' = Idle \<or> cmd = CMD_COMMIT_PREPARED \<and> r = Prepared \<and> r' = Committed \<or>
    cmd = CMD_ROLLBACK_PREPARED \<and> r = Prepared \<and> r' = RolledBack"
  by (cases cmd; cases r) auto

text \<open>What a server does to its part of a transaction.\<close>

definition remote_move :: "txn \<Rightarrow> int \<Rightarrow> remote_state \<Rightarrow> bool" where
  "remote_move t p r \<longleftrightarrow> r = remote t p \<or> remote t p = Active \<and> r = RolledBack \<or>
    remote t p = Active \<and> r = Prepared \<and> two_servers t \<and> (inprogress t \<or> clog t \<noteq> None) \<or>
    remote t p = Active \<and> r = Committed \<and> clog t = Some True \<or> remote t p = Prepared \<and> r = Committed \<and> clog t = Some True \<or>
    remote t p = Prepared \<and> r = RolledBack \<and> clog t = Some False"

lemma net_okD:
  assumes "net_ok t"
  shows "(p, CMD_COMMIT) \<in> net t \<Longrightarrow> clog t = Some True" "(p, CMD_COMMIT_PREPARED) \<in> net t \<Longrightarrow> clog t = Some True"
    "(p, CMD_ROLLBACK) \<in> net t \<Longrightarrow> clog t = Some False" "(p, CMD_ROLLBACK_PREPARED) \<in> net t \<Longrightarrow> clog t = Some False"
    "(p, CMD_PREPARE) \<in> net t \<Longrightarrow> two_servers t \<and> (inprogress t \<or> clog t \<noteq> None)"
  using assms unfolding net_ok_def by blast+

lemma executed_move:
  assumes "net_ok t" and "(p, cmd) \<in> net t" and "executed cmd (remote t p) = Some r"
  shows "remote_move t p r" and "clog t = None \<Longrightarrow> r = Prepared"
  using assms(3) [unfolded executed_iff] assms(2) net_okD [OF assms(1), of p]
  unfolding remote_move_def by (elim disjE conjE; simp)+

lemma phase_ok_mono:
  assumes "phase_ok t b" and "clog t' = clog t" and "writers t' = writers t" and "two_servers t' = two_servers t"
    and "\<And>p. clog t = None \<Longrightarrow> remote t p = Prepared \<Longrightarrow> remote t' p = Prepared"
  shows "phase_ok t' b"
  using assms unfolding phase_ok_def by (cases "b_phase b") (auto simp: Ball_def)

lemma remote_move_ok:
  assumes "txn_ok t" and "remote_move t p r" and "t \<noteq> fresh_txn"
    and t': "t' = t\<lparr>remote := (remote t)(p := r), net := n, reply := rep\<rparr>" and n: "n \<subseteq> net t"
    and rep: "\<And>q. rep q = Some True \<Longrightarrow> clog t = None \<Longrightarrow> (if q = p then r else remote t q) = Prepared"
  shows "txn_ok t'"
proof -
  have same: "two_servers t' = two_servers t" "clog t' = clog t" "writers t' = writers t" "inprogress t' = inprogress t" "rows t' = rows t"
    "backend t' = backend t" "local_write t' = local_write t" by (simp_all add: t' two_servers_def)
  have ok: "finite (writers t)" "net_ok t" "remote_ok t" "rows_ok t" "decided_ok t" "backend_ok t" using assms(1) by (simp_all add: txn_ok_def)
  have stays: "remote t' q = Prepared" if "clog t = None" "remote t q = Prepared" for q
    using that assms(2) by (auto simp: t' remote_move_def)
  have "net_ok t'" using ok(2) n unfolding net_ok_def same by (auto simp: t')
  moreover have "remote_ok t'" using ok(3) assms(2) rep unfolding remote_ok_def same by (auto simp: t' remote_move_def split: if_splits)
  moreover have "decided_ok t'"
    unfolding decided_ok_def same
  proof (intro impI ballI, elim conjE)
    fix q assume d: "two_servers t" "clog t = Some True" "q \<in> writers t"
    then have "remote t q = Prepared \<and> q \<in> rows t \<or> remote t q = Committed" using ok(5) unfolding decided_ok_def by blast
    with assms(2) d(2) show "remote t' q = Prepared \<and> q \<in> rows t \<or> remote t' q = Committed"
      by (cases "q = p") (auto simp: t' remote_move_def)
  qed
  moreover have "backend_ok t'"
  proof (cases "backend t")
    case None
    with ok(6) assms(3) have "clog t \<noteq> None" by (simp add: backend_ok_def)
    with None same show ?thesis by (simp add: backend_ok_def)
  next
    case (Some b)
    with ok(6) have "phase_ok t b" by (simp add: backend_ok_def)
    then have "phase_ok t' b" by (rule phase_ok_mono) (simp_all add: same stays)
    with ok(6) Some show ?thesis by (simp add: backend_ok_def same)
  qed
  ultimately show ?thesis using ok(1,4) by (simp add: txn_ok_def rows_ok_def same)
qed

lemma server_step_ok:
  assumes "server_step t t'" and "txn_ok t"
  shows "txn_ok t'"
  using assms
proof (cases rule: server_step.cases)
  case (succeeds p cmd r)
  have net: "net_ok t" "remote_ok t" "t \<noteq> fresh_txn" using assms(2) succeeds(2) by (auto simp: txn_ok_def fresh_txn_def)
  note move = executed_move [OF net(1) succeeds(2,3)]
  show ?thesis
    by (rule remote_move_ok [OF assms(2) move(1) net(3) succeeds(1)]) (use move(2) net(2) in \<open>auto simp: remote_ok_def\<close>)
next
  case (fails p cmd)
  have "remote_ok t" "t \<noteq> fresh_txn" "remote_move t p (remote t p)" using assms(2) fails(2) by (auto simp: txn_ok_def fresh_txn_def remote_move_def)
  then show ?thesis
    using fails(1) by (intro remote_move_ok [OF assms(2), where p = p and r = "remote t p" and n = "net t - {(p, cmd)}" and rep = "(reply t)(p := Some False)"])
      (auto simp: remote_ok_def)
next
  case (lost p cmd)
  have "remote_ok t" "t \<noteq> fresh_txn" "remote_move t p (remote t p)" using assms(2) lost(2) by (auto simp: txn_ok_def fresh_txn_def remote_move_def)
  then show ?thesis
    using lost(1) by (intro remote_move_ok [OF assms(2), where p = p and r = "remote t p" and n = "net t - {(p, cmd)}" and rep = "reply t"]) (auto simp: remote_ok_def)
next
  case (silent p cmd r)
  have net: "net_ok t" "remote_ok t" "t \<noteq> fresh_txn" using assms(2) silent(2) by (auto simp: txn_ok_def fresh_txn_def)
  note move = executed_move [OF net(1) silent(2,3)]
  show ?thesis
    using silent(1) move net by (intro remote_move_ok [OF assms(2) move(1), where n = "net t - {(p, cmd)}" and rep = "reply t"]) (auto simp: remote_ok_def)
next
  case (disconnected p)
  have "remote_ok t" "t \<noteq> fresh_txn" "remote_move t p RolledBack" using assms(2) disconnected(2) by (auto simp: txn_ok_def fresh_txn_def remote_move_def)
  moreover have "remote t q = Prepared" if "reply t q = Some True" "clog t = None" for q
    using \<open>remote_ok t\<close> that unfolding remote_ok_def by blast
  ultimately show ?thesis
    using disconnected by (intro remote_move_ok [OF assms(2), where p = p and r = RolledBack and n = "net t" and rep = "reply t"]) force+
qed

text \<open>A step that only changes the backend, and the sending of a command.\<close>

definition backend_fits :: "txn \<Rightarrow> backend \<Rightarrow> bool" where
  "backend_fits t b \<longleftrightarrow> distinct (map fst (b_conns b)) \<and> LocalServerWrite b = local_write t \<and>
    (gid_set b \<longrightarrow> inprogress t \<and> two_servers t) \<and> set (b_records b) \<subseteq> writers t \<and>
    (b_records b \<noteq> [] \<longrightarrow> two_servers t) \<and> (inprogress t \<longrightarrow> gid_set b)"

lemma backend_okD: "txn_ok t \<Longrightarrow> backend t = Some b \<Longrightarrow> backend_fits t b \<and> phase_ok t b"
  by (auto simp: txn_ok_def backend_ok_def backend_fits_def)

lemma phase_ok_backend [simp]: "phase_ok (t\<lparr>backend := x\<rparr>) b = phase_ok t b"
  by (cases "b_phase b") (simp_all add: phase_ok_def two_servers_def)

lemma goes_ok:
  assumes "txn_ok t" and "backend_fits t b" and "phase_ok t (b\<lparr>b_phase := ph\<rparr>)"
  shows "txn_ok (goes b ph t)"
  using assms
  by (simp add: txn_ok_def goes_def backend_ok_def backend_fits_def txn_parts two_servers_def)

lemma phase_ok_set [simp]:
  "phase_ok t (b\<lparr>b_phase := PreCommit\<rparr>) = (clog t = None \<and> \<not> gid_set b \<and> b_records b = [] \<and> write_conns b = writers t)"
  "phase_ok t (b\<lparr>b_phase := SendPrepare i\<rparr>) = (clog t = None \<and> gid_set b \<and> b_records b = [] \<and> write_conns b = writers t)"
  "phase_ok t (b\<lparr>b_phase := SendCommit i\<rparr>) = (clog t = Some True)"
  "phase_ok t (b\<lparr>b_phase := FetchCommit i\<rparr>) = (clog t = Some True)"
  "phase_ok t (b\<lparr>b_phase := SendRollback i\<rparr>) = (clog t = Some False)"
  "phase_ok t (b\<lparr>b_phase := FetchRollback i\<rparr>) = (clog t = Some False)"
  "phase_ok t (b\<lparr>b_phase := ClearGid\<rparr>) = (clog t \<noteq> None)"
  by (simp_all add: phase_ok_def write_conns_def)

lemma phase_ok_at:
  assumes "phase_ok t b"
  shows "b_phase b = PreCommit \<Longrightarrow> clog t = None \<and> \<not> gid_set b \<and> b_records b = [] \<and> write_conns b = writers t"
    "b_phase b = SendPrepare i \<Longrightarrow> clog t = None \<and> gid_set b \<and> b_records b = [] \<and> write_conns b = writers t"
    "b_phase b = SendCommit i \<Longrightarrow> clog t = Some True" "b_phase b = FetchCommit i \<Longrightarrow> clog t = Some True"
    "b_phase b = SendRollback i \<Longrightarrow> clog t = Some False" "b_phase b = FetchRollback i \<Longrightarrow> clog t = Some False"
    "b_phase b = ClearGid \<Longrightarrow> clog t \<noteq> None"
  using assms by (simp_all add: phase_ok_def)

lemma send_ok:
  assumes "txn_ok t" and "t \<noteq> fresh_txn"
    and "cmd \<in> {CMD_COMMIT, CMD_COMMIT_PREPARED} \<Longrightarrow> clog t = Some True" and "cmd \<in> {CMD_ROLLBACK, CMD_ROLLBACK_PREPARED} \<Longrightarrow> clog t = Some False"
    and "cmd = CMD_PREPARE \<Longrightarrow> two_servers t \<and> (inprogress t \<or> clog t \<noteq> None)"
  shows "txn_ok (send p cmd t)"
proof -
  have same: "two_servers (send p cmd t) = two_servers t" by (simp add: send_def two_servers_def)
  have phase: "phase_ok (send p cmd t) b = phase_ok t b" for b by (cases "b_phase b") (simp_all add: phase_ok_def same, simp_all add: send_def)
  have "net_ok (send p cmd t)"
    using assms unfolding txn_ok_def net_ok_def same by (cases cmd) (auto simp: send_def)
  moreover have "remote_ok (send p cmd t)" using assms(1) unfolding txn_ok_def remote_ok_def same by (simp add: send_def)
  moreover have "backend_ok (send p cmd t)"
    using assms(1,2) unfolding txn_ok_def backend_ok_def same phase by (cases "backend t") (simp_all add: send_def)
  ultimately show ?thesis using assms(1) unfolding txn_ok_def rows_ok_def decided_ok_def same by (simp add: send_def)
qed

lemma goes_send: "goes b ph (send p cmd t) = send p cmd (goes b ph t)"
  by (simp add: goes_def send_def)

lemma goes_simps [simp]: "clog (goes b ph t) = clog t" "inprogress (goes b ph t) = inprogress t" "goes b ph t \<noteq> fresh_txn"
  "two_servers (goes b ph t) = two_servers t"
  by (simp_all add: goes_def fresh_txn_def two_servers_def, cases t, auto)

lemma goes_send_ok:
  assumes "txn_ok t" and "backend_fits t b" and "phase_ok t (b\<lparr>b_phase := ph\<rparr>)"
    and "cmd \<in> {CMD_COMMIT, CMD_COMMIT_PREPARED} \<Longrightarrow> clog t = Some True" and "cmd \<in> {CMD_ROLLBACK, CMD_ROLLBACK_PREPARED} \<Longrightarrow> clog t = Some False"
    and "cmd = CMD_PREPARE \<Longrightarrow> two_servers t \<and> (inprogress t \<or> clog t \<noteq> None)"
  shows "txn_ok (goes b ph (send p cmd t))"
  unfolding goes_send by (rule send_ok [OF goes_ok [OF assms(1-3)]]) (use assms(4-6) in auto)

lemma set_conn_state_servers: "i < length (b_conns b) \<Longrightarrow> map fst (b_conns (set_conn_state i st b)) = map fst (b_conns b)"
  by (rule nth_equalityI) (auto simp: set_conn_state_def nth_list_update conn_server_def)

lemma set_conn_state_simps [simp]:
  "length (b_conns (set_conn_state i st b)) = length (b_conns b)" "b_records (set_conn_state i st b) = b_records b"
  "gid_set (set_conn_state i st b) = gid_set b" "LocalServerWrite (set_conn_state i st b) = LocalServerWrite b"
  by (simp_all add: set_conn_state_def)

lemma fits_conn_state: "backend_fits t b \<Longrightarrow> i < length (b_conns b) \<Longrightarrow> backend_fits t (set_conn_state i st b)"
  by (simp add: backend_fits_def set_conn_state_servers)

lemma need2pc_iff:
  assumes "backend_fits t b" and "write_conns b = writers t"
  shows "need2pc b \<longleftrightarrow> two_servers t"
proof -
  let ?ws = "filter (\<lambda>(_, st). st = FALCON_REMOTE_TRANSACTION_BEGIN_FOR_WRITE) (b_conns b)"
  have "distinct (map fst ?ws)" using assms(1) by (simp add: backend_fits_def distinct_map_filter)
  moreover have "set (map fst ?ws) = write_conns b" by (auto simp: write_conns_def image_iff)
  ultimately have "card (writers t) = length ?ws" using distinct_card [of "map fst ?ws"] assms(2) by simp
  then show ?thesis
    using assms(1) by (auto simp: need2pc_def two_servers_def write_server_count_def backend_fits_def)
qed

text \<open>The fetch loop of the prepare phase.\<close>

lemma phase_ok_fetch [simp]:
  "phase_ok t (b\<lparr>b_phase := FetchPrepare i err\<rparr>) \<longleftrightarrow> clog t = None \<and> gid_set b \<and> i \<le> length (b_conns b) \<and>
    writers t \<subseteq> fst ` set (b_conns b) \<and>
    (\<forall>j < length (b_conns b). i \<le> j \<and> conn_state b j \<noteq> FALCON_REMOTE_TRANSACTION_BEGIN_FOR_WRITE \<longrightarrow> conn_server b j \<notin> writers t) \<and>
    (\<not> err \<longrightarrow> (\<forall>j < i. conn_server b j \<in> writers t \<longrightarrow> remote t (conn_server b j) = Prepared \<and> conn_server b j \<in> set (b_records b)))"
  by (simp add: phase_ok_def conn_state_def conn_server_def)

lemma phase_ok_at_fetch:
  assumes "phase_ok t b" and "b_phase b = FetchPrepare i err"
  shows "clog t = None \<and> gid_set b \<and> i \<le> length (b_conns b) \<and> writers t \<subseteq> fst ` set (b_conns b)"
    and "j < length (b_conns b) \<Longrightarrow> i \<le> j \<Longrightarrow> conn_state b j \<noteq> FALCON_REMOTE_TRANSACTION_BEGIN_FOR_WRITE \<Longrightarrow> conn_server b j \<notin> writers t"
    and "\<not> err \<Longrightarrow> j < i \<Longrightarrow> conn_server b j \<in> writers t \<Longrightarrow> remote t (conn_server b j) = Prepared \<and> conn_server b j \<in> set (b_records b)"
  using assms by (simp_all add: phase_ok_def)

lemma conn_in_writers:
  assumes "backend_fits t b" and "write_conns b = writers t" and "j < length (b_conns b)"
  shows "conn_server b j \<in> writers t \<longleftrightarrow> conn_state b j = FALCON_REMOTE_TRANSACTION_BEGIN_FOR_WRITE"
proof -
  have d: "distinct (map fst (b_conns b))" using assms(1) by (simp add: backend_fits_def)
  have j: "(conn_server b j, conn_state b j) \<in> set (b_conns b)" using assms(3) by (simp add: conn_server_def conn_state_def)
  have "(conn_server b j, FALCON_REMOTE_TRANSACTION_BEGIN_FOR_WRITE) \<in> set (b_conns b) \<longleftrightarrow> conn_state b j = FALCON_REMOTE_TRANSACTION_BEGIN_FOR_WRITE"
    using eq_key_imp_eq_value [OF d j] j by metis
  then show ?thesis by (simp add: assms(2) [symmetric] write_conns_def)
qed

lemma writers_in_conns: "write_conns b = writers t \<Longrightarrow> writers t \<subseteq> fst ` set (b_conns b)"
  by (force simp: write_conns_def)

lemma fetch_prepared_ok:
  assumes "txn_ok t" and "backend t = Some b" and "b_phase b = FetchPrepare i err" and "i < length (b_conns b)"
    and "conn_state b i = FALCON_REMOTE_TRANSACTION_BEGIN_FOR_WRITE" and "reply t (conn_server b i) = Some True"
  shows "txn_ok (goes (Write2PCRecord (conn_server b i) (set_conn_state i FALCON_REMOTE_TRANSACTION_PREPARE b)) (FetchPrepare (Suc i) err) t)"
proof -
  let ?c = "set_conn_state i FALCON_REMOTE_TRANSACTION_PREPARE b" and ?b = "Write2PCRecord (conn_server b i) (set_conn_state i FALCON_REMOTE_TRANSACTION_PREPARE b)"
  from backend_okD [OF assms(1,2)] have b: "backend_fits t b" "phase_ok t b" by simp_all
  note at = phase_ok_at_fetch [OF b(2) assms(3)]
  have prep: "remote t (conn_server b i) = Prepared" "conn_server b i \<in> writers t"
    using assms(1,6) at(1) unfolding txn_ok_def remote_ok_def by auto
  have c: "conn_server ?c j = conn_server b j" "j \<noteq> i \<Longrightarrow> conn_state ?c j = conn_state b j" if "j < length (b_conns b)" for j
    using that assms(4) by (simp_all add: conn_server_def conn_state_def set_conn_state_def nth_list_update)
  have conns: "b_conns ?b = b_conns ?c" "length (b_conns ?c) = length (b_conns b)"
    "b_records ?b = b_records b @ [conn_server b i]" "gid_set ?b = gid_set b" "conn_server ?b = conn_server ?c" "conn_state ?b = conn_state ?c"
    by (simp_all add: Write2PCRecord_def fun_eq_iff conn_server_def conn_state_def)
  have servers: "fst ` set (b_conns ?c) = fst ` set (b_conns b)"
    using arg_cong [OF set_conn_state_servers [OF assms(4), of FALCON_REMOTE_TRANSACTION_PREPARE], of set] by simp
  have fits: "backend_fits t ?b"
    using fits_conn_state [OF b(1) assms(4)] prep(2) at(1) unfolding backend_fits_def conns by (simp add: Write2PCRecord_def)
  have "phase_ok t (?b\<lparr>b_phase := FetchPrepare (Suc i) err\<rparr>)"
    unfolding phase_ok_fetch conns servers
  proof (intro conjI impI allI)
    show "conn_server ?c j \<notin> writers t"
      if "j < length (b_conns b)" "Suc i \<le> j \<and> conn_state ?c j \<noteq> FALCON_REMOTE_TRANSACTION_BEGIN_FOR_WRITE" for j
      using that c [of j] at(2) [of j] by simp
    have "remote t (conn_server ?c j) = Prepared \<and> conn_server ?c j \<in> set (b_records b @ [conn_server b i])"
      if "\<not> err" "j < Suc i" "conn_server ?c j \<in> writers t" for j
      using that c(1) [of j] at(3) [of j] assms(4) prep(1) by (cases "j = i") simp_all
    then show "remote t (conn_server ?c j) = Prepared" "conn_server ?c j \<in> set (b_records b @ [conn_server b i])"
      if "\<not> err" "j < Suc i" "conn_server ?c j \<in> writers t" for j
      using that by blast+
  qed (use at(1) assms(4) in simp_all)
  from goes_ok [OF assms(1) fits this] show ?thesis .
qed

text \<open>The steps of the loop that only go past a connection, and the end of the loop.\<close>

lemma fetch_next_ok:
  assumes "txn_ok t" and "backend t = Some b" and "b_phase b = FetchPrepare i err" and "i < length (b_conns b)"
    and "err' \<or> \<not> err \<and> conn_state b i \<noteq> FALCON_REMOTE_TRANSACTION_BEGIN_FOR_WRITE"
  shows "txn_ok (goes b (FetchPrepare (Suc i) err') t)"
proof -
  from backend_okD [OF assms(1,2)] have b: "backend_fits t b" "phase_ok t b" by simp_all
  note at = phase_ok_at_fetch [OF b(2) assms(3)]
  have past: "remote t (conn_server b j) = Prepared \<and> conn_server b j \<in> set (b_records b)"
    if "\<not> err'" "j < Suc i" "conn_server b j \<in> writers t" for j
    using that at(2) [of i] at(3) [of j] assms(4,5) by (cases "j = i") auto
  have "phase_ok t (b\<lparr>b_phase := FetchPrepare (Suc i) err'\<rparr>)"
    unfolding phase_ok_fetch using at(1) at(2) assms(4) past by (simp add: Suc_le_eq)
  from goes_ok [OF assms(1) b(1) this] show ?thesis .
qed

lemma phase_ok_local_commit [simp]:
  "phase_ok t (b\<lparr>b_phase := LocalCommit\<rparr>) \<longleftrightarrow> clog t = None \<and>
    (two_servers t \<longrightarrow> gid_set b \<and> (\<forall>p\<in>writers t. remote t p = Prepared \<and> p \<in> set (b_records b)))"
  by (simp add: phase_ok_def)

lemma fetch_done_ok:
  assumes "txn_ok t" and "backend t = Some b" and "b_phase b = FetchPrepare (length (b_conns b)) False"
  shows "txn_ok (goes b LocalCommit t)"
proof -
  from backend_okD [OF assms(1,2)] have b: "backend_fits t b" "phase_ok t b" by simp_all
  note at = phase_ok_at_fetch [OF b(2) assms(3)]
  have "remote t p = Prepared \<and> p \<in> set (b_records b)" if p: "p \<in> writers t" for p
  proof -
    from p at(1) obtain j where "j < length (b_conns b)" "conn_server b j = p"
      by (auto simp: conn_server_def in_set_conv_nth dest!: subsetD) 
    with at(3) [of j] p show ?thesis by simp
  qed
  with at(1) have "phase_ok t (b\<lparr>b_phase := LocalCommit\<rparr>)" by simp
  from goes_ok [OF assms(1) b(1) this] show ?thesis .
qed

text \<open>The decision.\<close>

lemma local_commit_ok:
  assumes "txn_ok t" and "backend t = Some b" and "b_phase b = LocalCommit"
  shows "txn_ok (goes b (SendCommit 0) (t\<lparr>clog := Some True, rows := rows t \<union> set (b_records b)\<rparr>))" (is "txn_ok ?t")
proof -
  from backend_okD [OF assms(1,2)] have b: "backend_fits t b" "phase_ok t b" by simp_all
  then have at: "clog t = None" "two_servers t \<longrightarrow> (\<forall>p\<in>writers t. remote t p = Prepared \<and> p \<in> set (b_records b))"
    using assms(3) by (simp_all add: phase_ok_def)
  have ok: "finite (writers t)" "net_ok t" "remote_ok t" "rows_ok t" using assms(1) by (simp_all add: txn_ok_def)
  have same: "two_servers ?t = two_servers t" "clog ?t = Some True" "writers ?t = writers t" "remote ?t = remote t" "net ?t = net t"
    "rows ?t = rows t \<union> set (b_records b)" by (simp_all add: goes_def two_servers_def)
  have "net_ok ?t" using ok(2) at(1) unfolding net_ok_def same by auto
  moreover have "remote_ok ?t" using ok(3) unfolding remote_ok_def same by auto
  moreover have "rows_ok ?t" using ok(4) b(1) unfolding rows_ok_def backend_fits_def same by auto
  moreover have "decided_ok ?t" using at(2) unfolding decided_ok_def same by auto
  moreover have "backend_ok ?t"
    using b(1) unfolding backend_ok_def backend_fits_def by (simp add: goes_def phase_ok_def two_servers_def)
  ultimately show ?thesis using ok(1) by (simp add: txn_ok_def same)
qed

lemma abort_ok:
  assumes "txn_ok t" and "backend t = Some b" and "undecided (b_phase b)"
  shows "txn_ok (goes b (SendRollback 0) (t\<lparr>clog := Some False\<rparr>))" (is "txn_ok ?t")
proof -
  from backend_okD [OF assms(1,2)] have b: "backend_fits t b" "phase_ok t b" by simp_all
  then have at: "clog t = None" using assms(3) by (cases "b_phase b") (simp_all add: phase_ok_def)
  have ok: "finite (writers t)" "net_ok t" "remote_ok t" "rows_ok t" using assms(1) by (simp_all add: txn_ok_def)
  have same: "two_servers ?t = two_servers t" "clog ?t = Some False" "writers ?t = writers t" "remote ?t = remote t" "net ?t = net t"
    "rows ?t = rows t" by (simp_all add: goes_def two_servers_def)
  have "net_ok ?t" using ok(2) at(1) unfolding net_ok_def same by auto
  moreover have "remote_ok ?t" using ok(3) at unfolding remote_ok_def same by auto
  moreover have "rows_ok ?t" using ok(4) at unfolding rows_ok_def same by auto
  moreover have "decided_ok ?t" unfolding decided_ok_def same by simp
  moreover have "backend_ok ?t"
    using b(1) unfolding backend_ok_def backend_fits_def by (simp add: goes_def phase_ok_def two_servers_def)
  ultimately show ?thesis using ok(1) by (simp add: txn_ok_def same)
qed

lemma clear_gid_ok:
  assumes "txn_ok t" and "backend t = Some b" and "b_phase b = ClearGid"
  shows "txn_ok ((if gid_set b then RemoveInprogressTransaction t else t)\<lparr>backend := None\<rparr>)" (is "txn_ok ?t")
proof -
  from backend_okD [OF assms(1,2)] obtain d where at: "clog t = Some d" using phase_ok_at(7) assms(3) by blast
  have ok: "finite (writers t)" "net_ok t" "remote_ok t" "rows_ok t" "decided_ok t" using assms(1) by (simp_all add: txn_ok_def)
  have same: "two_servers ?t = two_servers t" "clog ?t = clog t" "writers ?t = writers t" "remote ?t = remote t" "net ?t = net t"
    "rows ?t = rows t" "reply ?t = reply t" "backend ?t = None" by (simp_all add: RemoveInprogressTransaction_def two_servers_def)
  show ?thesis
    using ok at unfolding txn_ok_def txn_parts backend_ok_def same by simp
qed

lemma prepare_begin_ok:
  assumes "txn_ok t" and "backend t = Some b" and "b_phase b = PreCommit" and "need2pc b" and "AddInprogressTransaction t = Inr u"
  shows "txn_ok (goes (b\<lparr>gid_set := True\<rparr>) (SendPrepare 0) u)" (is "txn_ok ?t")
proof -
  from backend_okD [OF assms(1,2)] have b: "backend_fits t b" "phase_ok t b" by simp_all
  note at = phase_ok_at(1) [OF b(2) assms(3)]
  with need2pc_iff [OF b(1)] assms(4) have two: "two_servers t" by simp
  have u: "u = t\<lparr>inprogress := True\<rparr>" using assms(5) by (simp add: AddInprogressTransaction_def split: if_splits)
  have ok: "finite (writers t)" "net_ok t" "remote_ok t" "rows_ok t" "decided_ok t" using assms(1) by (simp_all add: txn_ok_def)
  have same: "two_servers ?t = two_servers t" "clog ?t = clog t" "writers ?t = writers t" "remote ?t = remote t" "net ?t = net t"
    "rows ?t = rows t" "reply ?t = reply t" "inprogress ?t = True" by (simp_all add: u goes_def two_servers_def)
  have "net_ok ?t" "remote_ok ?t" "rows_ok ?t" "decided_ok ?t" using ok two unfolding txn_parts same by simp_all
  moreover have "backend_ok ?t"
    using b(1) at two unfolding backend_ok_def backend_fits_def by (simp add: u goes_def phase_ok_def two_servers_def write_conns_def)
  ultimately show ?thesis using ok(1) by (simp add: txn_ok_def same)
qed

lemma backend_at:
  assumes "txn_ok t" and "backend t = Some b"
  shows "backend_fits t b"
    "b_phase b = SendPrepare i \<Longrightarrow> clog t = None \<and> gid_set b \<and> b_records b = [] \<and> write_conns b = writers t \<and> inprogress t \<and> two_servers t"
    "b_phase b = SendCommit i \<Longrightarrow> clog t = Some True" "b_phase b = FetchCommit i \<Longrightarrow> clog t = Some True"
    "b_phase b = SendRollback i \<Longrightarrow> clog t = Some False" "b_phase b = FetchRollback i \<Longrightarrow> clog t = Some False"
  using backend_okD [OF assms] by (auto simp: phase_ok_def backend_fits_def)

lemma decided_commands:
  "commit_command st = Some cmd \<Longrightarrow> cmd \<in> {CMD_COMMIT, CMD_COMMIT_PREPARED}"
  "rollback_command st = Some cmd \<Longrightarrow> cmd \<in> {CMD_ROLLBACK, CMD_ROLLBACK_PREPARED}"
  by (cases st; simp)+

lemma backend_step_ok:
  assumes "backend_step False t t'" and "txn_ok t"
  shows "txn_ok t'"
  using assms(1)
proof (cases rule: backend_step.cases)
  case (prepare_not_needed b)
  note b = backend_okD [OF assms(2) prepare_not_needed(2)]
  with phase_ok_at(1) [of t b] need2pc_iff [of t b] prepare_not_needed(3,4)
  have "phase_ok t (b\<lparr>b_phase := LocalCommit\<rparr>)" by simp
  with b prepare_not_needed(1) goes_ok [OF assms(2)] show ?thesis by blast
next
  case (prepare_begin b u)
  with prepare_begin_ok [OF assms(2)] show ?thesis by blast
next
  case (prepare_send b i)
  with backend_at(1,2) [OF assms(2) prepare_send(2)] show ?thesis unfolding prepare_send(1) by (intro goes_send_ok [OF assms(2)]) auto
next
  case (prepare_send_none b i)
  with backend_at(1,2) [OF assms(2)] show ?thesis by (auto intro!: goes_ok assms(2))
next
  case (prepare_sent b)
  note b = backend_at(1,2) [OF assms(2) prepare_sent(2)]
  with conn_in_writers [of t b] writers_in_conns [of b t] prepare_sent(3) show ?thesis
    unfolding prepare_sent(1) by (intro goes_ok [OF assms(2)]) simp_all
next
  case (prepare_fetch_none b i err)
  then show ?thesis using fetch_next_ok [OF assms(2), of b i err err] by blast
next
  case (prepare_fetch_ok b i err)
  then show ?thesis using fetch_prepared_ok [OF assms(2)] by blast
next
  case (prepare_fetch_error b i err)
  then show ?thesis using fetch_next_ok [OF assms(2), of b i err True] by blast
next
  case (prepare_done b)
  then show ?thesis using fetch_done_ok [OF assms(2)] by blast
next
  case (local_commit b)
  then show ?thesis using local_commit_ok [OF assms(2)] by blast
next
  case (commit_send b i cmd)
  with backend_at(1,3) [OF assms(2) commit_send(2)] decided_commands(1) [OF commit_send(5)] show ?thesis
    unfolding commit_send(1) by (intro goes_send_ok [OF assms(2)]) auto
next
  case (abort b)
  then show ?thesis using abort_ok [OF assms(2)] by blast
next
  case (abort_send b i cmd)
  with backend_at(1,5) [OF assms(2) abort_send(2)] decided_commands(2) [OF abort_send(5)] show ?thesis
    unfolding abort_send(1) by (intro goes_send_ok [OF assms(2)]) auto
next
  case (clear_gid b)
  then show ?thesis using clear_gid_ok [OF assms(2)] by blast
qed (use backend_at [OF assms(2)] in \<open>auto intro!: goes_ok fits_conn_state assms(2)\<close>)

text \<open>The remaining steps that touch a transaction: a crash and the removal of a row.\<close>

lemma crashed_ok:
  assumes "txn_ok t"
  shows "txn_ok (crashed t)"
proof (cases "t = fresh_txn")
  case False
  have same: "two_servers (crashed t) = two_servers t" "writers (crashed t) = writers t" "remote (crashed t) = remote t" "net (crashed t) = net t"
    "rows (crashed t) = rows t" "backend (crashed t) = None" "clog (crashed t) = Some (clog t = Some True)" "reply (crashed t) = (\<lambda>_. None)"
    using False by (simp_all add: crashed_def two_servers_def)
  have ok: "finite (writers t)" "net_ok t" "remote_ok t" "rows_ok t" "decided_ok t" using assms by (simp_all add: txn_ok_def)
  have "net_ok (crashed t)" using ok(2) unfolding net_ok_def same by auto
  moreover have "remote_ok (crashed t)" using ok(3) unfolding remote_ok_def same by auto
  moreover have "rows_ok (crashed t)" "decided_ok (crashed t)" using ok(4,5) unfolding rows_ok_def decided_ok_def same by auto
  ultimately show ?thesis using ok(1) by (simp add: txn_ok_def backend_ok_def same)
qed (simp add: crashed_def fresh_txn_ok)

lemma remove_rows_ok:
  assumes "txn_ok t" and "\<And>p. p \<in> X \<Longrightarrow> clog t = Some True \<and> remote t p = Committed"
  shows "txn_ok (t\<lparr>rows := rows t - X\<rparr>)" (is "txn_ok ?t")
proof (cases "X = {}")
  case False
  then have clog: "clog t = Some True" using assms(2) by blast
  have same: "two_servers ?t = two_servers t" by (simp add: two_servers_def)
  have phase: "phase_ok ?t b = phase_ok t b" for b by (cases "b_phase b") (simp_all add: phase_ok_def same)
  have ok: "finite (writers t)" "net_ok t" "remote_ok t" "rows_ok t" "decided_ok t" "backend_ok t" using assms by (simp_all add: txn_ok_def)
  have "net_ok ?t" "remote_ok ?t" using ok(2,3) unfolding net_ok_def remote_ok_def same by simp_all
  moreover have "rows_ok ?t" "decided_ok ?t" using ok(4,5) assms(2) unfolding rows_ok_def decided_ok_def same by auto
  moreover have "backend_ok ?t" using ok(6) clog unfolding backend_ok_def same phase by (cases "backend t") simp_all
  ultimately show ?thesis using ok(1) by (simp add: txn_ok_def)
qed (use assms(1) in simp)

subsection \<open>What the cleanup can rely on\<close>

text \<open>What every step but the removal of a row keeps of a transaction.\<close>

definition follows :: "txn \<Rightarrow> txn \<Rightarrow> bool" where
  "follows t t' \<longleftrightarrow> (inprogress t \<or> clog t \<noteq> None \<longrightarrow> writers t' = writers t \<and> local_write t' = local_write t \<and> (inprogress t' \<or> clog t' \<noteq> None)) \<and>
    (clog t \<noteq> None \<longrightarrow> clog t' = clog t) \<and> rows t \<subseteq> rows t' \<and> (\<forall>p. remote t p = Committed \<longrightarrow> remote t' p = Committed) \<and>
    (clog t = None \<and> clog t' = Some True \<and> two_servers t' \<longrightarrow> writers t' \<subseteq> rows t')"

lemma follows_refl: "follows t t"
  by (auto simp: follows_def)

lemma follows_send: "follows t (send p cmd t)"
  by (auto simp: follows_def send_def)

lemma follows_goes [simp]: "follows t (goes b ph t)"
  by (auto simp: follows_def goes_def)

lemma server_step_follows: "server_step t t' \<Longrightarrow> follows t t'"
  by (induction rule: server_step.induct) (auto simp: follows_def executed_iff)

lemma backend_step_follows:
  assumes "backend_step False t t'" and "txn_ok t"
  shows "follows t t'"
  using assms(1)
proof (cases rule: backend_step.cases)
  case (prepare_begin b u)
  then show ?thesis by (auto simp: follows_def goes_def AddInprogressTransaction_def split: if_splits)
next
  case (local_commit b)
  note b = backend_okD [OF assms(2) local_commit(2)]
  with local_commit(3) have "clog t = None" "two_servers t \<longrightarrow> (\<forall>p\<in>writers t. p \<in> set (b_records b))" by (simp_all add: phase_ok_def)
  then show ?thesis unfolding local_commit(1) by (auto simp: follows_def goes_def two_servers_def)
next
  case (abort b)
  note b = backend_okD [OF assms(2) abort(2)]
  with abort(3) have "clog t = None" by (cases "b_phase b") (simp_all add: phase_ok_def)
  then show ?thesis unfolding abort(1) by (auto simp: follows_def goes_def)
next
  case (clear_gid b)
  note b = backend_okD [OF assms(2) clear_gid(2)]
  with clear_gid(3) have "clog t \<noteq> None" by (simp add: phase_ok_def)
  then show ?thesis unfolding clear_gid(1) by (auto simp: follows_def RemoveInprogressTransaction_def)
qed (auto simp: follows_def goes_def send_def)

text \<open>
  What is known of a transaction that was prepared at \<open>p\<close>, of one with a row for \<open>p\<close>, and of one
  that is to be rolled back.
\<close>

definition was_prepared :: "int \<Rightarrow> txn \<Rightarrow> bool" where
  "was_prepared p t \<longleftrightarrow> two_servers t \<and> p \<in> writers t \<and> (inprogress t \<or> clog t \<noteq> None) \<and> (clog t = Some True \<longrightarrow> p \<in> rows t)"

definition had_row :: "int \<Rightarrow> txn \<Rightarrow> bool" where
  "had_row p t \<longleftrightarrow> two_servers t \<and> p \<in> writers t \<and> clog t = Some True"

lemma follows_keeps:
  assumes "follows t t'"
  shows "was_prepared p t \<Longrightarrow> was_prepared p t'" "had_row p t \<Longrightarrow> had_row p t'" "clog t = Some d \<Longrightarrow> clog t' = Some d"
    "remote t p = Committed \<Longrightarrow> remote t' p = Committed"
proof -
  have two: "inprogress t \<or> clog t \<noteq> None \<Longrightarrow> two_servers t' = two_servers t" using assms by (simp add: follows_def two_servers_def)
  show "was_prepared p t \<Longrightarrow> was_prepared p t'" "had_row p t \<Longrightarrow> had_row p t'"
    using assms two unfolding was_prepared_def had_row_def follows_def by auto
qed (use assms in \<open>auto simp: follows_def\<close>)

definition cleaner_ok :: "deleted \<Rightarrow> txns \<Rightarrow> cleaner \<Rightarrow> bool" where
  "cleaner_ok del ts c = (case c of
      Sleeping \<Rightarrow> True
    | HasA p A \<Rightarrow> \<forall>g\<in>A. was_prepared p (ts g) \<and> (g, p) \<notin> del
    | HasB p A B \<Rightarrow> \<forall>g\<in>A. was_prepared p (ts g) \<and> (g, p) \<notin> del \<and> (g \<notin> B \<longrightarrow> (\<exists>d. clog (ts g) = Some d))
    | HasC p A B C \<Rightarrow> (\<forall>g\<in>A - set C - B. clog (ts g) = Some False) \<and> (\<forall>g\<in>set C. had_row p (ts g))
    | Records p A B C D \<Rightarrow> (\<forall>g\<in>A - set C - B. clog (ts g) = Some False) \<and>
        (\<forall>g\<in>set C. had_row p (ts g) \<and> (g \<notin> D \<longrightarrow> remote (ts g) p = Committed))
    | Rest p B todo \<Rightarrow> \<forall>g\<in>set todo - B. clog (ts g) = Some False)"

lemma cleaner_ok_mono:
  assumes "cleaner_ok del ts c" and "\<And>g. inprogress (ts g) \<or> clog (ts g) \<noteq> None \<Longrightarrow> follows (ts g) (ts' g)"
  shows "cleaner_ok del ts' c"
proof -
  have "was_prepared p (ts' g)" if "was_prepared p (ts g)" for p g
    using that by (intro follows_keeps(1) [OF assms(2)]) (auto simp: was_prepared_def)
  moreover have "had_row p (ts' g) \<and> (remote (ts g) p = Committed \<longrightarrow> remote (ts' g) p = Committed)" if "had_row p (ts g)" for p g
  proof -
    from that have "follows (ts g) (ts' g)" by (intro assms(2)) (simp add: had_row_def)
    with that show ?thesis using follows_keeps(2,4) by blast
  qed
  moreover have "clog (ts' g) = Some d" if "clog (ts g) = Some d" for g d
    using that follows_keeps(3) [OF assms(2)] by simp
  ultimately show ?thesis using assms(1) unfolding cleaner_ok_def by (cases c) (simp_all, blast+)
qed

subsection \<open>Invariant of the system\<close>

text \<open>Names that are not of this coordinator: it does nothing with them.\<close>

definition foreign_ok :: "int \<Rightarrow> string \<Rightarrow> txn \<Rightarrow> bool" where
  "foreign_ok localId g t \<longleftrightarrow> rows t = {} \<and> \<not> inprogress t \<and> clog t = None \<and> backend t = None \<and>
    (like (own_pattern localId) g \<longrightarrow> (\<forall>p. remote t p = Idle))"

definition deleted_ok :: "deleted \<Rightarrow> txns \<Rightarrow> bool" where
  "deleted_ok del ts \<longleftrightarrow> (\<forall>(g, p)\<in>del. clog (ts g) = Some True \<and> remote (ts g) p = Committed)"

definition tpc_ok :: "int \<Rightarrow> tpc \<Rightarrow> bool" where
  "tpc_ok localId s \<longleftrightarrow> (\<forall>g. if own localId g then txn_ok (txns s g) else foreign_ok localId g (txns s g)) \<and>
    cleaner_ok (deleted s) (txns s) (cleaner s) \<and> deleted_ok (deleted s) (txns s)"

lemma tpc_okD:
  assumes "tpc_ok localId s"
  shows "own localId g \<Longrightarrow> txn_ok (txns s g)" "\<not> own localId g \<Longrightarrow> foreign_ok localId g (txns s g)"
    "cleaner s = c \<Longrightarrow> cleaner_ok (deleted s) (txns s) c" "deleted_ok (deleted s) (txns s)"
  using assms by (auto simp: tpc_ok_def dest!: spec [of _ g])

lemma own_like: "own localId g \<Longrightarrow> like (own_pattern localId) g"
  by (auto simp: own_def like_own_pattern)

lemma own_clog: "tpc_ok localId s \<Longrightarrow> clog (txns s g) = Some d \<Longrightarrow> own localId g"
  using tpc_okD(2) [of localId s g] by (auto simp: foreign_ok_def)

lemma deleted_ok_mono:
  assumes "deleted_ok del ts" and "\<And>g. clog (ts g) \<noteq> None \<Longrightarrow> follows (ts g) (ts' g)"
  shows "deleted_ok del ts'"
proof -
  have "clog (ts' g) = Some True \<and> remote (ts' g) p = Committed" if "clog (ts g) = Some True" "remote (ts g) p = Committed" for g p
    using follows_keeps(3,4) [OF assms(2) [of g]] that by (metis option.discI)
  with assms(1) show ?thesis unfolding deleted_ok_def by blast
qed

text \<open>A step on one transaction.\<close>

lemma tpc_ok_upd:
  assumes "tpc_ok localId s" and "own localId g" and "txn_ok t" and "follows (txns s g) t"
  shows "tpc_ok localId (s\<lparr>txns := (txns s)(g := t)\<rparr>)"
proof -
  have "follows (txns s h) (((txns s)(g := t)) h)" for h using assms(4) follows_refl by simp
  with cleaner_ok_mono [OF tpc_okD(3) [OF assms(1) refl]] deleted_ok_mono [OF tpc_okD(4) [OF assms(1)]] show ?thesis
    using assms(1-3) by (simp add: tpc_ok_def)
qed

lemma cleaner_send_ok:
  assumes "tpc_ok localId s" and "clog (txns s g) = Some (cmd = CMD_COMMIT_PREPARED)" and "cmd \<in> {CMD_COMMIT_PREPARED, CMD_ROLLBACK_PREPARED}"
  shows "tpc_ok localId (s\<lparr>txns := (txns s)(g := send p cmd (txns s g))\<rparr>)"
proof -
  note own = own_clog [OF assms(1,2)]
  have "txns s g \<noteq> fresh_txn" using assms(2) by (auto simp: fresh_txn_def)
  then have "txn_ok (send p cmd (txns s g))" using assms(2,3) by (intro send_ok [OF tpc_okD(1) [OF assms(1) own]]) auto
  with assms(1) own show ?thesis by (intro tpc_ok_upd follows_send)
qed

lemma cleaner_moves: "tpc_ok localId s \<Longrightarrow> cleaner_ok (deleted s) (txns s) c \<Longrightarrow> tpc_ok localId (s\<lparr>cleaner := c\<rparr>)"
  by (simp add: tpc_ok_def)

lemma GetRemotePrepared_own:
  assumes "tpc_ok localId s" and "g \<in> GetRemotePreparedTransactionSet localId p (txns s)"
  shows "own localId g" and "was_prepared p (txns s g)" and "(g, p) \<notin> deleted s"
proof -
  from assms(2) have g: "remote (txns s g) p = Prepared" "like (own_pattern localId) g" by (auto simp: GetRemotePreparedTransactionSet_def)
  have "remote (txns s g) p = Idle" if "\<not> own localId g" using tpc_okD(2) [OF assms(1) that] g(2) by (simp add: foreign_ok_def)
  with g(1) show own: "own localId g" by auto
  from tpc_okD(1) [OF assms(1) own] g(1) show "was_prepared p (txns s g)"
    unfolding txn_ok_def remote_ok_def decided_ok_def was_prepared_def by auto
  show "(g, p) \<notin> deleted s" using tpc_okD(4) [OF assms(1)] g(1) by (auto simp: deleted_ok_def)
qed

lemma cleanup_C_ok:
  assumes "tpc_ok localId s" and "cleaner s = HasB p A B" and "set C = record_set p (txns s)"
  shows "cleaner_ok (deleted s) (txns s) (HasC p A B C)"
proof -
  have c: "was_prepared p (txns s g) \<and> (g \<notin> B \<longrightarrow> (\<exists>d. clog (txns s g) = Some d))" if "g \<in> A" for g
    using tpc_okD(3) [OF assms(1,2)] that by (simp add: cleaner_ok_def)
  have "had_row p (txns s g)" if "p \<in> rows (txns s g)" for g
    using that tpc_okD(1,2) [OF assms(1), of g] unfolding had_row_def txn_ok_def rows_ok_def foreign_ok_def by blast
  moreover have "clog (txns s g) = Some False" if "g \<in> A" "p \<notin> rows (txns s g)" "g \<notin> B" for g
    using c [OF that(1)] that by (auto simp: was_prepared_def)
  ultimately show ?thesis using assms(3) by (simp add: cleaner_ok_def record_set_def)
qed

lemma cleanup_D_ok:
  assumes "tpc_ok localId s" and "cleaner s = HasC p A B C"
  shows "cleaner_ok (deleted s) (txns s) (Records p A B C (GetRemotePreparedTransactionSet localId p (txns s)))"
proof -
  have c: "\<forall>g\<in>A - set C - B. clog (txns s g) = Some False" "\<forall>g\<in>set C. had_row p (txns s g)"
    using tpc_okD(3) [OF assms] by (simp_all add: cleaner_ok_def)
  have "remote (txns s g) p = Committed" if "g \<in> set C" "g \<notin> GetRemotePreparedTransactionSet localId p (txns s)" for g
  proof -
    from c(2) that(1) have row: "two_servers (txns s g)" "p \<in> writers (txns s g)" "clog (txns s g) = Some True" by (auto simp: had_row_def)
    note own = own_clog [OF assms(1) row(3)]
    from own_like [OF own] that(2) have "remote (txns s g) p \<noteq> Prepared" by (simp add: GetRemotePreparedTransactionSet_def)
    with tpc_okD(1) [OF assms(1) own] row show ?thesis unfolding txn_ok_def decided_ok_def by blast
  qed
  with c show ?thesis by (simp add: cleaner_ok_def)
qed

lemma tpc_upd: "s\<lparr>cleaner := c, txns := ts\<rparr> = \<lparr>txns = ts, cleaner = c, deleted = deleted s\<rparr>" "s\<lparr>txns := ts, cleaner := c\<rparr> = s\<lparr>cleaner := c, txns := ts\<rparr>"
  "s\<lparr>cleaner := c, deleted := del\<rparr> = \<lparr>txns = txns s, cleaner = c, deleted = del\<rparr>"
  by (cases s, simp)+

lemma cleanup_record_ok:
  assumes "tpc_ok localId s" and "cleaner s = Records p A B (g # C) D" and "clean_record send p B D g (A, deleted s, txns s) = (A', del, ts)"
  shows "tpc_ok localId \<lparr>txns = ts, cleaner = Records p A' B C D, deleted = del\<rparr>"
proof -
  have c: "\<forall>h\<in>A - set (g # C) - B. clog (txns s h) = Some False"
    "\<forall>h\<in>set (g # C). had_row p (txns s h) \<and> (h \<notin> D \<longrightarrow> remote (txns s h) p = Committed)"
    using tpc_okD(3) [OF assms(1,2)] by (simp_all add: cleaner_ok_def)
  have A': "A' - set C - B \<subseteq> A - set (g # C) - B" using assms(3) by (auto split: if_splits)
  from c A' have moved: "tpc_ok localId (s\<lparr>cleaner := Records p A' B C D\<rparr>)"
    by (intro cleaner_moves [OF assms(1)]) (auto simp: cleaner_ok_def)
  from c(2) have row: "clog (txns s g) = Some True" "g \<notin> D \<Longrightarrow> remote (txns s g) p = Committed" by (auto simp: had_row_def)
  consider "ts = txns s" "del = deleted s" | "ts = (txns s)(g := send p CMD_COMMIT_PREPARED (txns s g))" "del = deleted s"
    | "g \<notin> D" "ts = txns s" "del = insert (g, p) (deleted s)"
    using assms(3) by (auto split: if_splits)
  then show ?thesis
  proof cases
    case 1
    with moved show ?thesis by (cases s) simp
  next
    case 2
    with cleaner_send_ok [OF moved, of g CMD_COMMIT_PREPARED p] row(1) show ?thesis by (simp add: tpc_upd)
  next
    case 3
    with moved row have "deleted_ok del ts" "cleaner_ok del ts (Records p A' B C D)"
      by (simp_all add: tpc_ok_def cleaner_ok_def deleted_ok_def)
    with assms(1) 3(2) show ?thesis by (simp add: tpc_ok_def)
  qed
qed

lemma cleanup_rest_ok:
  assumes "tpc_ok localId s" and "cleaner s = Rest p B (g # todo)"
  shows "tpc_ok localId (s\<lparr>txns := clean_rest send p B g (txns s), cleaner := Rest p B todo\<rparr>)"
proof -
  have c: "\<forall>h\<in>set (g # todo) - B. clog (txns s h) = Some False" using tpc_okD(3) [OF assms] by (simp add: cleaner_ok_def)
  then have moved: "tpc_ok localId (s\<lparr>cleaner := Rest p B todo\<rparr>)" by (intro cleaner_moves [OF assms(1)]) (simp add: cleaner_ok_def)
  show ?thesis
  proof (cases "g \<in> B")
    case True
    with moved show ?thesis by (cases s) (simp add: clean_rest_def)
  next
    case False
    with c cleaner_send_ok [OF moved, of g CMD_ROLLBACK_PREPARED p] show ?thesis by (simp add: clean_rest_def tpc_upd(2))
  qed
qed

lemma crash_ok:
  assumes "tpc_ok localId s"
  shows "tpc_ok localId \<lparr>txns = (\<lambda>g. if own localId g then crashed (txns s g) else txns s g), cleaner = Sleeping, deleted = {}\<rparr>"
  using assms crashed_ok by (simp add: tpc_ok_def cleaner_ok_def deleted_ok_def)

lemma cleanup_commit_ok:
  assumes "tpc_ok localId s"
  shows "tpc_ok localId (s\<lparr>txns := delete_rows (deleted s) (txns s), deleted := {}\<rparr>)"
proof -
  let ?ts = "delete_rows (deleted s) (txns s)"
  have del: "clog (txns s g) = Some True \<and> remote (txns s g) p = Committed" if "(g, p) \<in> deleted s" for g p
    using tpc_okD(4) [OF assms] that by (auto simp: deleted_ok_def)
  have "txn_ok (?ts g)" if "own localId g" for g
    unfolding delete_rows_def using del by (intro remove_rows_ok tpc_okD(1) [OF assms that]) simp
  moreover have "foreign_ok localId g (?ts g)" if "\<not> own localId g" for g
    using tpc_okD(2) [OF assms that] by (simp add: foreign_ok_def delete_rows_def)
  moreover have same: "had_row p (?ts g) = had_row p (txns s g)" "clog (?ts g) = clog (txns s g)" "remote (?ts g) = remote (txns s g)"
    "(g, p) \<notin> deleted s \<Longrightarrow> was_prepared p (?ts g) = was_prepared p (txns s g)" for g p
    by (simp_all add: delete_rows_def had_row_def two_servers_def was_prepared_def)
  have "cleaner_ok {} ?ts (cleaner s)"
    using tpc_okD(3) [OF assms refl] unfolding cleaner_ok_def by (cases "cleaner s") (simp_all add: same)
  ultimately show ?thesis by (simp add: tpc_ok_def deleted_ok_def)
qed

lemma cleanup_abort_ok: "tpc_ok localId s \<Longrightarrow> tpc_ok localId (s\<lparr>deleted := {}\<rparr>)"
  by (cases "cleaner s") (auto simp: tpc_ok_def cleaner_ok_def deleted_ok_def)

lemma elsewhere_ok:
  assumes "tpc_ok localId s" and "\<not> like (own_pattern localId) g"
  shows "tpc_ok localId (s\<lparr>txns := (txns s)(g := (txns s g)\<lparr>remote := r\<rparr>)\<rparr>)"
proof -
  let ?ts = "(txns s)(g := (txns s g)\<lparr>remote := r\<rparr>)"
  have own: "\<not> own localId g" using assms(2) own_like by blast
  note ok = tpc_okD(2) [OF assms(1) own]
  have "cleaner_ok (deleted s) ?ts (cleaner s)" "deleted_ok (deleted s) ?ts"
    using ok follows_refl
    by (intro cleaner_ok_mono [OF tpc_okD(3) [OF assms(1) refl]] deleted_ok_mono [OF tpc_okD(4) [OF assms(1)]]; auto simp: foreign_ok_def)+
  moreover have "foreign_ok localId g (?ts g)" using ok assms(2) by (simp add: foreign_ok_def)
  ultimately show ?thesis using assms(1) own by (simp add: tpc_ok_def)
qed

lemma tpc_step_ok:
  assumes "tpc_step localId False s s'" and "tpc_ok localId s"
  shows "tpc_ok localId s'"
  using assms(1)
proof (cases rule: tpc_step.cases)
  case (start g xid localWrite cs)
  then have "own localId g" by (auto simp: GetImplicitTransactionGid_def own_def Let_def split: if_splits)
  with begun_ok [OF start(4)] start(2) show ?thesis
    unfolding start(1) by (intro tpc_ok_upd [OF assms(2)]) (auto simp: follows_def fresh_txn_def begun_def Let_def)
next
  case (at_server g t)
  show ?thesis
    unfolding at_server(1)
    by (rule tpc_ok_upd [OF assms(2) at_server(2) server_step_ok [OF at_server(3) tpc_okD(1) [OF assms(2) at_server(2)]] server_step_follows [OF at_server(3)]])
next
  case (at_backend g t)
  have "backend (txns s g) \<noteq> None" using at_backend(2) by (cases rule: backend_step.cases) auto
  with tpc_okD(2) [OF assms(2), of g] have own: "own localId g" by (auto simp: foreign_ok_def)
  note ok = tpc_okD(1) [OF assms(2) own]
  show ?thesis
    unfolding at_backend(1) by (rule tpc_ok_upd [OF assms(2) own backend_step_ok [OF at_backend(2) ok] backend_step_follows [OF at_backend(2) ok]])
next
  case (cleanup_A p)
  then show ?thesis using GetRemotePrepared_own(2,3) [OF assms(2)] by (auto intro!: cleaner_moves assms(2) simp: cleaner_ok_def)
next
  case (cleanup_B p A)
  with tpc_okD(3) [OF assms(2) cleanup_B(2)] show ?thesis
    by (auto intro!: cleaner_moves assms(2) simp: cleaner_ok_def GetActiveTransactionSet_def was_prepared_def)
next
  case (cleanup_scanned p A B D todo)
  with tpc_okD(3) [OF assms(2) cleanup_scanned(2)] show ?thesis
    unfolding cleanup_scanned(1) by (intro cleaner_moves assms(2)) (auto simp: cleaner_ok_def)
next
  case cleanup_end
  with cleaner_moves [OF assms(2)] show ?thesis by (simp add: cleaner_ok_def)
qed (use assms(2) in \<open>blast intro: elsewhere_ok crash_ok cleaner_moves cleanup_C_ok cleanup_D_ok cleanup_record_ok cleanup_rest_ok
  cleanup_commit_ok cleanup_abort_ok\<close>)+

lemma tpc_reachable_ok: "tpc_reachable localId False s \<Longrightarrow> tpc_ok localId s"
proof (induction rule: tpc_reachable.induct)
  case init
  have "foreign_ok localId g fresh_txn" for g by (simp add: foreign_ok_def fresh_txn_def)
  with fresh_txn_ok show ?case unfolding tpc_ok_def tpc_init_def cleaner_ok_def deleted_ok_def by simp
next
  case (step s s')
  from tpc_step_ok [OF step.hyps(2) step.IH] show ?case .
qed

subsection \<open>Runs of one transaction\<close>

definition txn_step :: "bool \<Rightarrow> txn \<Rightarrow> txn \<Rightarrow> bool" where
  "txn_step reconnects t u \<longleftrightarrow> backend_step reconnects t u \<or> server_step t u"

lemma txn_steps_reachable:
  assumes "(txn_step reconnects)\<^sup>*\<^sup>* (txns s g) t" and "tpc_reachable localId reconnects s" and "own localId g"
  shows "\<exists>s'. tpc_reachable localId reconnects s' \<and> txns s' g = t"
  using assms(1)
proof (induction rule: rtranclp_induct)
  case base
  show ?case using assms(2) by blast
next
  case (step t u)
  then obtain s' where s': "tpc_reachable localId reconnects s'" "txns s' g = t" by blast
  have "tpc_step localId reconnects s' (s'\<lparr>txns := (txns s')(g := u)\<rparr>)"
    using step.hyps(2) s'(2) assms(3) by (auto simp: txn_step_def intro: tpc_step.at_server tpc_step.at_backend)
  from tpc_reachable.step [OF s'(1) this] show ?case by (intro exI [of _ "s'\<lparr>txns := (txns s')(g := u)\<rparr>"]) simp
qed

lemma begun_reachable:
  assumes "GetImplicitTransactionGid xid localId localWrite = Inr g" and "distinct (map fst cs)"
    and "\<forall>(p, st)\<in>set cs. st \<noteq> FALCON_REMOTE_TRANSACTION_PREPARE" and "(txn_step reconnects)\<^sup>*\<^sup>* (begun cs localWrite) t"
  shows "\<exists>s. tpc_reachable localId reconnects s \<and> txns s g = t"
proof -
  let ?s = "tpc_init\<lparr>txns := (txns tpc_init)(g := begun cs localWrite)\<rparr>"
  have "tpc_step localId reconnects tpc_init ?s"
    using assms(1-3) by (intro tpc_step.start) (simp_all add: tpc_init_def)
  then have "tpc_reachable localId reconnects ?s" by (rule tpc_reachable.step [OF tpc_reachable.init])
  moreover have "own localId g" using assms(1) by (auto simp: GetImplicitTransactionGid_def own_def Let_def split: if_splits)
  ultimately show ?thesis using txn_steps_reachable [of reconnects ?s g t localId] assms(4) by simp
qed

text \<open>A transaction that has written on the servers 1 and 2, in the course of a commit.\<close>


definition sample :: "phase \<Rightarrow> FalconRemoteTransactionState \<Rightarrow> FalconRemoteTransactionState \<Rightarrow> int list \<Rightarrow> bool \<Rightarrow> remote_state \<Rightarrow> remote_state \<Rightarrow>
    (int \<times> command) set \<Rightarrow> bool option \<Rightarrow> bool option \<Rightarrow> int set \<Rightarrow> bool option \<Rightarrow> txn" where
  "sample ph st1 st2 recs ip r1 r2 n rep1 rep2 rs cl =
    \<lparr>inprogress = ip, rows = rs, clog = cl, remote = (\<lambda>_. Idle)(1 := r1, 2 := r2), net = n, reply = (\<lambda>_. None)(1 := rep1, 2 := rep2),
     backend = Some \<lparr>b_phase = ph, b_conns = [(1, st1), (2, st2)], LocalServerWrite = False, gid_set = ip, b_records = recs\<rparr>,
     writers = {1, 2}, local_write = False\<rparr>"

lemma txn_stepI:
  "backend_step reconnects t u \<Longrightarrow> u = v \<Longrightarrow> txn_step reconnects t v" "server_step t u \<Longrightarrow> u = v \<Longrightarrow> txn_step reconnects t v"
  by (auto simp: txn_step_def)

lemma sample_begun: "begun [(1, FALCON_REMOTE_TRANSACTION_BEGIN_FOR_WRITE), (2, FALCON_REMOTE_TRANSACTION_BEGIN_FOR_WRITE)] False =
    sample PreCommit FALCON_REMOTE_TRANSACTION_BEGIN_FOR_WRITE FALCON_REMOTE_TRANSACTION_BEGIN_FOR_WRITE [] False Active Active {} None None {} None"
  by (auto simp: begun_def sample_def fresh_txn_def Let_def fun_eq_iff)

lemmas sample_simps = sample_def goes_def send_def fun_eq_iff AddInprogressTransaction_def Write2PCRecord_def set_conn_state_def conn_server_def
  conn_state_def need2pc_def write_server_count_def eval_nat_numeral insert_Diff_if

lemma sample_commits:
  defines "W \<equiv> FALCON_REMOTE_TRANSACTION_BEGIN_FOR_WRITE" and "P \<equiv> FALCON_REMOTE_TRANSACTION_PREPARE"
  shows "(txn_step reconnects)\<^sup>*\<^sup>* (sample PreCommit W W [] False Active Active {} None None {} None)
    (sample (SendCommit 1) P P [1, 2] True Committed Prepared {} (Some True) (Some True) {1, 2} (Some True))"
proof -
  note defs = W_def P_def sample_simps and [trans] = rtranclp.rtrancl_into_rtrancl
  have "(txn_step reconnects)\<^sup>*\<^sup>* (sample PreCommit W W [] False Active Active {} None None {} None)
      (sample PreCommit W W [] False Active Active {} None None {} None)" by simp
  also have "txn_step reconnects \<dots> (sample (SendPrepare 0) W W [] True Active Active {} None None {} None)"
    by (rule txn_stepI(1), rule backend_step.prepare_begin, (simp add: defs)+)
  also have "txn_step reconnects \<dots> (sample (SendPrepare 1) W W [] True Active Active {(1, CMD_PREPARE)} None None {} None)"
    by (rule txn_stepI(1), rule backend_step.prepare_send, (simp add: defs)+)
  also have "txn_step reconnects \<dots> (sample (SendPrepare 2) W W [] True Active Active {(2, CMD_PREPARE), (1, CMD_PREPARE)} None None {} None)"
    by (rule txn_stepI(1), rule backend_step.prepare_send, (simp add: defs)+)
  also have "txn_step reconnects \<dots> (sample (FetchPrepare 0 False) W W [] True Active Active {(2, CMD_PREPARE), (1, CMD_PREPARE)} None None {} None)"
    by (rule txn_stepI(1), rule backend_step.prepare_sent, (simp add: defs)+)
  also have "txn_step reconnects \<dots> (sample (FetchPrepare 0 False) W W [] True Prepared Active {(2, CMD_PREPARE)} (Some True) None {} None)"
    by (rule txn_stepI(2), rule server_step.succeeds [of 1 CMD_PREPARE], (simp add: defs)+)
  also have "txn_step reconnects \<dots> (sample (FetchPrepare 0 False) W W [] True Prepared Prepared {} (Some True) (Some True) {} None)"
    by (rule txn_stepI(2), rule server_step.succeeds [of 2 CMD_PREPARE], (simp add: defs)+)
  also have "txn_step reconnects \<dots> (sample (FetchPrepare 1 False) P W [1] True Prepared Prepared {} (Some True) (Some True) {} None)"
    by (rule txn_stepI(1), rule backend_step.prepare_fetch_ok [where i = 0 and err = False], (simp add: defs)+)
  also have "txn_step reconnects \<dots> (sample (FetchPrepare 2 False) P P [1, 2] True Prepared Prepared {} (Some True) (Some True) {} None)"
    by (rule txn_stepI(1), rule backend_step.prepare_fetch_ok [where i = 1 and err = False], (simp add: defs)+)
  also have "txn_step reconnects \<dots> (sample LocalCommit P P [1, 2] True Prepared Prepared {} (Some True) (Some True) {} None)"
    by (rule txn_stepI(1), rule backend_step.prepare_done, (simp add: defs)+)
  also have "txn_step reconnects \<dots> (sample (SendCommit 0) P P [1, 2] True Prepared Prepared {} (Some True) (Some True) {1, 2} (Some True))"
    by (rule txn_stepI(1), rule backend_step.local_commit, (simp add: defs)+)
  also have "txn_step reconnects \<dots> (sample (SendCommit 1) P P [1, 2] True Prepared Prepared {(1, CMD_COMMIT_PREPARED)} None (Some True) {1, 2} (Some True))"
    by (rule txn_stepI(1), rule backend_step.commit_send, (simp add: defs)+)
  also have "txn_step reconnects \<dots> (sample (SendCommit 1) P P [1, 2] True Committed Prepared {} (Some True) (Some True) {1, 2} (Some True))"
    by (rule txn_stepI(2), rule server_step.succeeds [of 1 CMD_COMMIT_PREPARED], (simp add: defs)+)
  finally show ?thesis .
qed

text \<open>
  A connection that breaks before the commit: \<open>GetForeignServerConnection\<close> replaces it, and the
  transaction commits at one of the two servers it has written to while the other has rolled back.
\<close>

lemma reconnect_splits:
  defines "W \<equiv> FALCON_REMOTE_TRANSACTION_BEGIN_FOR_WRITE" and "N \<equiv> FALCON_REMOTE_TRANSACTION_NONE"
  shows "(txn_step True)\<^sup>*\<^sup>* (sample PreCommit W W [] False Active Active {} None None {} None)
    (sample (SendCommit 2) N W [] False RolledBack Committed {} None (Some True) {} (Some True))"
proof -
  note defs = W_def N_def sample_simps and [trans] = rtranclp.rtrancl_into_rtrancl
  have "(txn_step True)\<^sup>*\<^sup>* (sample PreCommit W W [] False Active Active {} None None {} None)
      (sample PreCommit W W [] False Active Active {} None None {} None)" by simp
  also have "txn_step True \<dots> (sample PreCommit W W [] False RolledBack Active {} None None {} None)"
    by (rule txn_stepI(2), rule server_step.disconnected [of _ 1], (simp add: defs)+)
  also have "txn_step True \<dots> (sample PreCommit N W [] False RolledBack Active {} None None {} None)"
    by (rule txn_stepI(1), rule backend_step.pre_reconnect [of _ _ _ 0], (simp add: defs)+)
  also have "txn_step True \<dots> (sample LocalCommit N W [] False RolledBack Active {} None None {} None)"
    by (rule txn_stepI(1), rule backend_step.prepare_not_needed, (simp add: defs)+)
  also have "txn_step True \<dots> (sample (SendCommit 0) N W [] False RolledBack Active {} None None {} (Some True))"
    by (rule txn_stepI(1), rule backend_step.local_commit, (simp add: defs)+)
  also have "txn_step True \<dots> (sample (SendCommit 1) N W [] False RolledBack Active {} None None {} (Some True))"
    by (rule txn_stepI(1), rule backend_step.commit_send_none, (simp add: defs)+)
  also have "txn_step True \<dots> (sample (SendCommit 2) N W [] False RolledBack Active {(2, CMD_COMMIT)} None None {} (Some True))"
    by (rule txn_stepI(1), rule backend_step.commit_send, (simp add: defs)+)
  also have "txn_step True \<dots> (sample (SendCommit 2) N W [] False RolledBack Committed {} None (Some True) {} (Some True))"
    by (rule txn_stepI(2), rule server_step.succeeds [of 2 CMD_COMMIT], (simp add: defs)+)
  finally show ?thesis .
qed

lemma sample_reachable:
  assumes "(txn_step reconnects)\<^sup>*\<^sup>* (sample PreCommit FALCON_REMOTE_TRANSACTION_BEGIN_FOR_WRITE FALCON_REMOTE_TRANSACTION_BEGIN_FOR_WRITE
      [] False Active Active {} None None {} None) t"
  shows "\<exists>s. tpc_reachable 0 reconnects s \<and> txns s (gid_of 7 0 False) = t"
proof -
  have "GetImplicitTransactionGid 7 0 False = Inr (gid_of 7 0 False)" by code_simp
  from begun_reachable [OF this _ _ assms [folded sample_begun]] show ?thesis by simp
qed

lemma reconnect_not_atomic:
  "\<exists>s. tpc_reachable 0 True s \<and> two_servers (txns s (gid_of 7 0 False)) \<and> remote (txns s (gid_of 7 0 False)) 2 = Committed \<and>
    1 \<in> writers (txns s (gid_of 7 0 False)) \<and> remote (txns s (gid_of 7 0 False)) 1 = RolledBack"
proof -
  have "\<exists>s. tpc_reachable 0 True s \<and> txns s (gid_of 7 0 False) = sample (SendCommit 2) FALCON_REMOTE_TRANSACTION_NONE
      FALCON_REMOTE_TRANSACTION_BEGIN_FOR_WRITE [] False RolledBack Committed {} None (Some True) {} (Some True)"
    by (rule sample_reachable [OF reconnect_splits])
  then show ?thesis by (auto simp: sample_def two_servers_def)
qed

subsection \<open>Atomicity\<close>



subsection \<open>A pass of the cleanup with servers that answer\<close>

definition execute :: "int \<Rightarrow> command \<Rightarrow> txn \<Rightarrow> txn" where
  "execute p cmd t = (case executed cmd (remote t p) of Some r \<Rightarrow> t\<lparr>remote := (remote t)(p := r)\<rparr> | None \<Rightarrow> t)"

text \<open>\<open>enum\<close> is the order in which a scan of the table and of a hash table gives the elements.\<close>

definition CleanupPreparedTransactions :: "int \<Rightarrow> (string set \<Rightarrow> string list) \<Rightarrow> int \<Rightarrow> deleted \<times> txns \<Rightarrow> deleted \<times> txns" where
  "CleanupPreparedTransactions localId enum serverId = (\<lambda>(del, ts).
    let setA = GetRemotePreparedTransactionSet localId serverId ts;
        setB = GetActiveTransactionSet ts;
        setD = GetRemotePreparedTransactionSet localId serverId ts;
        (setA, del, ts) = fold (clean_record execute serverId setB setD) (enum (record_set serverId ts)) (setA, del, ts)
    in (del, fold (clean_rest execute serverId setB) (enum setA) ts))"

definition Cleanup2PC :: "int \<Rightarrow> (string set \<Rightarrow> string list) \<Rightarrow> int list \<Rightarrow> txns \<Rightarrow> txns" where
  "Cleanup2PC localId enum workerIdList ts =
    (case fold (CleanupPreparedTransactions localId enum) workerIdList ({}, ts) of (del, ts) \<Rightarrow> delete_rows del ts)"

lemma clean_records_effect:
  "fold (clean_record issue p B D) L (A, del, ts) =
    (A - (set L - B), del \<union> (set L - B - D) \<times> {p},
     \<lambda>g. if g \<in> set L - B \<and> g \<in> A \<and> g \<in> D then issue p CMD_COMMIT_PREPARED (ts g) else ts g)"
proof (induction L arbitrary: A del ts)
  case (Cons x L)
  consider "x \<in> B" | "x \<notin> B" "x \<in> A" "x \<in> D" | "x \<notin> B" "x \<notin> A" "x \<in> D" | "x \<notin> B" "x \<notin> D" by blast
  then show ?case by cases (auto simp: Cons.IH fun_eq_iff)
qed auto

lemma execute_idem: "execute p CMD_ROLLBACK_PREPARED (execute p CMD_ROLLBACK_PREPARED t) = execute p CMD_ROLLBACK_PREPARED t"
  by (cases "remote t p") (simp_all add: execute_def)

lemma clean_rests_effect:
  "fold (clean_rest execute p B) L ts = (\<lambda>g. if g \<in> set L - B then execute p CMD_ROLLBACK_PREPARED (ts g) else ts g)"
  by (induction L arbitrary: ts) (auto simp: clean_rest_def fun_eq_iff execute_idem)

text \<open>What a pass over one server does to a transaction.\<close>

definition resolve :: "int \<Rightarrow> txn \<Rightarrow> txn" where
  "resolve p t = (if inprogress t \<or> remote t p \<noteq> Prepared then t
     else t\<lparr>remote := (remote t)(p := if p \<in> rows t then Committed else RolledBack)\<rparr>)"

definition touched :: "txns \<Rightarrow> string set" where
  "touched ts = {g. ts g \<noteq> fresh_txn}"

lemma touched_finite:
  assumes "finite (touched ts)"
  shows "finite (GetRemotePreparedTransactionSet localId p ts)" and "finite (record_set p ts)"
proof -
  have "GetRemotePreparedTransactionSet localId p ts \<subseteq> touched ts" "record_set p ts \<subseteq> touched ts"
    by (auto simp: GetRemotePreparedTransactionSet_def record_set_def touched_def fresh_txn_def)
  with assms show "finite (GetRemotePreparedTransactionSet localId p ts)" "finite (record_set p ts)"
    by (auto intro: finite_subset)
qed

lemma CleanupPreparedTransactions_effect:
  assumes "\<forall>X. finite X \<longrightarrow> set (enum X) = X" and "finite (touched ts)"
    and "CleanupPreparedTransactions localId enum p (del, ts) = (del', ts')"
  shows "ts' g = (if like (own_pattern localId) g then resolve p (ts g) else ts g)"
    and "del' = del \<union> {g. p \<in> rows (ts g) \<and> \<not> inprogress (ts g) \<and> \<not> (like (own_pattern localId) g \<and> remote (ts g) p = Prepared)} \<times> {p}"
proof -
  let ?A = "GetRemotePreparedTransactionSet localId p ts" and ?B = "GetActiveTransactionSet ts"
  note fin = touched_finite [OF assms(2)]
  have L: "set (enum (record_set p ts)) = record_set p ts" "set (enum (?A - (record_set p ts - ?B))) = ?A - (record_set p ts - ?B)"
    using assms(1) fin by simp_all
  have eq: "del' = del \<union> (record_set p ts - ?B - ?A) \<times> {p}"
    "ts' = fold (clean_rest execute p ?B) (enum (?A - (record_set p ts - ?B)))
       (\<lambda>g. if g \<in> record_set p ts - ?B \<and> g \<in> ?A \<and> g \<in> ?A then execute p CMD_COMMIT_PREPARED (ts g) else ts g)"
    using assms(3) by (simp_all add: CleanupPreparedTransactions_def Let_def clean_records_effect L(1))
  show "ts' g = (if like (own_pattern localId) g then resolve p (ts g) else ts g)"
    unfolding eq(2) clean_rests_effect L(2)
    by (auto simp: GetRemotePreparedTransactionSet_def GetActiveTransactionSet_def record_set_def resolve_def execute_def)
  show "del' = del \<union> {g. p \<in> rows (ts g) \<and> \<not> inprogress (ts g) \<and> \<not> (like (own_pattern localId) g \<and> remote (ts g) p = Prepared)} \<times> {p}"
    unfolding eq(1) by (auto simp: GetRemotePreparedTransactionSet_def GetActiveTransactionSet_def record_set_def)
qed

lemma resolve_simps [simp]: "inprogress (resolve p t) = inprogress t" "rows (resolve p t) = rows t" "clog (resolve p t) = clog t"
  "inprogress t \<Longrightarrow> resolve p t = t" "resolve p fresh_txn = fresh_txn"
  by (simp_all add: resolve_def fresh_txn_def)

lemma remote_resolve: "remote (resolve p t) q =
    (if p = q \<and> \<not> inprogress t \<and> remote t q = Prepared then if q \<in> rows t then Committed else RolledBack else remote t q)"
  by (simp add: resolve_def)

lemma fold_resolve:
  "inprogress (fold resolve ps t) = inprogress t" "rows (fold resolve ps t) = rows t" "inprogress t \<Longrightarrow> fold resolve ps t = t"
  "remote (fold resolve ps t) q =
    (if q \<in> set ps \<and> \<not> inprogress t \<and> remote t q = Prepared then if q \<in> rows t then Committed else RolledBack else remote t q)"
  by (induction ps arbitrary: t) (auto simp: remote_resolve)

lemma passes_effect:
  assumes "\<forall>X. finite X \<longrightarrow> set (enum X) = X"
  shows "finite (touched ts) \<Longrightarrow> fold (CleanupPreparedTransactions localId enum) ps (del, ts) = (del', ts') \<Longrightarrow>
    ts' g = (if like (own_pattern localId) g then fold resolve ps (ts g) else ts g) \<and>
    (\<forall>q. (g, q) \<in> del' \<longrightarrow> (g, q) \<in> del \<or> \<not> inprogress (ts g)) \<and>
    (\<forall>q. (g, q) \<in> del \<or> q \<in> set ps \<and> q \<in> rows (ts g) \<and> \<not> inprogress (ts g) \<and> remote (ts g) q \<noteq> Prepared \<longrightarrow> (g, q) \<in> del')"
proof (induction ps arbitrary: del ts)
  case (Cons p ps)
  obtain del1 ts1 where pass: "CleanupPreparedTransactions localId enum p (del, ts) = (del1, ts1)" by fastforce
  note effect = CleanupPreparedTransactions_effect [OF assms Cons.prems(1) pass]
  have "touched ts1 \<subseteq> touched ts" by (auto simp: touched_def effect(1))
  then have fin: "finite (touched ts1)" using Cons.prems(1) by (rule finite_subset)
  have passes: "fold (CleanupPreparedTransactions localId enum) ps (del1, ts1) = (del', ts')" using Cons.prems(2) pass by simp
  note IH = Cons.IH [OF fin passes, THEN conjunct1] Cons.IH [OF fin passes, THEN conjunct2, THEN conjunct1]
    Cons.IH [OF fin passes, THEN conjunct2, THEN conjunct2]
  have del1: "(g, q) \<in> del1 \<longleftrightarrow> (g, q) \<in> del \<or>
      q = p \<and> p \<in> rows (ts g) \<and> \<not> inprogress (ts g) \<and> \<not> (like (own_pattern localId) g \<and> remote (ts g) p = Prepared)" for q
    using effect(2) by auto
  have ts1: "inprogress (ts1 g) = inprogress (ts g)" "rows (ts1 g) = rows (ts g)" "remote (ts g) q \<noteq> Prepared \<Longrightarrow> remote (ts1 g) q \<noteq> Prepared" for q
    by (simp_all add: effect(1) remote_resolve)
  show ?case
  proof (intro conjI allI impI)
    show "ts' g = (if like (own_pattern localId) g then fold resolve (p # ps) (ts g) else ts g)" using IH(1) effect(1) by simp
    show "(g, q) \<in> del \<or> \<not> inprogress (ts g)" if "(g, q) \<in> del'" for q using IH(2) that del1 ts1(1) by blast
    show "(g, q) \<in> del'"
      if "(g, q) \<in> del \<or> q \<in> set (p # ps) \<and> q \<in> rows (ts g) \<and> \<not> inprogress (ts g) \<and> remote (ts g) q \<noteq> Prepared" for q
      using IH(3) [rule_format, of q] that ts1(3) [of q] unfolding del1 ts1(1,2) by (cases "q = p") auto
  qed
qed simp

lemma step_touched:
  assumes "tpc_step localId reconnects s s'" and "finite (touched (txns s))"
  shows "finite (touched (txns s'))"
proof -
  have upd: "finite (touched ((txns s)(g := t)))" for g t
  proof (rule finite_subset)
    show "touched ((txns s)(g := t)) \<subseteq> insert g (touched (txns s))" by (auto simp: touched_def)
  qed (simp add: assms(2))
  have sub: "finite (touched ts)" if "\<And>g. txns s g = fresh_txn \<Longrightarrow> ts g = fresh_txn" for ts
    by (rule finite_subset [OF _ assms(2)]) (use that in \<open>auto simp: touched_def\<close>)
  show ?thesis
    using assms(1)
  proof (cases rule: tpc_step.cases)
    case crash
    then show ?thesis by (intro sub) (simp add: crashed_def)
  next
    case (cleanup_record p A B g C D A' del ts)
    then have "ts = txns s \<or> (\<exists>t. ts = (txns s)(g := t))" by (auto split: if_splits)
    with cleanup_record(1) upd assms(2) show ?thesis by auto
  next
    case (cleanup_rest p B g todo)
    then show ?thesis using upd assms(2) by (simp add: clean_rest_def)
  next
    case cleanup_commit
    then show ?thesis by (intro sub) (simp add: delete_rows_def fresh_txn_def)
  qed (simp_all add: upd assms(2))
qed

lemma reachable_touched: "tpc_reachable localId reconnects s \<Longrightarrow> finite (touched (txns s))"
proof (induction rule: tpc_reachable.induct)
  case (step s s')
  from step_touched [OF step.hyps(2) step.IH] show ?case .
qed (simp add: tpc_init_def touched_def)

text \<open>
  C10. The cleanup resolves what was left behind.  When all servers answer, one pass of the cleanup
  over the servers leaves a transaction that is in progress alone; of any other transaction of the
  coordinator, a part that was prepared at one of the servers is committed there when the coordinator
  has committed and rolled back there otherwise, and where nothing was prepared the row for the server
  is gone.
\<close>

theorem Cleanup2PC_resolves:
  assumes "tpc_reachable localId False s" and "\<forall>X. finite X \<longrightarrow> set (enum X) = X" and "p \<in> set workerIdList"
    and "g = gid_of xid localId localWrite"
  shows "if inprogress (txns s g) then Cleanup2PC localId enum workerIdList (txns s) g = txns s g
    else if remote (txns s g) p = Prepared
      then remote (Cleanup2PC localId enum workerIdList (txns s) g) p = (if clog (txns s g) = Some True then Committed else RolledBack)
      else remote (Cleanup2PC localId enum workerIdList (txns s) g) p = remote (txns s g) p \<and>
        p \<notin> rows (Cleanup2PC localId enum workerIdList (txns s) g)"
proof -
  have own: "own localId g" using assms(4) by (auto simp: own_def)
  note ok = tpc_okD(1) [OF tpc_reachable_ok [OF assms(1)] own]
  have decided: "remote (txns s g) p = Prepared \<Longrightarrow> \<not> inprogress (txns s g) \<Longrightarrow> p \<in> rows (txns s g) \<longleftrightarrow> clog (txns s g) = Some True"
    using ok unfolding txn_ok_def remote_ok_def decided_ok_def rows_ok_def by auto
  obtain del ts where passes: "fold (CleanupPreparedTransactions localId enum) workerIdList ({}, txns s) = (del, ts)" by fastforce
  have u: "Cleanup2PC localId enum workerIdList (txns s) g = (ts g)\<lparr>rows := rows (ts g) - {q. (g, q) \<in> del}\<rparr>"
    by (simp add: Cleanup2PC_def passes delete_rows_def)
  note effect = passes_effect [OF assms(2) reachable_touched [OF assms(1)] passes, of g]
  then have ts: "ts g = fold resolve workerIdList (txns s g)" using own_like [OF own] by simp
  let ?t = "txns s g"
  have rows: "inprogress ?t \<Longrightarrow> {q. (g, q) \<in> del} = {}" "\<not> inprogress ?t \<Longrightarrow> remote ?t p \<noteq> Prepared \<Longrightarrow> p \<in> rows ?t \<Longrightarrow> (g, p) \<in> del"
    using effect [THEN conjunct2, THEN conjunct1] effect [THEN conjunct2, THEN conjunct2, rule_format, of p] assms(3) by blast+
  show ?thesis
  proof (cases "inprogress ?t")
    case True
    with rows(1) show ?thesis by (simp add: u ts fold_resolve)
  next
    case False
    with rows(2) decided assms(3) show ?thesis by (cases "remote ?t p = Prepared") (auto simp: u ts fold_resolve)
  qed
qed

theorem Cleanup2PC_resolves_witness:
  "\<exists>s. tpc_reachable 0 False s \<and> \<not> inprogress (txns s (gid_of 7 0 False)) \<and> remote (txns s (gid_of 7 0 False)) 2 = Prepared \<and>
    clog (txns s (gid_of 7 0 False)) = Some True \<and>
    remote (Cleanup2PC 0 sorted_list_of_set [1, 2] (txns s) (gid_of 7 0 False)) 2 = Committed"
proof -
  have "\<exists>s. tpc_reachable 0 False s \<and> txns s (gid_of 7 0 False) = sample (SendCommit 1) FALCON_REMOTE_TRANSACTION_PREPARE
      FALCON_REMOTE_TRANSACTION_PREPARE [1, 2] True Committed Prepared {} (Some True) (Some True) {1, 2} (Some True)"
    by (rule sample_reachable [OF sample_commits])
  then obtain s where s: "tpc_reachable 0 False s" "txns s (gid_of 7 0 False) = sample (SendCommit 1) FALCON_REMOTE_TRANSACTION_PREPARE
      FALCON_REMOTE_TRANSACTION_PREPARE [1, 2] True Committed Prepared {} (Some True) (Some True) {1, 2} (Some True)" by blast
  let ?s = "\<lparr>txns = (\<lambda>g. if own 0 g then crashed (txns s g) else txns s g), cleaner = Sleeping, deleted = {}\<rparr>"
  have reach: "tpc_reachable 0 False ?s" by (rule tpc_reachable.step [OF s(1) tpc_step.crash])
  have "own 0 (gid_of 7 0 False)" by (auto simp: own_def)
  then have t: "\<not> inprogress (txns ?s (gid_of 7 0 False))" "remote (txns ?s (gid_of 7 0 False)) 2 = Prepared" "clog (txns ?s (gid_of 7 0 False)) = Some True"
    using s(2) by (simp_all add: crashed_def sample_def fresh_txn_def)
  have "remote (Cleanup2PC 0 sorted_list_of_set [1, 2] (txns ?s) (gid_of 7 0 False)) 2 = Committed"
    using Cleanup2PC_resolves [OF reach _ _ refl, of sorted_list_of_set 2 "[1, 2]" 7 False] t by simp
  with reach t show ?thesis by blast
qed

end
